(* ===== verification/Prelude.thy ===== *)
theory Prelude
  imports Main "HOL-Library.Word"
begin

text \<open>
  Shared vocabulary of the development: the machine integers of the Rust sources, byte
  strings, the slice operations of \<^verbatim>\<open>core\<close> that the sources call
  (\<^verbatim>\<open>split_first_chunk\<close>, \<^verbatim>\<open>get(a..b)\<close>, \<^verbatim>\<open>from_be_bytes\<close>, \<^verbatim>\<open>to_be_bytes\<close>) and
  the generic facts about them that every component uses.

  Conventions. A fixed-width Rust integer is a word of that width; \<open>+\<close> wraps, as it does in
  the release profile of the workspace (no overflow checks). \<^verbatim>\<open>usize\<close> values that are lengths
  or indices of in-memory sequences are natural numbers. \<^verbatim>\<open>Instant\<close> and \<^verbatim>\<open>Duration\<close> are
  natural numbers of nanoseconds: natural subtraction stops at zero, which is what
  \<^verbatim>\<open>Instant::duration_since\<close> does. \<^verbatim>\<open>Result<T, E>\<close> is \<open>'e + 't\<close> with the error on the left.
\<close>

named_theorems be_simps \<open>big-endian encoding and decoding\<close>
named_theorems chunk_simps \<open>splitting and slicing of byte strings\<close>

section \<open>Machine types\<close>

type_synonym u8 = "8 word"
type_synonym u16 = "16 word"
type_synonym u32 = "32 word"
type_synonym u64 = "64 word"
type_synonym bytes = "u8 list"
type_synonym instant = nat
type_synonym duration = nat

section \<open>Slices\<close>

definition split_first_chunk :: "nat \<Rightarrow> 'a list \<Rightarrow> ('a list \<times> 'a list) option" where
  "split_first_chunk n xs = (if n \<le> length xs then Some (take n xs, drop n xs) else None)"

definition get_range :: "nat \<Rightarrow> nat \<Rightarrow> 'a list \<Rightarrow> 'a list option" where
  "get_range a b xs = (if a \<le> b \<and> b \<le> length xs then Some (take (b - a) (drop a xs)) else None)"

definition get_from :: "nat \<Rightarrow> 'a list \<Rightarrow> 'a list option" where
  "get_from a xs = (if a \<le> length xs then Some (drop a xs) else None)"

lemma split_first_chunk_None [chunk_simps]:
  "split_first_chunk n xs = None \<longleftrightarrow> length xs < n"
  by (auto simp: split_first_chunk_def)

lemma split_first_chunk_Some [chunk_simps]:
  "split_first_chunk n xs = Some (ys, zs) \<longleftrightarrow> xs = ys @ zs \<and> length ys = n"
  by (auto simp: split_first_chunk_def)

lemma split_first_chunk_append [chunk_simps, simp]:
  "length ys = n \<Longrightarrow> split_first_chunk n (ys @ zs) = Some (ys, zs)"
  by (simp add: split_first_chunk_Some)

lemma get_range_Some [chunk_simps]:
  "get_range a b xs = Some ys \<longleftrightarrow> a \<le> b \<and> b \<le> length xs \<and> ys = take (b - a) (drop a xs)"
  by (auto simp: get_range_def)

lemma get_range_None [chunk_simps]:
  "get_range a b xs = None \<longleftrightarrow> b < a \<or> length xs < b"
  by (auto simp: get_range_def)

lemma take_drop_append_mid [simp]:
  "length xs = a \<Longrightarrow> take (length ys) (drop a (xs @ ys @ zs)) = ys"
  by simp

section \<open>Big-endian integers\<close>

text \<open>Value of a big-endian byte string, and the \<open>k\<close> low bytes of a number, most significant
  first.\<close>

definition be_nat :: "bytes \<Rightarrow> nat" where
  "be_nat bs = foldl (\<lambda>acc b. acc * 256 + unat b) 0 bs"

primrec be_bytes :: "nat \<Rightarrow> nat \<Rightarrow> bytes" where
  "be_bytes 0 n = []"
| "be_bytes (Suc k) n = be_bytes k (n div 256) @ [of_nat (n mod 256)]"

definition u16_from_be_bytes :: "bytes \<Rightarrow> u16" where
  "u16_from_be_bytes bs = of_nat (be_nat bs)"

definition u64_from_be_bytes :: "bytes \<Rightarrow> u64" where
  "u64_from_be_bytes bs = of_nat (be_nat bs)"

definition u16_to_be_bytes :: "u16 \<Rightarrow> bytes" where
  "u16_to_be_bytes w = be_bytes 2 (unat w)"

definition u64_to_be_bytes :: "u64 \<Rightarrow> bytes" where
  "u64_to_be_bytes w = be_bytes 8 (unat w)"

lemma be_nat_Nil [simp, be_simps]: "be_nat [] = 0"
  by (simp add: be_nat_def)

lemma be_nat_snoc [be_simps]: "be_nat (bs @ [b]) = be_nat bs * 256 + unat b"
  by (simp add: be_nat_def)

lemma unat_less_pow: "unat (w :: 'a::len word) < 2 ^ LENGTH('a)"
  by (rule unsigned_less)

lemma unat_u8_less [simp]: "unat (b :: u8) < 256"
  using unat_less_pow [of b] by simp

lemma be_nat_less: "be_nat bs < 256 ^ length bs"
proof (induction bs rule: rev_induct)
  case Nil
  show ?case by simp
next
  case (snoc b bs)
  have "unat b < 256" by simp
  with snoc.IH have "be_nat bs * 256 + unat b < 256 * 256 ^ length bs" by linarith
  then show ?case by (simp add: be_nat_snoc)
qed

lemma length_be_bytes [simp, be_simps]: "length (be_bytes k n) = k"
  by (induction k arbitrary: n) simp_all

lemma unat_of_nat_u8 [simp]: "unat (of_nat (n mod 256) :: u8) = n mod 256"
  by (simp add: unat_of_nat)

lemma be_nat_be_bytes [be_simps]: "be_nat (be_bytes k n) = n mod 256 ^ k"
proof (induction k arbitrary: n)
  case 0
  show ?case by simp
next
  case (Suc k)
  then show ?case
    by (simp add: be_nat_snoc mod_mult2_eq)
qed

lemma be_bytes_be_nat [be_simps]: "be_bytes (length bs) (be_nat bs) = bs"
proof (induction bs rule: rev_induct)
  case Nil
  show ?case by simp
next
  case (snoc b bs)
  have "(be_nat bs * 256 + unat b) div 256 = be_nat bs"
    by (simp add: div_add1_eq)
  with snoc.IH show ?case by (simp add: be_nat_snoc)
qed

lemma u16_be_roundtrip [simp, be_simps]: "u16_from_be_bytes (u16_to_be_bytes w) = w"
  using unat_less_pow [of w]
  by (simp add: u16_from_be_bytes_def u16_to_be_bytes_def be_nat_be_bytes)

lemma u64_be_roundtrip [simp, be_simps]: "u64_from_be_bytes (u64_to_be_bytes w) = w"
  using unat_less_pow [of w]
  by (simp add: u64_from_be_bytes_def u64_to_be_bytes_def be_nat_be_bytes)

lemma length_to_be_bytes [simp, be_simps]:
  "length (u16_to_be_bytes w) = 2" "length (u64_to_be_bytes v) = 8"
  by (simp_all add: u16_to_be_bytes_def u64_to_be_bytes_def)

lemma unat_u16_less [simp]: "unat (w :: u16) < 65536"
  using unat_less_pow [of w] by simp

lemma unat_u16_from_be [be_simps]:
  "length bs = 2 \<Longrightarrow> unat (u16_from_be_bytes bs) = be_nat bs"
  using be_nat_less [of bs] by (simp add: u16_from_be_bytes_def unat_of_nat)

lemma u16_to_from_be [be_simps]: "length bs = 2 \<Longrightarrow> u16_to_be_bytes (u16_from_be_bytes bs) = bs"
  using be_bytes_be_nat [of bs] by (simp add: u16_to_be_bytes_def unat_u16_from_be)

lemma u64_to_from_be [be_simps]: "length bs = 8 \<Longrightarrow> u64_to_be_bytes (u64_from_be_bytes bs) = bs"
  using be_bytes_be_nat [of bs] be_nat_less [of bs]
  by (simp add: u64_to_be_bytes_def u64_from_be_bytes_def unat_of_nat)

section \<open>Word arithmetic without overflow\<close>

lemma unat_add1_no_overflow:
  fixes x y :: "'a::len word"
  assumes "x < y"
  shows "unat (x + 1) = unat x + 1"
proof -
  have "unat x + 1 < 2 ^ LENGTH('a)"
    using assms unat_less_pow [of y] unfolding word_less_nat_alt by linarith
  then show ?thesis by (simp add: unat_word_ariths)
qed

lemma word_add1_le_iff:
  fixes x y :: "'a::len word"
  assumes "x < y"
  shows "x + 1 \<le> y"
  using assms by (rule inc_le)

lemma word_less_add1_iff:
  fixes x y z :: "'a::len word"
  assumes "x < z"
  shows "y < x + 1 \<longleftrightarrow> y \<le> x"
  using unat_add1_no_overflow [OF assms]
  by (simp add: word_less_nat_alt word_le_nat_alt less_Suc_eq_le)

lemma word_add1_le_eq:
  fixes x y z :: "'a::len word"
  assumes "x < z"
  shows "x + 1 \<le> y \<longleftrightarrow> x < y"
  using unat_add1_no_overflow [OF assms]
  by (simp add: word_less_nat_alt word_le_nat_alt Suc_le_eq)

lemma word_interval_remove:
  fixes x s e :: "'a::len word"
  assumes "s \<le> x" "x < e"
  shows "{s..<e} - {x} = {s..<x} \<union> {x + 1..<e}"
  unfolding set_eq_iff Diff_iff Un_iff atLeastLessThan_iff word_add1_le_eq [OF assms(2)]
  using assms by auto

lemma unat_ucast_mod: "unat (ucast (w :: 'a::len word) :: 'b::len word) = unat w mod 2 ^ LENGTH('b)"
  by (simp add: unsigned_ucast_eq take_bit_eq_mod)

lemma unat_diff_less: "(x :: 'a::len word) < y \<Longrightarrow> unat (y - x) = unat y - unat x"
  by (simp add: unat_sub order_less_imp_le)

lemma unat_add_of_nat:
  fixes x :: "'a::len word"
  assumes "unat x + n < 2 ^ LENGTH('a)"
  shows "unat (x + of_nat n) = unat x + n"
  using assms by (simp add: unat_word_ariths unat_of_nat)

lemma unat_u16_as_u64 [simp]: "unat (ucast (x :: u16) :: u64) = unat x"
proof -
  have "unat x < 65536" "(65536 :: nat) < 2 ^ 64" by (rule unat_u16_less, simp)
  then have "unat x < 2 ^ 64" by (rule order_less_trans)
  then show ?thesis unfolding unat_ucast_mod by simp
qed

text \<open>Two positions of a window as wide as the modulus that share a residue are equal.\<close>

lemma mod_window_inj:
  fixes b x n y :: nat
  assumes "b \<le> x" "x < b + n" "b \<le> y" "y < b + n" "x mod n = y mod n"
  shows "x = y"
proof -
  have close: "x = y" if "x mod n = y mod n" "x \<le> y" "y < x + n" for x y
  proof (rule ccontr)
    assume "x \<noteq> y"
    with that have "n dvd y - x" "0 < y - x" "y - x < n"
      by (simp_all add: mod_eq_dvd_iff_nat [OF that(2), symmetric])
    then show False using nat_dvd_not_less by blast
  qed
  show ?thesis using close [of x y] close [of y x] assms by linarith
qed

lemma unat_minus_one_word: "unat (- 1 :: 'a::len word) = 2 ^ LENGTH('a) - 1"
  by (simp add: unsigned_minus_1_eq_mask mask_eq_exp_minus_1)

end
