(* ===== verification/Transport_Core.thy ===== *)
theory Transport_Core
  imports Prelude
begin

text \<open>
  The shared transport layer of \<^verbatim>\<open>crates/transports/core\<close>: the error type
  (\<^verbatim>\<open>error.rs\<close>), pool statistics, the config checks of \<^verbatim>\<open>config::validate\<close>, the burst container
  \<^verbatim>\<open>FrameBatch\<close> and the receive contract of \<^verbatim>\<open>DatagramRecv\<close>/\<^verbatim>\<open>L2Recv\<close> as a locale.

  A transport is a state type \<open>'t\<close> with a \<^verbatim>\<open>recv_burst\<close> operation that returns the result, the new
  transport state and the new batch. The locale \<open>burst_source\<close> holds what the documentation of the
  traits promises; the backends and wrappers of this development interpret it.
\<close>

section \<open>Errors\<close>

text \<open>\<^verbatim>\<open>std::io::Error\<close> as the sources read it: its kind and, when it came from the OS, the errno.\<close>

datatype io_kind =
    WouldBlock | Interrupted | InvalidData | InvalidInput | KindUnsupported
  | PermissionDenied | TimedOut | OutOfMemory | OtherKind

datatype io_error = IoError (error_kind: io_kind) (raw_os_error: "int option")

datatype socket_addr =
    AddrV4 u8 u8 u8 u8 u16
  | AddrV6 "u16 list" u16 u32 u32

datatype transport_error =
    Bind socket_addr io_error
  | Connect socket_addr io_error
  | InvalidConfig string string
  | Io string io_error
  | PoolExhausted nat nat
  | PeerClosed
  | Unsupported string string
  | Unavailable string string "io_error option"

section \<open>Pool statistics and config checks\<close>

record pool_stats =
  ps_capacity :: nat
  ps_in_use :: nat

text \<open>\<^verbatim>\<open>usize\<close> is 64 bits wide on the supported targets.\<close>

definition usize_max :: nat where
  "usize_max = 2 ^ 64 - 1"

definition checked_product :: "string \<Rightarrow> nat \<Rightarrow> nat \<Rightarrow> transport_error + nat" where
  "checked_product field a b =
     (if a * b \<le> usize_max then Inr (a * b)
      else Inl (InvalidConfig field ''size product overflows usize''))"

definition at_most :: "string \<Rightarrow> u32 \<Rightarrow> u32 \<Rightarrow> transport_error + unit" where
  "at_most field value limit =
     (if value > limit then Inl (InvalidConfig field ''above backend limit'') else Inr ())"

section \<open>Burst container\<close>

record 'f frame_batch =
  fb_frames :: "'f list"
  fb_cap :: nat

definition batch_with_capacity :: "nat \<Rightarrow> 'f frame_batch" where
  "batch_with_capacity cap = \<lparr>fb_frames = [], fb_cap = cap\<rparr>"

text \<open>\<^verbatim>\<open>saturating_sub\<close> is natural subtraction.\<close>

definition spare :: "'f frame_batch \<Rightarrow> nat" where
  "spare b = fb_cap b - length (fb_frames b)"

definition batch_len :: "'f frame_batch \<Rightarrow> nat" where
  "batch_len b = length (fb_frames b)"

definition batch_is_empty :: "'f frame_batch \<Rightarrow> bool" where
  "batch_is_empty b \<longleftrightarrow> fb_frames b = []"

definition batch_push :: "'f \<Rightarrow> 'f frame_batch \<Rightarrow> 'f frame_batch" where
  "batch_push f b = b\<lparr>fb_frames := fb_frames b @ [f]\<rparr>"

definition batch_drain :: "'f frame_batch \<Rightarrow> 'f list \<times> 'f frame_batch" where
  "batch_drain b = (fb_frames b, b\<lparr>fb_frames := []\<rparr>)"

text \<open>A batch is well formed while it holds at most its capacity, which is never zero.\<close>

definition batch_ok :: "'f frame_batch \<Rightarrow> bool" where
  "batch_ok b \<longleftrightarrow> 0 < fb_cap b \<and> length (fb_frames b) \<le> fb_cap b"

lemmas batch_defs =
  batch_with_capacity_def spare_def batch_len_def batch_is_empty_def batch_push_def
  batch_drain_def batch_ok_def

lemma batch_push_ok: "batch_ok b \<Longrightarrow> 0 < spare b \<Longrightarrow> batch_ok (batch_push f b)"
  by (simp add: batch_defs)

lemma batch_drain_ok: "batch_ok b \<Longrightarrow> batch_ok (snd (batch_drain b))"
  by (simp add: batch_defs)

lemma spare_push: "0 < spare b \<Longrightarrow> spare (batch_push f b) = spare b - 1"
  by (simp add: batch_defs)

lemma spare_drained: "spare (snd (batch_drain b)) = fb_cap b"
  by (simp add: batch_defs)

section \<open>The receive contract\<close>

type_synonym ('t, 'f) recv_op =
  "'t \<Rightarrow> 'f frame_batch \<Rightarrow> (transport_error + nat) \<times> 't \<times> 'f frame_batch"

text \<open>\<open>extends_batch out n out'\<close>: \<open>out'\<close> is \<open>out\<close> with \<open>n\<close> frames appended, within capacity.\<close>

definition extends_batch :: "'f frame_batch \<Rightarrow> 'f list \<Rightarrow> 'f frame_batch \<Rightarrow> bool" where
  "extends_batch out fs out' \<longleftrightarrow>
     out' = out\<lparr>fb_frames := fb_frames out @ fs\<rparr> \<and> length fs \<le> spare out"

lemma extends_batch_nil [simp]: "extends_batch out [] out"
  by (simp add: extends_batch_def)

lemma extends_batch_ok: "extends_batch out fs out' \<Longrightarrow> batch_ok out \<Longrightarrow> batch_ok out'"
  by (auto simp: extends_batch_def batch_ok_def spare_def)

lemma extends_batch_push:
  "extends_batch out fs out' \<Longrightarrow> length fs < spare out \<Longrightarrow>
   extends_batch out (fs @ [f]) (batch_push f out')"
  by (auto simp: extends_batch_def batch_push_def)

lemma extends_batch_frames:
  "extends_batch out fs out' \<Longrightarrow> fb_frames out' = fb_frames out @ fs \<and> fb_cap out' = fb_cap out"
  by (auto simp: extends_batch_def)

lemma extends_batch_unique: "extends_batch out fs out' \<Longrightarrow> extends_batch out gs out' \<Longrightarrow> gs = fs"
  using extends_batch_frames [of out fs out'] extends_batch_frames [of out gs out'] by simp

lemma extends_batch_spare: "extends_batch out fs out' \<Longrightarrow> spare out' = spare out - length fs"
  by (auto simp: extends_batch_def spare_def)

lemma extends_batch_trans:
  "extends_batch a fs b \<Longrightarrow> extends_batch b gs c \<Longrightarrow> extends_batch a (fs @ gs) c"
  by (auto simp: extends_batch_def spare_def)

locale burst_source =
  fixes recv_burst :: "('t, 'f) recv_op"
    and src_inv :: "'t \<Rightarrow> bool"
  assumes recv_pushes:
    "src_inv t \<Longrightarrow> 0 < spare out \<Longrightarrow> recv_burst t out = (res, t', out') \<Longrightarrow>
     \<exists>fs. extends_batch out fs out' \<and> (\<forall>n. res = Inr n \<longrightarrow> n = length fs)"
    and recv_inv:
    "src_inv t \<Longrightarrow> 0 < spare out \<Longrightarrow> recv_burst t out = (res, t', out') \<Longrightarrow> src_inv t'"
begin

lemma recv_batch_ok:
  "src_inv t \<Longrightarrow> batch_ok out \<Longrightarrow> 0 < spare out \<Longrightarrow> recv_burst t out = (res, t', out') \<Longrightarrow> batch_ok out'"
  using recv_pushes extends_batch_ok by metis

lemma recv_idle:
  "src_inv t \<Longrightarrow> 0 < spare out \<Longrightarrow> recv_burst t out = (Inr 0, t', out') \<Longrightarrow> out' = out"
  using recv_pushes [of t out "Inr 0" t' out'] by (auto simp: extends_batch_def)

end

text \<open>
  A source that also says which frames are still to come: every call takes them off the front, in order, and an error
  comes with no frame.
\<close>

locale frame_stream = burst_source recv_burst src_inv
  for recv_burst :: "('t, 'f) recv_op" and src_inv :: "'t \<Rightarrow> bool" +
  fixes rest_of :: "'t \<Rightarrow> 'f list"
  assumes recv_takes:
    "src_inv t \<Longrightarrow> 0 < spare out \<Longrightarrow> recv_burst t out = (res, t', out') \<Longrightarrow>
     \<exists>fs. extends_batch out fs out' \<and> rest_of t = fs @ rest_of t'
       \<and> (\<forall>n. res = Inr n \<longrightarrow> n = length fs) \<and> (\<forall>e. res = Inl e \<longrightarrow> fs = [])"

end
