(* ===== verification/Mold_Wire.thy ===== *)
theory Mold_Wire
  imports Transport_Core
begin

text \<open>
  The MoldUDP64 downstream codec, \<^verbatim>\<open>crates/clients/moldudp/src/wire.rs\<close>, with the error type of
  \<^verbatim>\<open>error.rs\<close> and the control events of \<^verbatim>\<open>event.rs\<close>. The block iterator is a record stepped by
  \<open>block_next\<close>, exactly as \<^verbatim>\<open>Iterator::next\<close> steps it; \<open>collect_blocks\<close> is the loop of the
  receiver that drains it.
\<close>

section \<open>Errors and events\<close>

datatype mold_error =
    Transport transport_error
  | SessionMismatch bytes bytes
  | GapDetected
  | ReassemblyBufferFull nat
  | PacketTooShort
  | PacketTooLarge
  | PoolTooSmall nat nat nat
  | LegCount nat

datatype mold_event = Heartbeat u64 | EndOfSession u64

section \<open>Header\<close>

definition HEADER_LEN :: nat where
  "HEADER_LEN = 20"

definition MAX_DOWNSTREAM_DATAGRAM :: nat where
  "MAX_DOWNSTREAM_DATAGRAM = 64 * 1024"

record downstream_header =
  session_id :: bytes
  sequence_no :: u64
  message_count :: u16

datatype packet_kind = KHeartbeat | KEndOfSession | KData

definition header_kind :: "downstream_header \<Rightarrow> packet_kind" where
  "header_kind h =
     (if message_count h = 0 then KHeartbeat
      else if message_count h = 0xFFFF then KEndOfSession
      else KData)"

definition parse_header :: "bytes \<Rightarrow> mold_error + downstream_header" where
  "parse_header buf =
     (if length buf > MAX_DOWNSTREAM_DATAGRAM then Inl PacketTooLarge
      else case split_first_chunk 10 buf of
        None \<Rightarrow> Inl PacketTooShort
      | Some (sess, rest) \<Rightarrow>
          (case split_first_chunk 8 rest of
             None \<Rightarrow> Inl PacketTooShort
           | Some (sq, rest) \<Rightarrow>
               (case split_first_chunk 2 rest of
                  None \<Rightarrow> Inl PacketTooShort
                | Some (cnt, _) \<Rightarrow>
                    Inr \<lparr>session_id = sess, sequence_no = u64_from_be_bytes sq,
                         message_count = u16_from_be_bytes cnt\<rparr>)))"

section \<open>Message blocks\<close>

record block_iter =
  remaining :: bytes
  blocks_left :: u16
  truncated :: bool
  next_offset :: nat

definition block_iter_new :: "bytes \<Rightarrow> u16 \<Rightarrow> block_iter" where
  "block_iter_new payload cnt =
     \<lparr>remaining = payload, blocks_left = cnt, truncated = False, next_offset = HEADER_LEN\<rparr>"

definition header_blocks :: "downstream_header \<Rightarrow> bytes \<Rightarrow> block_iter" where
  "header_blocks h datagram =
     block_iter_new (case get_from HEADER_LEN datagram of None \<Rightarrow> [] | Some b \<Rightarrow> b) (message_count h)"

definition block_next :: "block_iter \<Rightarrow> (mold_error + nat \<times> bytes) option \<times> block_iter" where
  "block_next it =
     (if truncated it \<or> blocks_left it = 0 then (None, it)
      else case split_first_chunk 2 (remaining it) of
        None \<Rightarrow> (Some (Inl PacketTooShort), it\<lparr>truncated := True\<rparr>)
      | Some (len_bytes, rest) \<Rightarrow>
          (let len = unat (u16_from_be_bytes len_bytes) in
           if length rest < len then (Some (Inl PacketTooShort), it\<lparr>truncated := True\<rparr>)
           else (Some (Inr (next_offset it + 2, take len rest)),
                 it\<lparr>remaining := drop len rest, blocks_left := blocks_left it - 1,
                    next_offset := next_offset it + (2 + len)\<rparr>)))"

text \<open>
  The loop \<^verbatim>\<open>for (seq, block) in (header.sequence..).zip(header.blocks(..))\<close> of the receiver's
  decode path: collect \<open>(seq, offset, len)\<close> per block, stopping at the first error.
\<close>

function collect_blocks :: "u64 \<Rightarrow> block_iter \<Rightarrow> mold_error + (u64 \<times> nat \<times> nat) list" where
  "collect_blocks sq it =
     (case block_next it of
        (None, _) \<Rightarrow> Inr []
      | (Some (Inl e), _) \<Rightarrow> Inl e
      | (Some (Inr (offset, block)), it') \<Rightarrow>
          (case collect_blocks (sq + 1) it' of
             Inl e \<Rightarrow> Inl e
           | Inr rest \<Rightarrow> Inr ((sq, offset, length block) # rest)))"
  by pat_completeness auto

lemma unat_pred_less: "(w :: 'a::len word) \<noteq> 0 \<Longrightarrow> unat (w - 1) < unat w"
  by (metis measure_unat)

lemma block_next_decreases:
  "block_next it = (Some (Inr x), it') \<Longrightarrow> unat (blocks_left it') < unat (blocks_left it)"
  by (auto simp: block_next_def Let_def unat_pred_less split: if_splits option.splits)

termination collect_blocks
  by (relation "measure (\<lambda>(_, it). unat (blocks_left it))") (auto dest!: block_next_decreases [OF sym])

declare collect_blocks.simps [simp del]

section \<open>Reference encoding\<close>

text \<open>
  The layout the protocol prescribes, written as an encoder: each block is its two-byte length and
  its payload. \<open>spans\<close> gives the \<open>(seq, offset, len)\<close> triples of the blocks of a packet whose
  first block starts at byte \<open>off\<close>.
\<close>

definition encode_block :: "bytes \<Rightarrow> bytes" where
  "encode_block b = u16_to_be_bytes (of_nat (length b)) @ b"

definition encode_blocks :: "bytes list \<Rightarrow> bytes" where
  "encode_blocks bs = concat (map encode_block bs)"

fun spans :: "u64 \<Rightarrow> nat \<Rightarrow> bytes list \<Rightarrow> (u64 \<times> nat \<times> nat) list" where
  "spans sq off [] = []"
| "spans sq off (b # bs) = (sq, off + 2, length b) # spans (sq + 1) (off + (2 + length b)) bs"

definition encode_header :: "bytes \<Rightarrow> u64 \<Rightarrow> u16 \<Rightarrow> bytes" where
  "encode_header sess sq cnt = sess @ u64_to_be_bytes sq @ u16_to_be_bytes cnt"

definition encode_packet :: "bytes \<Rightarrow> u64 \<Rightarrow> bytes list \<Rightarrow> bytes" where
  "encode_packet sess sq bs = encode_header sess sq (of_nat (length bs)) @ encode_blocks bs"

definition block_sized :: "bytes \<Rightarrow> bool" where
  "block_sized b \<longleftrightarrow> length b < 65536"

lemma encode_blocks_simps [simp]:
  "encode_blocks [] = []"
  "encode_blocks (b # bs) = encode_block b @ encode_blocks bs"
  by (simp_all add: encode_blocks_def)

lemma length_encode_block [simp]: "length (encode_block b) = 2 + length b"
  by (simp add: encode_block_def)

lemma length_encode_header [simp]: "length sess = 10 \<Longrightarrow> length (encode_header sess sq cnt) = 20"
  by (simp add: encode_header_def)

lemma u16_length_prefix:
  "block_sized b \<Longrightarrow> unat (u16_from_be_bytes (u16_to_be_bytes (of_nat (length b)))) = length b"
  by (simp add: block_sized_def unat_of_nat)

lemma encode_block_prefix:
  "length lb = 2 \<Longrightarrow> length b = unat (u16_from_be_bytes lb) \<Longrightarrow> encode_block b = lb @ b"
  by (simp add: encode_block_def u16_to_from_be)

section \<open>The block walk is exactly the decoding of the layout\<close>

text \<open>One step of the iterator either splits one encoded block off, or the rest holds no whole
  block.\<close>

lemma block_next_encoded:
  assumes "\<not> truncated it" "blocks_left it \<noteq> 0" "remaining it = encode_block b @ rest" "block_sized b"
  shows "block_next it =
    (Some (Inr (next_offset it + 2, b)),
     it\<lparr>remaining := rest, blocks_left := blocks_left it - 1,
        next_offset := next_offset it + (2 + length b)\<rparr>)"
  using assms
  by (simp add: block_next_def encode_block_def u16_length_prefix Let_def del: u16_be_roundtrip)

lemma block_next_Inr:
  assumes "block_next it = (Some (Inr (offset, b)), it')"
  shows "\<not> truncated it" "blocks_left it \<noteq> 0" "block_sized b" "offset = next_offset it + 2"
    "remaining it = encode_block b @ remaining it'"
    "it' = it\<lparr>remaining := remaining it', blocks_left := blocks_left it - 1,
              next_offset := next_offset it + (2 + length b)\<rparr>"
  using assms
  by (auto simp: block_next_def Let_def chunk_simps block_sized_def encode_block_prefix
      split: if_splits option.splits)

lemma block_next_no_Inl_unless:
  "block_next it = (Some (Inl e), it') \<Longrightarrow> e = PacketTooShort"
  by (auto simp: block_next_def Let_def split: if_splits option.splits)

lemma collect_blocks_encoded:
  assumes "\<not> truncated it" "unat (blocks_left it) = length bs"
    "remaining it = encode_blocks bs @ rest" "\<forall>b \<in> set bs. block_sized b"
  shows "collect_blocks sq it = Inr (spans sq (next_offset it) bs)"
  using assms
proof (induction bs arbitrary: sq it)
  case Nil
  then have "blocks_left it = 0" by (simp add: unat_eq_0)
  then show ?case by (simp add: collect_blocks.simps block_next_def)
next
  case (Cons b bs)
  let ?it = "it\<lparr>remaining := encode_blocks bs @ rest, blocks_left := blocks_left it - 1,
        next_offset := next_offset it + (2 + length b)\<rparr>"
  from Cons.prems have nz: "blocks_left it \<noteq> 0" by (auto simp: unat_eq_0)
  from Cons.prems nz have step: "block_next it = (Some (Inr (next_offset it + 2, b)), ?it)"
    by (intro block_next_encoded) auto
  from nz Cons.prems(2) have "unat (blocks_left ?it) = length bs"
    by (simp add: unat_minus_one)
  with Cons.prems have "collect_blocks (sq + 1) ?it = Inr (spans (sq + 1) (next_offset ?it) bs)"
    by (intro Cons.IH) auto
  then show ?case by (simp add: collect_blocks.simps [of sq it] step)
qed

lemma collect_blocks_decodes:
  assumes "collect_blocks sq it = Inr xs" "\<not> truncated it"
  shows "\<exists>bs. unat (blocks_left it) = length bs \<and> (\<exists>rest. remaining it = encode_blocks bs @ rest) \<and>
    (\<forall>b \<in> set bs. block_sized b) \<and> xs = spans sq (next_offset it) bs"
  using assms
proof (induction sq it arbitrary: xs rule: collect_blocks.induct)
  case (1 sq it)
  show ?case
  proof (cases "block_next it")
    case (Pair item it')
    show ?thesis
    proof (cases item)
      case None
      with Pair 1(2,3) have "blocks_left it = 0"
        by (auto simp: block_next_def Let_def split: if_splits option.splits)
      with Pair None 1(2) show ?thesis
        by (intro exI [of _ "[]"]) (auto simp: collect_blocks.simps [of sq it])
    next
      case (Some r)
      with Pair 1(2) obtain offset b where r: "r = Inr (offset, b)"
        by (cases r) (auto simp: collect_blocks.simps [of sq it])
      from Pair Some r have step: "block_next it = (Some (Inr (offset, b)), it')" by simp
      note inv = block_next_Inr [OF step]
      from step 1(2) obtain ys where ys: "collect_blocks (sq + 1) it' = Inr ys"
        and xs: "xs = (sq, offset, length b) # ys"
        by (auto simp: collect_blocks.simps [of sq it] split: sum.splits)
      have "\<not> truncated it'" using inv(1,6) by (metis block_iter.select_convs(3) block_iter.surjective block_iter.update_convs(1,2,4))
      with 1(1) [OF Pair [symmetric] Some r refl ys] obtain bs rest where bs:
        "unat (blocks_left it') = length bs" "remaining it' = encode_blocks bs @ rest"
        "\<forall>b \<in> set bs. block_sized b" "ys = spans (sq + 1) (next_offset it') bs"
        by auto
      have left: "blocks_left it' = blocks_left it - 1" and off: "next_offset it' = next_offset it + (2 + length b)"
        by (subst inv(6), simp)+
      have "unat (blocks_left it) = length (b # bs)"
        using bs(1) inv(2) unat_minus_one [OF inv(2)] unat_eq_0 [of "blocks_left it"]
        by (simp add: left)
      with bs inv xs off show ?thesis
        by (intro exI [of _ "b # bs"]) auto
    qed
  qed
qed

lemma collect_blocks_error: "collect_blocks sq it = Inl e \<Longrightarrow> e = PacketTooShort"
proof (induction sq it rule: collect_blocks.induct)
  case (1 sq it)
  then show ?case
    by (subst (asm) (2) collect_blocks.simps)
      (auto split: option.splits sum.splits prod.splits dest: block_next_no_Inl_unless)
qed

lemma spans_length [simp]: "length (spans sq off bs) = length bs"
  by (induction bs arbitrary: sq off) simp_all

lemma spans_payloads:
  "length pre = off \<Longrightarrow>
   map (\<lambda>(_, at, l). take l (drop at (pre @ encode_blocks bs @ rest))) (spans sq off bs) = bs"
proof (induction bs arbitrary: pre off sq)
  case Nil
  show ?case by simp
next
  case (Cons b bs)
  have "map (\<lambda>(_, at, l). take l (drop at ((pre @ encode_block b) @ encode_blocks bs @ rest)))
      (spans (sq + 1) (off + (2 + length b)) bs) = bs"
    using Cons.prems by (intro Cons.IH) simp
  moreover have "take (length b) (drop (off + 2) (pre @ encode_block b @ encode_blocks bs @ rest)) = b"
    using Cons.prems by (simp add: encode_block_def)
  ultimately show ?case by simp
qed

lemma spans_bound:
  "\<forall>(_, at, l) \<in> set (spans sq off bs). at + l \<le> off + length (encode_blocks bs)"
  by (induction bs arbitrary: sq off) (fastforce simp: algebra_simps)+

lemma spans_seqs: "map fst (spans sq off bs) = map (\<lambda>i. sq + of_nat i) [0..<length bs]"
proof (induction bs arbitrary: sq off)
  case Nil
  show ?case by simp
next
  case (Cons b bs)
  have "map fst (spans sq off (b # bs)) = sq # map (\<lambda>i. sq + 1 + of_nat i) [0..<length bs]"
    by (simp add: Cons.IH)
  also have "\<dots> = map (\<lambda>i. sq + of_nat i) [0..<length (b # bs)]"
    by (simp add: upt_conv_Cons map_Suc_upt [symmetric] o_def algebra_simps del: upt_Suc)
  finally show ?case .
qed

section \<open>Correctness of the codec\<close>

lemma parse_header_encoded:
  assumes "length sess = 10" "length rest \<le> MAX_DOWNSTREAM_DATAGRAM - 20"
  shows "parse_header (encode_header sess sq cnt @ rest) =
    Inr \<lparr>session_id = sess, sequence_no = sq, message_count = cnt\<rparr>"
  using assms by (simp add: parse_header_def encode_header_def MAX_DOWNSTREAM_DATAGRAM_def)

lemma parse_header_Inr:
  assumes "parse_header buf = Inr h"
  shows "\<exists>rest. buf = encode_header (session_id h) (sequence_no h) (message_count h) @ rest"
    "length (session_id h) = 10" "20 \<le> length buf" "length buf \<le> MAX_DOWNSTREAM_DATAGRAM"
proof -
  from assms obtain sess sq cnt rest where *: "buf = sess @ sq @ cnt @ rest" "length sess = 10"
    "length sq = 8" "length cnt = 2" "length buf \<le> MAX_DOWNSTREAM_DATAGRAM"
    "h = \<lparr>session_id = sess, sequence_no = u64_from_be_bytes sq, message_count = u16_from_be_bytes cnt\<rparr>"
    by (auto simp: parse_header_def chunk_simps split: if_splits option.splits)
  then show "\<exists>rest. buf = encode_header (session_id h) (sequence_no h) (message_count h) @ rest"
    by (intro exI [of _ rest]) (simp add: encode_header_def be_simps)
  from * show "length (session_id h) = 10" "20 \<le> length buf" "length buf \<le> MAX_DOWNSTREAM_DATAGRAM"
    by auto
qed

lemma header_blocks_append:
  "length pre = 20 \<Longrightarrow> header_blocks h (pre @ body) = block_iter_new body (message_count h)"
  by (simp add: header_blocks_def get_from_def HEADER_LEN_def)

text \<open>
  C1. Decoding inverts encoding: a packet laid out as the protocol prescribes, with fewer than
  65535 blocks, each of length below 65536 and the whole within 64 KiB, parses to its header, and the
  block walk yields one \<open>(seq, offset, len)\<close> triple per block, numbered consecutively from the
  header's sequence, whose slices of the datagram are the blocks' payloads.
\<close>

theorem wire_roundtrip:
  assumes "length sess = 10" "length bs < 65535" "\<forall>b \<in> set bs. length b < 65536"
    "length (encode_packet sess sq bs) \<le> 64 * 1024"
  shows "\<exists>h xs. parse_header (encode_packet sess sq bs) = Inr h
    \<and> session_id h = sess \<and> sequence_no h = sq \<and> unat (message_count h) = length bs
    \<and> collect_blocks (sequence_no h) (header_blocks h (encode_packet sess sq bs)) = Inr xs
    \<and> map fst xs = map (\<lambda>i. sq + of_nat i) [0..<length bs]
    \<and> map (\<lambda>(_, at, l). take l (drop at (encode_packet sess sq bs))) xs = bs"
proof -
  let ?pkt = "encode_packet sess sq bs"
  let ?h = "\<lparr>session_id = sess, sequence_no = sq, message_count = of_nat (length bs)\<rparr>"
  have parsed: "parse_header ?pkt = Inr ?h"
    using assms by (simp add: encode_packet_def parse_header_encoded MAX_DOWNSTREAM_DATAGRAM_def)
  have cnt: "unat (message_count ?h) = length bs"
    using assms(2) by (simp add: unat_of_nat)
  have "collect_blocks sq (header_blocks ?h ?pkt) = Inr (spans sq 20 bs)"
    using assms cnt collect_blocks_encoded [of "header_blocks ?h ?pkt" bs "[]" sq]
    by (simp add: encode_packet_def header_blocks_append block_iter_new_def block_sized_def HEADER_LEN_def)
  moreover have "map (\<lambda>(_, at, l). take l (drop at ?pkt)) (spans sq 20 bs) = bs"
    using spans_payloads [of "encode_header sess sq (of_nat (length bs))" 20 bs "[]" sq] assms(1)
    by (simp add: encode_packet_def)
  ultimately show ?thesis
    using parsed cnt by (intro exI [of _ ?h] exI [of _ "spans sq 20 bs"]) (simp add: spans_seqs)
qed

theorem wire_roundtrip_witness:
  "\<exists>h xs. parse_header (encode_packet (replicate 10 65) 7 [[1, 2], [], [3]]) = Inr h
      \<and> sequence_no h = 7 \<and> collect_blocks (sequence_no h)
           (header_blocks h (encode_packet (replicate 10 65) 7 [[1, 2], [], [3]])) = Inr xs
      \<and> map fst xs = [7, 8, 9]"
proof -
  have seqs: "map (\<lambda>i. 7 + of_nat i) [0..<length [[1, 2], [], [3 :: u8]]] = [7, 8, 9 :: u64]"
    by (simp add: upt_conv_Cons)
  show ?thesis
    using wire_roundtrip [of "replicate 10 65" "[[1, 2], [], [3]]" 7] unfolding seqs
    by (auto simp: encode_packet_def)
qed

text \<open>
  C2. The walk never leaves the datagram and never yields more blocks than the header declares,
  whatever the bytes: when a datagram parses and its walk succeeds, the datagram is its header
  followed by exactly as many whole encoded blocks as the header's count, and the triples are the
  positions of those blocks; when the walk fails the error is \<open>PacketTooShort\<close>.
\<close>

theorem wire_walk_sound:
  assumes "parse_header buf = Inr h"
  shows "case collect_blocks (sequence_no h) (header_blocks h buf) of
      Inl e \<Rightarrow> e = PacketTooShort
    | Inr xs \<Rightarrow> length xs = unat (message_count h) \<and>
        (\<exists>bs rest. buf = encode_header (session_id h) (sequence_no h) (message_count h)
                        @ encode_blocks bs @ rest
           \<and> xs = spans (sequence_no h) HEADER_LEN bs
           \<and> map (\<lambda>(_, at, l). take l (drop at buf)) xs = bs)
        \<and> (\<forall>(_, at, l) \<in> set xs. at + l \<le> length buf)"
proof (cases "collect_blocks (sequence_no h) (header_blocks h buf)")
  case (Inl e)
  then show ?thesis by (auto dest: collect_blocks_error)
next
  case (Inr xs)
  let ?hd = "encode_header (session_id h) (sequence_no h) (message_count h)"
  from parse_header_Inr [OF assms] obtain body where buf: "buf = ?hd @ body"
    and len: "length ?hd = 20" by auto
  have it: "header_blocks h buf = block_iter_new body (message_count h)"
    by (simp add: buf header_blocks_append len)
  from collect_blocks_decodes [OF Inr] it obtain bs rest where bs:
    "unat (message_count h) = length bs" "body = encode_blocks bs @ rest"
    "xs = spans (sequence_no h) HEADER_LEN bs"
    by (auto simp: block_iter_new_def)
  have pay: "map (\<lambda>(_, at, l). take l (drop at buf)) xs = bs"
    using spans_payloads [of ?hd HEADER_LEN bs rest] len by (simp add: bs buf HEADER_LEN_def)
  have "\<forall>(_, at, l) \<in> set xs. at + l \<le> length buf"
    using spans_bound [of "sequence_no h" HEADER_LEN bs] len
    by (fastforce simp: bs(2,3) buf HEADER_LEN_def)
  with Inr bs buf pay show ?thesis by auto
qed

theorem wire_walk_sound_witness:
  "parse_header (encode_header (replicate 10 65) 1 2 @ encode_blocks [[9]]) =
     Inr \<lparr>session_id = replicate 10 65, sequence_no = 1, message_count = 2\<rparr> \<and>
   (case collect_blocks 1 (header_blocks
        \<lparr>session_id = replicate 10 65, sequence_no = 1, message_count = 2\<rparr>
        (encode_header (replicate 10 65) 1 2 @ encode_blocks [[9]])) of
      Inl e \<Rightarrow> e = PacketTooShort
    | Inr xs \<Rightarrow> length xs = 2)"
proof -
  let ?buf = "encode_header (replicate 10 65) 1 2 @ encode_blocks [[9]]"
  let ?h = "\<lparr>session_id = replicate 10 65, sequence_no = 1, message_count = 2\<rparr> :: downstream_header"
  have h: "parse_header ?buf = Inr ?h"
    by (rule parse_header_encoded) (simp_all add: MAX_DOWNSTREAM_DATAGRAM_def)
  show ?thesis
    using h wire_walk_sound [OF h] by (auto split: sum.splits)
qed

end
