(* ===== verification/Mold_Reassembly.thy ===== *)
theory Mold_Reassembly
  imports Mold_Wire
begin

text \<open>
  The sequence reassembler of \<^verbatim>\<open>crates/clients/moldudp/src/reassembly.rs\<close>: a ring of slots keyed by
  \<open>seq mod capacity\<close>, drained from \<open>expected_next\<close>. A \<^verbatim>\<open>DrainCursor\<close> is driven by \<open>drain_next\<close>
  (its \<^verbatim>\<open>Iterator::next\<close>) and, since every consumer exhausts it and its \<^verbatim>\<open>Drop\<close> does the same,
  by \<open>drain_all\<close>.

  The contract is the locale \<open>reorder_buffer\<close>: a partial map from sequence numbers to held messages
  plus the next sequence to deliver. The ring is its interpretation \<open>ring\<close>.
\<close>

section \<open>The ring\<close>

record 's slot =
  slot_seq :: u64
  slot_payload :: "'s option"

record 's reassembler =
  slots :: "'s slot list"
  ra_capacity :: u64
  expected_next :: u64

text \<open>\<^verbatim>\<open>new\<close> panics on capacity zero: no value.\<close>

definition reassembler_new :: "nat \<Rightarrow> 's reassembler option" where
  "reassembler_new cap =
     (if cap = 0 then None
      else Some \<lparr>slots = replicate cap \<lparr>slot_seq = 0, slot_payload = None\<rparr>,
                 ra_capacity = of_nat cap, expected_next = 1\<rparr>)"

definition slot_index :: "'s reassembler \<Rightarrow> u64 \<Rightarrow> nat" where
  "slot_index r sq = unat (sq mod ra_capacity r)"

definition advance_expected :: "u64 \<Rightarrow> 's reassembler \<Rightarrow> 's reassembler" where
  "advance_expected n r = r\<lparr>expected_next := expected_next r + n\<rparr>"

definition reset_expected :: "u64 \<Rightarrow> 's reassembler \<Rightarrow> 's reassembler" where
  "reset_expected e r = r\<lparr>expected_next := e\<rparr>"

text \<open>\<^verbatim>\<open>insert\<close>: the flag says whether a cursor over a newly contiguous run is returned.\<close>

definition reassembler_insert ::
  "u64 \<Rightarrow> 's \<Rightarrow> 's reassembler \<Rightarrow> (mold_error + bool) \<times> 's reassembler" where
  "reassembler_insert sq slab r =
     (if sq < expected_next r then (Inr False, r)
      else let idx = slot_index r sq; sl = slots r ! idx in
        if slot_payload sl \<noteq> None then
          (if slot_seq sl = sq then (Inr False, r)
           else (Inl (ReassemblyBufferFull (length (slots r))), r))
        else
          (Inr (sq = expected_next r),
           r\<lparr>slots := (slots r)[idx := \<lparr>slot_seq = sq, slot_payload = Some slab\<rparr>]\<rparr>))"

definition drain_next :: "'s reassembler \<Rightarrow> 's option \<times> 's reassembler" where
  "drain_next r =
     (let idx = slot_index r (expected_next r); sl = slots r ! idx in
      if slot_seq sl \<noteq> expected_next r then (None, r)
      else case slot_payload sl of
        None \<Rightarrow> (None, r)
      | Some p \<Rightarrow>
          (Some p, r\<lparr>slots := (slots r)[idx := sl\<lparr>slot_payload := None\<rparr>],
                     expected_next := expected_next r + 1\<rparr>))"

text \<open>The number of occupied slots bounds every drain.\<close>

definition occupied :: "'s reassembler \<Rightarrow> nat" where
  "occupied r = length (filter (\<lambda>sl. slot_payload sl \<noteq> None) (slots r))"

text \<open>The ring keeps its \<open>capacity\<close> word equal to the number of slots.\<close>

definition ring_shape :: "'s reassembler \<Rightarrow> bool" where
  "ring_shape r \<longleftrightarrow> slots r \<noteq> [] \<and> unat (ra_capacity r) = length (slots r)"

lemma slot_index_less: "ring_shape r \<Longrightarrow> slot_index r sq < length (slots r)"
  by (simp add: ring_shape_def slot_index_def unat_mod_distrib flip: length_greater_0_conv)

lemma slot_index_eq: "slot_index r sq = unat sq mod unat (ra_capacity r)"
  by (simp add: slot_index_def unat_mod_distrib)

lemma length_filter_update_less:
  "i < length xs \<Longrightarrow> P (xs ! i) \<Longrightarrow> \<not> P y \<Longrightarrow>
   length (filter P (xs[i := y])) < length (filter P xs)"
proof (induction xs arbitrary: i)
  case Nil
  then show ?case by simp
next
  case (Cons x xs)
  then show ?case by (cases i) auto
qed

lemma drain_next_occupied:
  "slot_index r (expected_next r) < length (slots r) \<Longrightarrow> drain_next r = (Some p, r') \<Longrightarrow>
   occupied r' < occupied r"
  by (auto simp: drain_next_def occupied_def Let_def
      intro!: length_filter_update_less split: if_splits option.splits)

lemma drain_next_shape: "ring_shape r \<Longrightarrow> ring_shape (snd (drain_next r))"
  by (auto simp: drain_next_def ring_shape_def Let_def split: option.splits)

text \<open>The guard is the bounds check of \<^verbatim>\<open>self.inner.slots[idx]\<close>; \<open>ring_shape\<close> makes it true.\<close>

function drain_all :: "'s reassembler \<Rightarrow> 's list \<times> 's reassembler" where
  "drain_all r =
     (if slot_index r (expected_next r) < length (slots r) then
        (case drain_next r of
           (None, r') \<Rightarrow> ([], r')
         | (Some p, r') \<Rightarrow> (let (ps, r'') = drain_all r' in (p # ps, r'')))
      else ([], r))"
  by pat_completeness auto
termination
  by (relation "measure occupied") (auto dest: drain_next_occupied [OF _ sym])

declare drain_all.simps [simp del]

lemma drain_all_unfold:
  "slot_index r (expected_next r) < length (slots r) \<Longrightarrow>
   drain_all r = (case fst (drain_next r) of None \<Rightarrow> ([], snd (drain_next r))
     | Some p \<Rightarrow> (p # fst (drain_all (snd (drain_next r))), snd (drain_all (snd (drain_next r)))))"
  by (simp add: drain_all.simps [of r] split: prod.splits option.splits)

section \<open>The contract of a reorder buffer\<close>

text \<open>
  \<open>held b\<close> is the map of buffered messages, \<open>next_seq b\<close> the next sequence to deliver. The laws say
  what each operation does to the two; the lemmas of the locale are what a client that delivers
  in order needs.
\<close>

definition settled_at :: "u64 \<Rightarrow> (u64 \<Rightarrow> 's option) \<Rightarrow> bool" where
  "settled_at e h \<longleftrightarrow> (\<forall>sq. h sq \<noteq> None \<longrightarrow> e < sq \<and> sq < - 1)"

definition in_window :: "u64 \<Rightarrow> (u64 \<Rightarrow> 's option) \<Rightarrow> bool" where
  "in_window e h \<longleftrightarrow> (\<forall>sq. h sq \<noteq> None \<longrightarrow> e \<le> sq \<and> sq < - 1)"

locale reorder_buffer =
  fixes buf_inv :: "'r \<Rightarrow> bool"
    and held :: "'r \<Rightarrow> u64 \<Rightarrow> 's option"
    and next_seq :: "'r \<Rightarrow> u64"
    and store :: "u64 \<Rightarrow> 's \<Rightarrow> 'r \<Rightarrow> (mold_error + bool) \<times> 'r"
    and skip :: "u64 \<Rightarrow> 'r \<Rightarrow> 'r"
    and drain :: "'r \<Rightarrow> 's list \<times> 'r"
  assumes store_inv: "buf_inv b \<Longrightarrow> store sq m b = (res, b') \<Longrightarrow> buf_inv b'"
    and store_next: "buf_inv b \<Longrightarrow> store sq m b = (res, b') \<Longrightarrow> next_seq b' = next_seq b"
    and store_error: "buf_inv b \<Longrightarrow> store sq m b = (Inl e, b') \<Longrightarrow> b' = b"
    and store_stale: "buf_inv b \<Longrightarrow> sq < next_seq b \<Longrightarrow> store sq m b = (Inr False, b)"
    and store_ok: "buf_inv b \<Longrightarrow> next_seq b \<le> sq \<Longrightarrow> store sq m b = (Inr c, b') \<Longrightarrow>
      held b' = (held b)(sq \<mapsto> (case held b sq of None \<Rightarrow> m | Some m' \<Rightarrow> m'))"
    and skip_inv: "buf_inv b \<Longrightarrow> buf_inv (skip n b)"
    and skip_held: "buf_inv b \<Longrightarrow> held (skip n b) = held b"
    and skip_next: "next_seq (skip n b) = next_seq b + n"
    and drain_inv: "buf_inv b \<Longrightarrow> drain b = (ms, b') \<Longrightarrow> buf_inv b'"
    and drain_empty: "buf_inv b \<Longrightarrow> held b (next_seq b) = None \<Longrightarrow> drain b = ([], b)"
    and drain_step: "buf_inv b \<Longrightarrow> held b (next_seq b) = Some m \<Longrightarrow>
      \<exists>b'. buf_inv b' \<and> next_seq b' = next_seq b + 1 \<and> held b' = (held b)(next_seq b := None)
        \<and> drain b = (m # fst (drain b'), snd (drain b'))"
begin

text \<open>Draining a buffer that holds nothing below its next sequence, and not the last number of
  the 64-bit space, yields the maximal contiguous run and leaves a settled buffer.\<close>

lemma drain_run:
  assumes "buf_inv b" "in_window (next_seq b) (held b)" "drain b = (ms, b')"
  shows "next_seq b' = next_seq b + of_nat (length ms)
    \<and> unat (next_seq b') = unat (next_seq b) + length ms
    \<and> (\<forall>i < length ms. held b (next_seq b + of_nat i) = Some (ms ! i))
    \<and> held b' = (\<lambda>sq. if sq < next_seq b' then None else held b sq)
    \<and> settled_at (next_seq b') (held b') \<and> buf_inv b'"
  using assms
proof (induction ms arbitrary: b)
  case Nil
  have none: "held b (next_seq b) = None"
  proof (rule ccontr)
    assume "held b (next_seq b) \<noteq> None"
    then obtain m where "held b (next_seq b) = Some m" by auto
    from drain_step [OF Nil.prems(1) this] Nil.prems(3) show False by auto
  qed
  with drain_empty [OF Nil.prems(1)] Nil.prems(3) have "b' = b" by simp
  with none Nil.prems(1,2) show ?case
    by (auto simp: in_window_def settled_at_def fun_eq_iff) (metis order_le_imp_less_or_eq option.distinct(1))+
next
  case (Cons m ms)
  let ?n = "next_seq b"
  have "held b ?n \<noteq> None"
    using drain_empty [OF Cons.prems(1)] Cons.prems(3) by auto
  then obtain m' where m': "held b ?n = Some m'" by auto
  from drain_step [OF Cons.prems(1) m'] obtain b1 where b1: "buf_inv b1" "next_seq b1 = ?n + 1"
    "held b1 = (held b)(?n := None)" "drain b = (m' # fst (drain b1), snd (drain b1))" by auto
  with Cons.prems(3) have m: "m' = m" and rest: "drain b1 = (ms, b')"
    by (auto simp: prod_eq_iff)
  have lt: "?n < - 1" using Cons.prems(2) m' by (auto simp: in_window_def)
  have up: "unat (?n + 1) = unat ?n + 1" using lt by (rule unat_add1_no_overflow)
  have "in_window (next_seq b1) (held b1)"
    using Cons.prems(2) by (auto simp: in_window_def b1(2,3) intro!: inc_le split: if_splits)
  note IH = Cons.IH [OF b1(1) this rest]
  have sh: "?n + of_nat (length (m # ms)) = next_seq b1 + of_nat (length ms)"
    by (simp add: b1(2) algebra_simps)
  have "\<forall>i < length (m # ms). held b (?n + of_nat i) = Some ((m # ms) ! i)"
  proof (intro allI impI)
    fix i assume i: "i < length (m # ms)"
    show "held b (?n + of_nat i) = Some ((m # ms) ! i)"
    proof (cases i)
      case 0
      then show ?thesis by (simp add: m' m)
    next
      case (Suc j)
      with i IH have "held b1 (next_seq b1 + of_nat j) = Some (ms ! j)" by simp
      then show ?thesis by (simp add: Suc b1(2,3) algebra_simps split: if_splits)
    qed
  qed
  moreover have "unat (next_seq b') = unat ?n + length (m # ms)"
    using IH up unfolding b1(2) length_Cons by linarith
  moreover have "held b' = (\<lambda>sq. if sq < next_seq b' then None else held b sq)"
    using IH up calculation(2) by (auto simp: b1(3) fun_eq_iff word_less_nat_alt)
  ultimately show ?case using IH unfolding sh by blast
qed

text \<open>Delivering the next sequence directly and draining behind it.\<close>

lemma deliver_run:
  assumes "buf_inv b" "settled_at (next_seq b) (held b)" "next_seq b < - 1" "drain (skip 1 b) = (ms, b')"
  shows "next_seq b' = next_seq b + 1 + of_nat (length ms)
    \<and> unat (next_seq b') = unat (next_seq b) + 1 + length ms
    \<and> (\<forall>i < length ms. held b (next_seq b + 1 + of_nat i) = Some (ms ! i))
    \<and> held b' = (\<lambda>sq. if sq < next_seq b' then None else held b sq)
    \<and> settled_at (next_seq b') (held b') \<and> buf_inv b'"
proof -
  have "in_window (next_seq (skip 1 b)) (held (skip 1 b))"
    using assms(1,2) by (auto simp: skip_next skip_held in_window_def settled_at_def intro: inc_le)
  from drain_run [OF skip_inv [OF assms(1)] this assms(4)]
  show ?thesis
    unfolding skip_next skip_held [OF assms(1)] unat_add1_no_overflow [OF assms(3)] .
qed

text \<open>Storing ahead of the next sequence keeps a buffer settled; on error nothing changes.\<close>

lemma store_settled:
  assumes "buf_inv b" "settled_at (next_seq b) (held b)" "next_seq b < sq" "sq < - 1"
    "store sq m b = (res, b')"
  shows "settled_at (next_seq b') (held b')"
proof (cases res)
  case (Inl e)
  with assms store_error show ?thesis by blast
next
  case (Inr c)
  with store_ok [OF assms(1) _ assms(5) [unfolded Inr]] store_next [OF assms(1,5)] assms(2-4)
  show ?thesis by (auto simp: settled_at_def)
qed

end

section \<open>The ring implements the contract\<close>

definition ring_held :: "'s reassembler \<Rightarrow> u64 \<Rightarrow> 's option" where
  "ring_held r sq =
     (let sl = slots r ! slot_index r sq in if slot_seq sl = sq then slot_payload sl else None)"

definition ring_inv :: "'s reassembler \<Rightarrow> bool" where
  "ring_inv r \<longleftrightarrow> ring_shape r \<and>
     (\<forall>i < length (slots r). slot_payload (slots r ! i) \<noteq> None \<longrightarrow>
        slot_index r (slot_seq (slots r ! i)) = i)"

lemma ring_inv_shape: "ring_inv r \<Longrightarrow> ring_shape r"
  by (simp add: ring_inv_def)

lemma ring_index_less [simp]: "ring_inv r \<Longrightarrow> slot_index r sq < length (slots r)"
  by (simp add: ring_inv_shape slot_index_less)

lemma slot_index_cong [simp]:
  "slot_index (r\<lparr>slots := xs\<rparr>) sq = slot_index r sq"
  "slot_index (r\<lparr>expected_next := e\<rparr>) sq = slot_index r sq"
  by (simp_all add: slot_index_def)

text \<open>Overwriting a slot changes the held map at the sequences of that slot only.\<close>

lemma ring_held_update:
  assumes "ring_inv r" "i = slot_index r sq" "slot_seq new = sq"
    "slot_payload (slots r ! i) \<noteq> None \<longrightarrow> slot_seq (slots r ! i) = sq"
  shows "ring_held (r\<lparr>slots := (slots r)[i := new]\<rparr>) = (ring_held r)(sq := slot_payload new)"
proof
  fix s
  show "ring_held (r\<lparr>slots := (slots r)[i := new]\<rparr>) s = ((ring_held r)(sq := slot_payload new)) s"
    using assms by (cases "slot_index r s = i") (auto simp: ring_held_def Let_def)
qed

lemma ring_inv_update:
  assumes "ring_inv r" "i = slot_index r (slot_seq new)"
  shows "ring_inv (r\<lparr>slots := (slots r)[i := new]\<rparr>)"
  using assms by (auto simp: ring_inv_def ring_shape_def nth_list_update)

lemma ring_inv_expected [simp]: "ring_inv (r\<lparr>expected_next := e\<rparr>) = ring_inv r"
  by (simp add: ring_inv_def ring_shape_def)

lemma ring_held_expected [simp]: "ring_held (r\<lparr>expected_next := e\<rparr>) = ring_held r"
  by (simp add: ring_held_def fun_eq_iff)

lemma insert_stored:
  assumes "ring_inv r" "expected_next r \<le> sq" "reassembler_insert sq m r = (Inr c, r')"
  shows "ring_held r' = (ring_held r)(sq \<mapsto> (case ring_held r sq of None \<Rightarrow> m | Some m' \<Rightarrow> m'))"
proof (cases "slot_payload (slots r ! slot_index r sq)")
  case None
  then have "ring_held r sq = None" by (simp add: ring_held_def Let_def)
  with None assms ring_held_update [OF assms(1) refl, of "\<lparr>slot_seq = sq, slot_payload = Some m\<rparr>" sq]
  show ?thesis by (simp add: reassembler_insert_def Let_def split: if_splits)
next
  case (Some m')
  with assms have "slot_seq (slots r ! slot_index r sq) = sq" "r' = r"
    by (auto simp: reassembler_insert_def Let_def split: if_splits)
  with Some show ?thesis by (auto simp: ring_held_def Let_def)
qed

lemma insert_inv: "ring_inv r \<Longrightarrow> reassembler_insert sq m r = (res, r') \<Longrightarrow> ring_inv r'"
  by (auto simp: reassembler_insert_def Let_def intro!: ring_inv_update split: if_splits)

lemma drain_next_Some:
  assumes "ring_inv r" "ring_held r (expected_next r) = Some m"
  shows "\<exists>r'. drain_next r = (Some m, r') \<and> ring_inv r' \<and> expected_next r' = expected_next r + 1
    \<and> ring_held r' = (ring_held r)(expected_next r := None)"
proof -
  let ?i = "slot_index r (expected_next r)"
  have sl: "slot_seq (slots r ! ?i) = expected_next r" "slot_payload (slots r ! ?i) = Some m"
    using assms(2) by (auto simp: ring_held_def Let_def split: if_splits)
  let ?new = "(slots r ! ?i)\<lparr>slot_payload := None\<rparr>"
  have "ring_held (r\<lparr>slots := (slots r)[?i := ?new]\<rparr>) = (ring_held r)(expected_next r := None)"
    using ring_held_update [OF assms(1) refl, of ?new "expected_next r"] sl by simp
  moreover have "ring_inv (r\<lparr>slots := (slots r)[?i := ?new]\<rparr>)"
    by (rule ring_inv_update) (use assms(1) sl in simp_all)
  ultimately show ?thesis using sl by (simp add: drain_next_def Let_def)
qed

lemma drain_next_None:
  "ring_held r (expected_next r) = None \<Longrightarrow> drain_next r = (None, r)"
  by (auto simp: drain_next_def ring_held_def Let_def split: option.splits)

lemma drain_all_inv: "ring_inv r \<Longrightarrow> drain_all r = (ms, r') \<Longrightarrow> ring_inv r'"
proof (induction r arbitrary: ms rule: drain_all.induct)
  case (1 r)
  show ?case
  proof (cases "ring_held r (expected_next r)")
    case None
    with 1(2,3) show ?thesis by (simp add: drain_all.simps [of r] drain_next_None)
  next
    case (Some m)
    from drain_next_Some [OF 1(2) Some] obtain r1 where "drain_next r = (Some m, r1)" "ring_inv r1"
      by auto
    with 1 show ?thesis by (auto simp: drain_all.simps [of r] split: prod.splits)
  qed
qed

lemma drain_all_step:
  assumes "ring_inv r" "ring_held r (expected_next r) = Some m"
  shows "\<exists>r1. ring_inv r1 \<and> expected_next r1 = expected_next r + 1
    \<and> ring_held r1 = (ring_held r)(expected_next r := None)
    \<and> drain_all r = (m # fst (drain_all r1), snd (drain_all r1))"
proof -
  from drain_next_Some [OF assms] obtain r1 where r1: "drain_next r = (Some m, r1)" "ring_inv r1"
    "expected_next r1 = expected_next r + 1" "ring_held r1 = (ring_held r)(expected_next r := None)"
    by blast
  then have "drain_all r = (m # fst (drain_all r1), snd (drain_all r1))"
    using assms(1) by (simp add: drain_all.simps [of r] split: prod.splits)
  with r1 show ?thesis by blast
qed

interpretation ring: reorder_buffer ring_inv ring_held expected_next reassembler_insert
  advance_expected drain_all
proof (unfold_locales, goal_cases)
  case 1
  then show ?case by (rule insert_inv)
next
  case 5
  then show ?case by (rule insert_stored)
next
  case 9
  then show ?case by (rule drain_all_inv)
next
  case (10 r)
  then show ?case by (simp add: drain_all.simps [of r] drain_next_None)
next
  case 11
  then show ?case by (rule drain_all_step)
qed (auto simp: reassembler_insert_def advance_expected_def Let_def split: if_splits)

lemma reassembler_new_inv:
  assumes "reassembler_new cap = Some r" "cap < 2 ^ 64"
  shows "ring_inv r" "ring_held r = Map.empty" "expected_next r = 1"
  using assms
  by (auto simp: reassembler_new_def ring_inv_def ring_shape_def unat_of_nat ring_held_def Let_def
      slot_index_eq fun_eq_iff split: if_splits)

section \<open>Properties\<close>

lemma window_same_slot:
  assumes "ring_inv r" "slot_index r s = slot_index r t"
    "unat e \<le> unat s" "unat s < unat e + length (slots r)"
    "unat e \<le> unat t" "unat t < unat e + length (slots r)"
  shows "s = t"
proof -
  let ?c = "length (slots r)"
  have m: "unat s mod ?c = unat t mod ?c"
    using assms(1,2) by (simp add: slot_index_eq ring_inv_def ring_shape_def)
  have "unat s = unat t" using assms(3-6) m by (rule mod_window_inj)
  then show ?thesis by (simp add: word_unat_eq_iff)
qed

lemma insert_collision:
  assumes "ring_inv r" "reassembler_insert sq m r = (Inl e, r')"
  obtains s where "ring_held r s \<noteq> None" "s \<noteq> sq" "slot_index r s = slot_index r sq"
proof -
  let ?sl = "slots r ! slot_index r sq"
  have sl: "slot_payload ?sl \<noteq> None" "slot_seq ?sl \<noteq> sq"
    using assms(2) by (auto simp: reassembler_insert_def Let_def split: if_splits)
  have "slot_index r (slot_seq ?sl) = slot_index r sq"
    using assms(1) sl(1) by (simp add: ring_inv_def slot_index_less)
  then show ?thesis using sl that [of "slot_seq ?sl"] by (simp add: ring_held_def Let_def)
qed

text \<open>
  C3. A message for the next expected sequence releases the maximal contiguous run in order: the
  messages drained are the one inserted and the buffered ones at the following sequences, the next
  expected sequence moves past exactly those, and the buffer keeps the others untouched, with nothing
  left at or below the new position.
\<close>

theorem insert_releases_run:
  assumes "ring_inv r" "settled_at (expected_next r) (ring_held r)" "expected_next r < - 1"
    and "reassembler_insert (expected_next r) m r = (Inr True, r1)" "drain_all r1 = (ms, r2)"
  shows "ms \<noteq> [] \<and> ms ! 0 = m
    \<and> (\<forall>i < length ms. 0 < i \<longrightarrow> ring_held r (expected_next r + of_nat i) = Some (ms ! i))
    \<and> unat (expected_next r2) = unat (expected_next r) + length ms
    \<and> ring_held r2 = (\<lambda>sq. if sq < expected_next r2 then None else ring_held r sq)
    \<and> settled_at (expected_next r2) (ring_held r2) \<and> ring_inv r2"
proof -
  let ?e = "expected_next r"
  have "ring_held r ?e = None" using assms(2) by (auto simp: settled_at_def)
  with ring.store_ok [OF assms(1) order.refl assms(4)] have h1: "ring_held r1 = (ring_held r)(?e \<mapsto> m)"
    by simp
  have i1: "ring_inv r1" and e1: "expected_next r1 = ?e"
    using ring.store_inv [OF assms(1,4)] ring.store_next [OF assms(1,4)] by auto
  have w: "in_window (expected_next r1) (ring_held r1)"
    using assms(2,3) by (auto simp: h1 e1 in_window_def settled_at_def)
  note run = ring.drain_run [OF i1 w assms(5), unfolded e1]
  have "ms \<noteq> []" using ring.drain_step [OF i1, of m] assms(5) by (auto simp: h1 e1)
  with run have z: "ms ! 0 = m" and len: "length ms < 2 ^ 64" "?e < expected_next r2"
    using unat_less_pow [of "expected_next r2"] by (force simp: h1 word_less_nat_alt)+
  have "ring_held r (?e + of_nat i) = Some (ms ! i)" if "i < length ms" "0 < i" for i
  proof -
    have "unat (of_nat i :: u64) = i" using that len(1) by (simp add: unat_of_nat)
    with that have "(of_nat i :: u64) \<noteq> 0" by auto
    then have "?e + of_nat i \<noteq> ?e" by simp
    moreover have "ring_held r1 (?e + of_nat i) = Some (ms ! i)" using run that(1) by blast
    ultimately show ?thesis unfolding h1 by simp
  qed
  moreover have "ring_held r2 = (\<lambda>sq. if sq < expected_next r2 then None else ring_held r sq)"
    using run len(2) by (auto simp: h1 fun_eq_iff)
  ultimately show ?thesis using run z \<open>ms \<noteq> []\<close> by blast
qed

definition demo_ring :: "bytes reassembler" where
  "demo_ring = \<lparr>slots = [\<lparr>slot_seq = 0, slot_payload = None\<rparr>, \<lparr>slot_seq = 0, slot_payload = None\<rparr>,
     \<lparr>slot_seq = 2, slot_payload = Some [66]\<rparr>, \<lparr>slot_seq = 0, slot_payload = None\<rparr>],
     ra_capacity = 4, expected_next = 1\<rparr>"

lemma demo_ring_inv: "ring_inv demo_ring"
  by (simp add: ring_inv_def ring_shape_def demo_ring_def slot_index_def All_less_Suc)

lemma demo_ring_held: "ring_held demo_ring sq \<noteq> None \<Longrightarrow> sq = 2"
proof -
  have "slots demo_ring ! slot_index demo_ring sq \<in> set (slots demo_ring)"
    by (rule nth_mem) (rule ring_index_less [OF demo_ring_inv])
  then show "ring_held demo_ring sq \<noteq> None \<Longrightarrow> sq = 2"
    unfolding ring_held_def Let_def by (auto simp: demo_ring_def split: if_splits)
qed

lemma demo_ring_facts:
  "settled_at 1 (ring_held demo_ring)" "expected_next demo_ring = 1"
proof -
  have "(1 :: u64) < 2 \<and> (2 :: u64) < - 1" by simp
  then show "settled_at 1 (ring_held demo_ring)" unfolding settled_at_def using demo_ring_held by blast
qed (simp add: demo_ring_def)

lemma demo_ring_drained: "fst (drain_all (snd (reassembler_insert 1 [65] demo_ring))) = [[65],[66]]"
    by (simp add: reassembler_insert_def demo_ring_def slot_index_def Let_def drain_all_unfold drain_next_def)

theorem insert_releases_run_witness:
  "fst (drain_all (snd (reassembler_insert 1 [65] demo_ring))) = [[65], [66]]
    \<and> expected_next (snd (drain_all (snd (reassembler_insert 1 [65] demo_ring)))) = 3"
proof -
  let ?r1 = "snd (reassembler_insert 1 [65] demo_ring)"
  have i: "reassembler_insert (expected_next demo_ring) [65] demo_ring = (Inr True, ?r1)"
    by (simp add: reassembler_insert_def demo_ring_def slot_index_def Let_def)
  have lt: "expected_next demo_ring < - 1" unfolding demo_ring_facts by code_simp
  have s: "settled_at (expected_next demo_ring) (ring_held demo_ring)" using demo_ring_facts by (simp only: )
  have "unat (expected_next (snd (drain_all ?r1))) = unat (expected_next demo_ring) + length (fst (drain_all ?r1))"
    by (rule insert_releases_run [OF demo_ring_inv s lt i prod.collapse [symmetric], THEN conjunct2, THEN conjunct2, THEN conjunct2, THEN conjunct1])
  then have "unat (expected_next (snd (drain_all ?r1))) = unat (3 :: u64)"
    by (simp only: demo_ring_drained demo_ring_facts) simp
  then have "expected_next (snd (drain_all ?r1)) = 3" by (simp only: word_unat_eq_iff)
  with demo_ring_drained show ?thesis by (rule conjI)
qed

text \<open>
  C4. Inserting never evicts: every message held before is held afterwards, only the inserted
  sequence can be added, and when the insert is refused the ring is unchanged and the slot is taken
  by a different sequence of the same residue.
\<close>

theorem insert_never_evicts:
  assumes "ring_inv r" "reassembler_insert sq m r = (res, r')"
  shows "ring_inv r' \<and> expected_next r' = expected_next r
    \<and> ring_held r \<subseteq>\<^sub>m ring_held r' \<and> dom (ring_held r') \<subseteq> insert sq (dom (ring_held r))
    \<and> (\<forall>e. res = Inl e \<longrightarrow> r' = r \<and> e = ReassemblyBufferFull (length (slots r))
          \<and> (\<exists>s. s \<noteq> sq \<and> ring_held r s \<noteq> None \<and> slot_index r s = slot_index r sq))"
proof (cases res)
  case (Inl e)
  note ins = assms(2) [unfolded Inl]
  have same: "r' = r" by (rule ring.store_error [OF assms(1) ins])
  have "e = ReassemblyBufferFull (length (slots r))"
    using ins by (auto simp: reassembler_insert_def Let_def split: if_splits)
  moreover from insert_collision [OF assms(1) ins]
  have "\<exists>s. s \<noteq> sq \<and> ring_held r s \<noteq> None \<and> slot_index r s = slot_index r sq" by blast
  ultimately show ?thesis unfolding Inl same using assms(1)
    by (intro conjI allI impI) (blast | simp)+
next
  case (Inr c)
  have base: "ring_inv r'" "expected_next r' = expected_next r"
    by (rule ring.store_inv [OF assms], rule ring.store_next [OF assms])
  have "ring_held r \<subseteq>\<^sub>m ring_held r' \<and> dom (ring_held r') \<subseteq> insert sq (dom (ring_held r))"
  proof (cases "sq < expected_next r")
    case True
    from ring.store_stale [OF assms(1) True, of m] assms(2) have "r' = r" by simp
    then show ?thesis by auto
  next
    case False
    then have "ring_held r' = (ring_held r)(sq \<mapsto> (case ring_held r sq of None \<Rightarrow> m | Some m' \<Rightarrow> m'))"
      using ring.store_ok [OF assms(1) _ assms(2) [unfolded Inr]] by simp
    then show ?thesis by (auto simp: map_le_def dom_def split: option.splits)
  qed
  with base Inr show ?thesis by blast
qed

theorem insert_never_evicts_witness:
  "ring_held (snd (reassembler_insert 6 [70] demo_ring)) = ring_held demo_ring
    \<and> fst (reassembler_insert 6 [70] demo_ring) = Inl (ReassemblyBufferFull 4)"
proof -
  have f: "fst (reassembler_insert 6 [70] demo_ring) = Inl (ReassemblyBufferFull 4)"
    by (simp add: reassembler_insert_def demo_ring_def slot_index_def)
  have "reassembler_insert 6 [70] demo_ring =
      (Inl (ReassemblyBufferFull 4), snd (reassembler_insert 6 [70] demo_ring))"
    using f by (simp add: prod_eq_iff)
  from insert_never_evicts [OF demo_ring_inv this] f show ?thesis by simp
qed

text \<open>
  C5. The ring is exactly as deep as its capacity: while everything held lies in the
  \<open>capacity\<close> sequences from the next expected one, a message of that window is never refused and is
  held afterwards.
\<close>

theorem insert_in_window_accepted:
  assumes "ring_inv r"
    and "\<And>s. ring_held r s \<noteq> None \<Longrightarrow>
      expected_next r \<le> s \<and> unat s < unat (expected_next r) + length (slots r)"
    and "expected_next r \<le> sq" "unat sq < unat (expected_next r) + length (slots r)"
  shows "\<exists>r'. reassembler_insert sq m r = (Inr (sq = expected_next r \<and> ring_held r sq = None), r')
    \<and> ring_held r' sq = Some (case ring_held r sq of None \<Rightarrow> m | Some m' \<Rightarrow> m')"
proof -
  obtain res r' where ins: "reassembler_insert sq m r = (res, r')" by (rule prod.exhaust)
  have "\<exists>c. res = Inr c"
  proof (cases res)
    case (Inl e)
    obtain s where "ring_held r s \<noteq> None" "s \<noteq> sq" "slot_index r s = slot_index r sq"
      using insert_collision [OF assms(1)] ins Inl by blast
    with window_same_slot [OF assms(1), of s sq "expected_next r"] assms(2-4) show ?thesis
      by (auto simp: word_le_nat_alt)
  qed simp
  then obtain c where c: "res = Inr c" by blast
  have "c = (sq = expected_next r \<and> ring_held r sq = None)"
    using ins assms(3)
    by (auto simp: c reassembler_insert_def ring_held_def Let_def split: if_splits)
  with ring.store_ok [OF assms(1,3) ins [unfolded c]] ins c show ?thesis by auto
qed

theorem insert_in_window_accepted_witness:
  "\<exists>r'. reassembler_insert 4 [68] demo_ring = (Inr False, r') \<and> ring_held r' 4 = Some [68]"
proof -
  have "\<And>s. ring_held demo_ring s \<noteq> None \<Longrightarrow>
      expected_next demo_ring \<le> s \<and> unat s < unat (expected_next demo_ring) + length (slots demo_ring)"
    by (drule demo_ring_held) (simp add: demo_ring_def)
  from insert_in_window_accepted [OF demo_ring_inv this, of 4 "[68]"]
  show ?thesis by (simp add: demo_ring_def ring_held_def slot_index_def)
qed

end
