(* ===== verification/Mold_Gap.thy ===== *)
theory Mold_Gap
  imports Mold_Wire
begin

text \<open>
  Gap tracking and re-request emission, \<^verbatim>\<open>crates/clients/moldudp/src/gap.rs\<close>.

  The handler's \<^verbatim>\<open>BTreeMap<u64, u64>\<close> (start to exclusive end) is its entry list in ascending key
  order; the four map queries and updates the source uses are \<open>bt_pred_lt\<close>, \<open>bt_pred_le\<close>,
  \<open>bt_succ_ge\<close>, \<open>bt_insert\<close> and \<open>bt_remove\<close>. What the handler promises is stated over the set
  of missing sequences: the locale \<open>missing_set\<close>, interpreted by the range list.
\<close>

section \<open>Ordered maps as entry lists\<close>

type_synonym ranges = "(u64 \<times> u64) list"

definition bt_pred_lt :: "u64 \<Rightarrow> ranges \<Rightarrow> (u64 \<times> u64) option" where
  "bt_pred_lt k m = (case filter (\<lambda>(a, _). a < k) m of [] \<Rightarrow> None | xs \<Rightarrow> Some (last xs))"

definition bt_pred_le :: "u64 \<Rightarrow> ranges \<Rightarrow> (u64 \<times> u64) option" where
  "bt_pred_le k m = (case filter (\<lambda>(a, _). a \<le> k) m of [] \<Rightarrow> None | xs \<Rightarrow> Some (last xs))"

definition bt_succ_ge :: "u64 \<Rightarrow> ranges \<Rightarrow> (u64 \<times> u64) option" where
  "bt_succ_ge k m = (case filter (\<lambda>(a, _). k \<le> a) m of [] \<Rightarrow> None | x # _ \<Rightarrow> Some x)"

definition bt_remove :: "u64 \<Rightarrow> ranges \<Rightarrow> ranges" where
  "bt_remove k m = filter (\<lambda>(a, _). a \<noteq> k) m"

definition bt_insert :: "u64 \<Rightarrow> u64 \<Rightarrow> ranges \<Rightarrow> ranges" where
  "bt_insert k v m = filter (\<lambda>(a, _). a < k) m @ (k, v) # filter (\<lambda>(a, _). k < a) m"

section \<open>The handler\<close>

record gap_request =
  start_seq :: u64
  gap_count :: u16

record gap_handler =
  gaps :: ranges

definition gap_handler_new :: gap_handler where
  "gap_handler_new = \<lparr>gaps = []\<rparr>"

lemma bt_succ_ge_Some:
  "bt_succ_ge k m = Some (a, b) \<Longrightarrow> (a, b) \<in> set m \<and> k \<le> a"
proof -
  assume "bt_succ_ge k m = Some (a, b)"
  then obtain xs where "filter (\<lambda>(a, _). k \<le> a) m = (a, b) # xs"
    by (auto simp: bt_succ_ge_def split: list.splits)
  then have "(a, b) \<in> set (filter (\<lambda>(a, _). k \<le> a) m)"
    by (metis list.set_intros(1))
  then show ?thesis by auto
qed

lemma bt_remove_shorter: "(a, b) \<in> set m \<Longrightarrow> length (bt_remove a m) < length m"
  by (auto simp: bt_remove_def intro!: length_filter_less)

text \<open>The widening loop of \<^verbatim>\<open>record_missing_range\<close>.\<close>

function absorb :: "u64 \<Rightarrow> u64 \<Rightarrow> ranges \<Rightarrow> u64 \<times> ranges" where
  "absorb start stop g =
     (case bt_succ_ge start g of
        None \<Rightarrow> (stop, g)
      | Some (next_start, next_end) \<Rightarrow>
          if next_start > stop then (stop, g)
          else absorb start (max stop next_end) (bt_remove next_start g))"
  by pat_completeness auto
termination
  by (relation "measure (\<lambda>(_, _, g). length g)")
    (auto dest!: bt_succ_ge_Some intro: bt_remove_shorter)

declare absorb.simps [simp del]

definition record_missing_range :: "u64 \<Rightarrow> u64 \<Rightarrow> gap_handler \<Rightarrow> gap_handler" where
  "record_missing_range start end_exclusive h =
     (if start \<ge> end_exclusive then h
      else let (start, stop) =
             (case bt_pred_lt start (gaps h) of
                Some (prev_start, prev_end) \<Rightarrow>
                  if prev_end \<ge> start then (prev_start, max end_exclusive prev_end)
                  else (start, end_exclusive)
              | None \<Rightarrow> (start, end_exclusive));
           (stop, g) = absorb start stop (gaps h)
         in h\<lparr>gaps := bt_insert start stop g\<rparr>)"

definition record_gap :: "u64 \<Rightarrow> gap_handler \<Rightarrow> gap_handler" where
  "record_gap sq h = record_missing_range sq (sq + 1) h"

definition mark_received :: "u64 \<Rightarrow> gap_handler \<Rightarrow> gap_handler" where
  "mark_received sq h =
     (case bt_pred_le sq (gaps h) of
        None \<Rightarrow> h
      | Some (start, stop) \<Rightarrow>
          if sq \<ge> stop then h
          else let g = bt_remove start (gaps h);
                   g = (if start < sq then bt_insert start sq g else g);
                   g = (if sq + 1 < stop then bt_insert (sq + 1) stop g else g)
               in h\<lparr>gaps := g\<rparr>)"

definition has_pending :: "gap_handler \<Rightarrow> bool" where
  "has_pending h \<longleftrightarrow> gaps h \<noteq> []"

text \<open>\<^verbatim>\<open>u16::try_from(n).unwrap_or(u16::MAX)\<close>.\<close>

definition u16_clamp :: "u64 \<Rightarrow> u16" where
  "u16_clamp n = (if unat n \<le> 65535 then of_nat (unat n) else 65535)"

lemma unat_u16_clamp: "unat (u16_clamp n) = min (unat n) 65535"
  by (simp add: u16_clamp_def unat_ucast_mod)

lemma ucast_clamp_step:
  assumes "cur < stop"
  shows "unat (cur + ucast (u16_clamp (stop - cur))) = unat cur + min (unat stop - unat cur) 65535"
proof -
  have "unat (ucast (u16_clamp (stop - cur)) :: u64) = min (unat stop - unat cur) 65535"
    by (simp add: unat_ucast_mod unat_u16_clamp unat_diff_less [OF assms])
  moreover have "unat stop < 2 ^ 64" using unat_less_pow [of stop] by simp
  ultimately show ?thesis
    using assms by (simp add: unat_word_ariths word_less_nat_alt)
qed

text \<open>The chunking loop of \<^verbatim>\<open>pending_gaps_into\<close> over one range.\<close>

function range_chunks :: "u64 \<Rightarrow> u64 \<Rightarrow> gap_request list" where
  "range_chunks cur stop =
     (if cur < stop then
        (let cnt = u16_clamp (stop - cur) in
         \<lparr>start_seq = cur, gap_count = cnt\<rparr> # range_chunks (cur + ucast cnt) stop)
      else [])"
  by pat_completeness auto
termination
  by (relation "measure (\<lambda>(cur, stop). unat stop - unat cur)")
    (auto simp: ucast_clamp_step word_less_nat_alt)

declare range_chunks.simps [simp del]

definition pending_gaps :: "gap_handler \<Rightarrow> gap_request list" where
  "pending_gaps h = concat (map (\<lambda>(start, stop). range_chunks start stop) (gaps h))"

section \<open>Invariant: disjoint, non-adjacent, ascending ranges\<close>

definition ranges_ok :: "ranges \<Rightarrow> bool" where
  "ranges_ok g \<longleftrightarrow> sorted_wrt (\<lambda>p q. snd p < fst q) g \<and> (\<forall>(a, b) \<in> set g. a < b)"

definition gaps_ok :: "gap_handler \<Rightarrow> bool" where
  "gaps_ok h \<longleftrightarrow> ranges_ok (gaps h)"

definition covered :: "ranges \<Rightarrow> u64 set" where
  "covered g = (\<Union>(a, b) \<in> set g. {a..<b})"

lemma covered_iff: "sq \<in> covered g \<longleftrightarrow> (\<exists>a b. (a, b) \<in> set g \<and> a \<le> sq \<and> sq < b)"
  by (fastforce simp: covered_def)

lemma ranges_ok_apart:
  "ranges_ok g \<Longrightarrow> (a, b) \<in> set g \<Longrightarrow> (c, d) \<in> set g \<Longrightarrow> (a, b) = (c, d) \<or> b < c \<or> d < a"
  by (induction g) (auto simp: ranges_ok_def)

lemma ranges_ok_nonempty: "ranges_ok g \<Longrightarrow> (a, b) \<in> set g \<Longrightarrow> a < b"
  by (auto simp: ranges_ok_def)

lemma ranges_ok_filter: "ranges_ok g \<Longrightarrow> ranges_ok (filter P g)"
  by (auto simp: ranges_ok_def sorted_wrt_filter)

lemma sorted_wrt_last: "sorted_wrt R xs \<Longrightarrow> x \<in> set xs \<Longrightarrow> x = last xs \<or> R x (last xs)"
  by (induction xs) auto

lemma sorted_wrt_hd: "sorted_wrt R (x # xs) \<Longrightarrow> y \<in> set (x # xs) \<Longrightarrow> y = x \<or> R x y"
  by auto

lemma last_filter_Some:
  assumes "(case filter P m of [] \<Rightarrow> None | xs \<Rightarrow> Some (last xs)) = Some p"
  shows "filter P m \<noteq> []" "p = last (filter P m)" "p \<in> set m" "P p"
proof -
  from assms show *: "filter P m \<noteq> []" "p = last (filter P m)"
    by (auto split: list.splits)
  then have "p \<in> set (filter P m)" using last_in_set by metis
  then show "p \<in> set m" "P p" by auto
qed

lemma last_filter_None:
  "(case filter P m of [] \<Rightarrow> None | xs \<Rightarrow> Some (last xs)) = None \<Longrightarrow> \<forall>p \<in> set m. \<not> P p"
  by (auto simp: filter_empty_conv split: list.splits)

lemma last_filter_greatest:
  assumes "ranges_ok g" "(case filter P g of [] \<Rightarrow> None | xs \<Rightarrow> Some (last xs)) = Some (a, b)"
    "(c, d) \<in> set g" "P (c, d)"
  shows "(c, d) = (a, b) \<or> d < a"
proof -
  have "sorted_wrt (\<lambda>p q. snd p < fst q) (filter P g)"
    using assms(1) by (simp add: ranges_ok_def sorted_wrt_filter)
  moreover have "(c, d) \<in> set (filter P g)" using assms(3,4) by simp
  ultimately have "(c, d) = last (filter P g) \<or> snd (c, d) < fst (last (filter P g))"
    by (rule sorted_wrt_last)
  then show ?thesis unfolding last_filter_Some(2) [OF assms(2), symmetric] by simp
qed

lemma bt_pred_lt_Some:
  assumes "ranges_ok g" "bt_pred_lt k g = Some (a, b)"
  shows "(a, b) \<in> set g" "a < k" "\<forall>(c, d) \<in> set g. c < k \<longrightarrow> (c, d) = (a, b) \<or> d < a"
  using last_filter_Some [OF assms(2) [unfolded bt_pred_lt_def]]
    last_filter_greatest [OF assms(1) assms(2) [unfolded bt_pred_lt_def]]
  by auto

lemma bt_pred_lt_None: "bt_pred_lt k g = None \<Longrightarrow> \<forall>(c, d) \<in> set g. k \<le> c"
  using last_filter_None [of "\<lambda>(a, _). a < k" g] by (auto simp: bt_pred_lt_def not_less)

lemma bt_pred_le_Some:
  assumes "ranges_ok g" "bt_pred_le k g = Some (a, b)"
  shows "(a, b) \<in> set g" "a \<le> k" "\<forall>(c, d) \<in> set g. c \<le> k \<longrightarrow> (c, d) = (a, b) \<or> d < a"
  using last_filter_Some [OF assms(2) [unfolded bt_pred_le_def]]
    last_filter_greatest [OF assms(1) assms(2) [unfolded bt_pred_le_def]]
  by auto

lemma bt_pred_le_None: "bt_pred_le k g = None \<Longrightarrow> \<forall>(c, d) \<in> set g. k < c"
  using last_filter_None [of "\<lambda>(a, _). a \<le> k" g] by (auto simp: bt_pred_le_def not_le)

lemma bt_succ_ge_least:
  assumes "ranges_ok g" "bt_succ_ge k g = Some (a, b)"
  shows "\<forall>(c, d) \<in> set g. k \<le> c \<longrightarrow> (c, d) = (a, b) \<or> b < c"
proof -
  obtain xs where xs: "filter (\<lambda>(a, _). k \<le> a) g = (a, b) # xs"
    using assms(2) by (auto simp: bt_succ_ge_def split: list.splits)
  have "sorted_wrt (\<lambda>p q. snd p < fst q) (filter (\<lambda>(a, _). k \<le> a) g)"
    using assms(1) by (simp add: ranges_ok_def sorted_wrt_filter)
  from this [unfolded xs] have "\<forall>q \<in> set (filter (\<lambda>(a, _). k \<le> a) g). q = (a, b) \<or> b < fst q"
    unfolding xs by auto
  then show ?thesis by fastforce
qed

lemma bt_succ_ge_None: "bt_succ_ge k g = None \<Longrightarrow> \<forall>(c, d) \<in> set g. c < k"
  by (auto simp: bt_succ_ge_def filter_empty_conv not_le split: list.splits)

lemma set_bt_insert: "(\<forall>(c, d) \<in> set g. c \<noteq> k) \<Longrightarrow> set (bt_insert k v g) = insert (k, v) (set g)"
  by (auto simp: bt_insert_def)

lemma bt_insert_ok:
  assumes "ranges_ok g" "a < b" "\<forall>(c, d) \<in> set g. d < a \<or> b < c"
  shows "ranges_ok (bt_insert a b g)" "set (bt_insert a b g) = insert (a, b) (set g)"
proof -
  have lt: "d < a" if "(c, d) \<in> set g" "c < a" for c d
    using assms that by fastforce
  have gt: "b < c" if "(c, d) \<in> set g" "a < c" for c d
    using assms that ranges_ok_nonempty [OF assms(1) that(1)] by fastforce
  have key: "\<forall>(c, d) \<in> set g. c \<noteq> a"
    using assms ranges_ok_nonempty [OF assms(1)] by fastforce
  then show set: "set (bt_insert a b g) = insert (a, b) (set g)" by (rule set_bt_insert)
  have "sorted_wrt (\<lambda>p q. snd p < fst q) (bt_insert a b g)"
    using assms(1,2) lt gt
    by (fastforce simp: bt_insert_def sorted_wrt_append sorted_wrt_filter ranges_ok_def)
  moreover have "\<forall>(c, d) \<in> set (bt_insert a b g). c < d"
    unfolding set using assms(1,2) by (auto simp: ranges_ok_def)
  ultimately show "ranges_ok (bt_insert a b g)" by (simp add: ranges_ok_def)
qed

lemma bt_remove_ok: "ranges_ok g \<Longrightarrow> ranges_ok (bt_remove k g)"
  by (simp add: bt_remove_def ranges_ok_filter)

lemma set_bt_remove:
  "ranges_ok g \<Longrightarrow> (a, b) \<in> set g \<Longrightarrow> set (bt_remove a g) = set g - {(a, b)}"
  using ranges_ok_apart [of g a b] ranges_ok_nonempty [of g]
  by (fastforce simp: bt_remove_def)

section \<open>Recording and clearing\<close>

text \<open>The loop absorbs exactly the ranges that touch the growing range, provided no range that
  starts before it reaches it.\<close>

lemma absorb_spec:
  assumes "ranges_ok g" "start < stop" "\<forall>(c, d) \<in> set g. c < start \<longrightarrow> d < start"
    "absorb start stop g = (stop', g')"
  shows "ranges_ok g' \<and> stop \<le> stop' \<and> (\<forall>(c, d) \<in> set g'. d < start \<or> stop' < c)
    \<and> covered g' \<union> {start..<stop'} = covered g \<union> {start..<stop}"
  using assms
proof (induction start stop g rule: absorb.induct)
  case (1 start stop g)
  show ?case
  proof (cases "bt_succ_ge start g")
    case None
    with 1(5) have "stop' = stop" "g' = g" by (simp_all add: absorb.simps [of start stop g])
    with 1(2,4) bt_succ_ge_None [OF None] show ?thesis by fastforce
  next
    case (Some p)
    obtain ns ne where p: "p = (ns, ne)" by (cases p)
    with Some have sg: "bt_succ_ge start g = Some (ns, ne)" by simp
    note in_g = bt_succ_ge_Some [OF sg] and least = bt_succ_ge_least [OF 1(2) sg]
    have ne: "ns < ne" using ranges_ok_nonempty [OF 1(2)] in_g by blast
    show ?thesis
    proof (cases "stop < ns")
      case True
      with sg 1(5) have "stop' = stop" "g' = g" by (simp_all add: absorb.simps [of start stop g])
      with True 1(2,4) least ne show ?thesis by fastforce
    next
      case False
      have rem: "set (bt_remove ns g) = set g - {(ns, ne)}"
        using set_bt_remove [OF 1(2)] in_g by blast
      have "absorb start (max stop ne) (bt_remove ns g) = (stop', g')"
        using 1(5) sg False by (simp add: absorb.simps [of start stop g])
      with 1(1) [OF sg refl] False 1(2-4) have IH:
        "ranges_ok g' \<and> max stop ne \<le> stop' \<and> (\<forall>(c, d) \<in> set g'. d < start \<or> stop' < c)
         \<and> covered g' \<union> {start..<stop'} = covered (bt_remove ns g) \<union> {start..<max stop ne}"
        by (auto simp: bt_remove_ok rem max_def)
      have "covered (bt_remove ns g) \<union> {ns..<ne} = covered g"
        using in_g by (auto simp: covered_def rem)
      moreover have "{start..<max stop ne} = {start..<stop} \<union> {ns..<ne}"
        using in_g False 1(3) ne by (auto simp: max_def)
      ultimately show ?thesis using IH by auto
    qed
  qed
qed

text \<open>A predecessor that reaches the new range is merged into it from the left.\<close>

lemma extend_left_spec:
  assumes "ranges_ok g" "a < b"
    "(case bt_pred_lt a g of
        Some (ps, pe) \<Rightarrow> if pe \<ge> a then (ps, max b pe) else (a, b) | None \<Rightarrow> (a, b)) = (s, e)"
  shows "s < e \<and> (\<forall>(c, d) \<in> set g. c < s \<longrightarrow> d < s) \<and> covered g \<union> {s..<e} = covered g \<union> {a..<b}"
proof (cases "bt_pred_lt a g")
  case None
  with assms(2,3) bt_pred_lt_None [OF None] show ?thesis by fastforce
next
  case (Some p)
  obtain ps pe where p: "bt_pred_lt a g = Some (ps, pe)" using Some by (cases p) auto
  note pr = bt_pred_lt_Some [OF assms(1) p]
  show ?thesis
  proof (cases "a \<le> pe")
    case True
    with assms(3) p have eq: "s = ps" "e = max b pe" by auto
    have "{ps..<max b pe} = {ps..<pe} \<union> {a..<b}" using True assms(2) pr(2) by (auto simp: max_def)
    moreover have "{ps..<pe} \<subseteq> covered g" using pr(1) by (auto simp: covered_def)
    moreover have "\<forall>(c, d) \<in> set g. c < ps \<longrightarrow> d < ps" using pr(2,3) by fastforce
    ultimately show ?thesis using pr(2) assms(2) by (auto simp: eq max_def)
  next
    case False
    with assms(3) p have eq: "s = a" "e = b" by auto
    have "\<forall>(c, d) \<in> set g. c < a \<longrightarrow> d < a" using pr False by fastforce
    with eq assms(2) show ?thesis by auto
  qed
qed

lemma record_missing_range_spec:
  assumes "gaps_ok h"
  shows "gaps_ok (record_missing_range a b h)
    \<and> covered (gaps (record_missing_range a b h)) = covered (gaps h) \<union> {a..<b}"
proof (cases "a \<ge> b")
  case True
  with assms show ?thesis by (simp add: record_missing_range_def)
next
  case False
  let ?g = "gaps h"
  have ok: "ranges_ok ?g" using assms by (simp add: gaps_ok_def)
  obtain s e where se: "(case bt_pred_lt a ?g of
      Some (ps, pe) \<Rightarrow> if pe \<ge> a then (ps, max b pe) else (a, b) | None \<Rightarrow> (a, b)) = (s, e)"
    by (rule prod.exhaust)
  have "a < b" using False by simp
  note ext = extend_left_spec [OF ok this se]
  obtain e' g' where ab: "absorb s e ?g = (e', g')" by (rule prod.exhaust)
  with ext have spec: "ranges_ok g' \<and> e \<le> e' \<and> (\<forall>(c, d) \<in> set g'. d < s \<or> e' < c)
    \<and> covered g' \<union> {s..<e'} = covered ?g \<union> {s..<e}"
    using absorb_spec [OF ok _ _ ab] by blast
  have res: "record_missing_range a b h = h\<lparr>gaps := bt_insert s e' g'\<rparr>"
    using False by (simp add: record_missing_range_def se ab)
  have ins: "ranges_ok (bt_insert s e' g')" "set (bt_insert s e' g') = insert (s, e') (set g')"
    using bt_insert_ok [of g' s e'] spec ext by force+
  then have "covered (bt_insert s e' g') = covered g' \<union> {s..<e'}" by (auto simp: covered_def)
  with ins spec ext show ?thesis by (simp add: res gaps_ok_def)
qed

lemma mark_received_spec:
  assumes "gaps_ok h"
  shows "gaps_ok (mark_received sq h) \<and> covered (gaps (mark_received sq h)) = covered (gaps h) - {sq}"
proof (cases "bt_pred_le sq (gaps h)")
  case None
  with assms bt_pred_le_None [OF None] show ?thesis
    by (fastforce simp: mark_received_def covered_iff)
next
  case (Some p)
  let ?g = "gaps h"
  have ok: "ranges_ok ?g" using assms by (simp add: gaps_ok_def)
  obtain s e where p: "bt_pred_le sq ?g = Some (s, e)" using Some by (cases p) auto
  note pr = bt_pred_le_Some [OF ok p]
  show ?thesis
  proof (cases "sq \<ge> e")
    case True
    with pr have "sq \<notin> covered ?g" by (fastforce simp: covered_iff)
    with True p assms show ?thesis by (simp add: mark_received_def)
  next
    case False
    then have lt: "sq < e" by simp
    note up = word_less_add1_iff [OF lt]
    define g0 where "g0 = bt_remove s ?g"
    define g1 where "g1 = (if s < sq then bt_insert s sq g0 else g0)"
    define g2 where "g2 = (if sq + 1 < e then bt_insert (sq + 1) e g1 else g1)"
    have set0: "set g0 = set ?g - {(s, e)}" and ok0: "ranges_ok g0"
      using set_bt_remove [OF ok pr(1)] bt_remove_ok [OF ok] by (simp_all add: g0_def)
    have apart: "\<forall>(c, d) \<in> set g0. d < s \<or> e < c"
      using ranges_ok_apart [OF ok pr(1)] by (fastforce simp: set0)
    have apart': "\<forall>(c, d) \<in> set g0. d < s \<or> sq < c" using apart lt by fastforce
    have ok1: "ranges_ok g1 \<and> set g1 = set g0 \<union> (if s < sq then {(s, sq)} else {})"
      using bt_insert_ok [OF ok0, of s sq] apart' by (auto simp: g1_def ok0)
    have "\<forall>(c, d) \<in> set g1. d < sq + 1 \<or> e < c"
      using ok1 apart pr(2) by (auto simp: up split: if_splits)
    then have ok2: "ranges_ok g2 \<and> set g2 = set g1 \<union> (if sq + 1 < e then {(sq + 1, e)} else {})"
      using bt_insert_ok [of g1 "sq + 1" e] ok1 by (auto simp: g2_def)
    have res: "mark_received sq h = h\<lparr>gaps := g2\<rparr>"
      using False p by (simp add: mark_received_def g0_def g1_def g2_def Let_def)
    have "covered g2 = covered ?g - {sq}"
    proof -
      have notin: "sq \<notin> covered g0" using apart pr(2) lt by (fastforce simp: covered_iff)
      have "covered ?g = covered g0 \<union> {s..<e}" using pr(1) by (auto simp: covered_def set0)
      moreover have "{s..<e} - {sq} = {s..<sq} \<union> {sq + 1..<e}"
        using pr(2) lt by (rule word_interval_remove)
      moreover have "covered g2 = covered g0 \<union> {s..<sq} \<union> {sq + 1..<e}"
        using ok1 ok2 by (auto simp: covered_def)
      ultimately show ?thesis using notin by blast
    qed
    with ok2 show ?thesis by (simp add: res gaps_ok_def)
  qed
qed

section \<open>Re-request chunks\<close>

definition request_end :: "gap_request \<Rightarrow> u64" where
  "request_end r = start_seq r + ucast (gap_count r)"

lemma range_chunks_spec:
  "(\<Union>r \<in> set (range_chunks c e). {start_seq r..<request_end r}) = {c..<e}
   \<and> (\<forall>r \<in> set (range_chunks c e). gap_count r \<noteq> 0 \<and> c \<le> start_seq r
        \<and> start_seq r < request_end r \<and> request_end r \<le> e)
   \<and> sorted_wrt (\<lambda>p q. request_end p \<le> start_seq q) (range_chunks c e)"
proof (induction c e rule: range_chunks.induct)
  case (1 c e)
  show ?case
  proof (cases "c < e")
    case False
    then show ?thesis by (simp add: range_chunks.simps [of c e])
  next
    case True
    define cnt where "cnt = u16_clamp (e - c)"
    define n where "n = c + ucast cnt"
    have unfold: "range_chunks c e = \<lparr>start_seq = c, gap_count = cnt\<rparr> # range_chunks n e"
      using True by (simp add: range_chunks.simps [of c e] cnt_def n_def Let_def)
    have un: "unat n = unat c + min (unat e - unat c) 65535"
      using ucast_clamp_step [OF True] by (simp add: n_def cnt_def)
    then have cn: "c < n" "n \<le> e" using True by (auto simp: word_less_nat_alt word_le_nat_alt)
    have cnz: "cnt \<noteq> 0" using cn(1) by (auto simp: n_def)
    have IH: "(\<Union>r \<in> set (range_chunks n e). {start_seq r..<request_end r}) = {n..<e}
      \<and> (\<forall>r \<in> set (range_chunks n e). gap_count r \<noteq> 0 \<and> n \<le> start_seq r
        \<and> start_seq r < request_end r \<and> request_end r \<le> e)
      \<and> sorted_wrt (\<lambda>p q. request_end p \<le> start_seq q) (range_chunks n e)"
      unfolding n_def by (rule "1.IH" [OF True cnt_def])
    have first: "request_end \<lparr>start_seq = c, gap_count = cnt\<rparr> = n"
      by (simp add: request_end_def n_def)
    have "{c..<n} \<union> {n..<e} = {c..<e}" using cn by auto
    with IH cn cnz show ?thesis unfolding unfold by (auto simp: first)
  qed
qed

lemmas range_chunks_cover = range_chunks_spec [THEN conjunct1]
  and range_chunks_bounds = range_chunks_spec [THEN conjunct2, THEN conjunct1]
  and range_chunks_sorted = range_chunks_spec [THEN conjunct2, THEN conjunct2]

lemma pending_gaps_cover:
  "(\<Union>r \<in> set (pending_gaps h). {start_seq r..<request_end r}) = covered (gaps h)"
  using range_chunks_cover by (simp add: pending_gaps_def covered_def split_def)

lemma pending_gaps_sorted:
  assumes "ranges_ok g"
  shows "sorted_wrt (\<lambda>p q. request_end p \<le> start_seq q)
    (concat (map (\<lambda>(start, stop). range_chunks start stop) g))"
  using assms
proof (induction g)
  case Nil
  show ?case by simp
next
  case (Cons p g)
  obtain a b where p: "p = (a, b)" by (rule prod.exhaust)
  have "ranges_ok g" using Cons.prems by (simp add: ranges_ok_def)
  moreover have "request_end r \<le> start_seq r'"
    if r: "r \<in> set (range_chunks a b)" and cd: "(c, d) \<in> set g" and r': "r' \<in> set (range_chunks c d)" for r r' c d
  proof -
    have "b < c" using Cons.prems cd by (auto simp: ranges_ok_def p)
    with range_chunks_bounds [of a b] range_chunks_bounds [of c d] r r' show ?thesis by force
  qed
  ultimately show ?case
    using Cons.IH by (fastforce simp: p sorted_wrt_append range_chunks_sorted)
qed

section \<open>The contract of a gap tracker\<close>

text \<open>
  What the receiver relies on: the tracker is a set of missing sequences; recording adds an
  interval, marking removes one sequence, and the requests it hands out cover exactly the set.
\<close>

locale missing_set =
  fixes track_inv :: "'h \<Rightarrow> bool"
    and missing :: "'h \<Rightarrow> u64 set"
    and note_range :: "u64 \<Rightarrow> u64 \<Rightarrow> 'h \<Rightarrow> 'h"
    and clear :: "u64 \<Rightarrow> 'h \<Rightarrow> 'h"
    and pending :: "'h \<Rightarrow> bool"
    and requests :: "'h \<Rightarrow> gap_request list"
  assumes note_inv: "track_inv h \<Longrightarrow> track_inv (note_range a b h)"
    and note_missing: "track_inv h \<Longrightarrow> missing (note_range a b h) = missing h \<union> {a..<b}"
    and clear_inv: "track_inv h \<Longrightarrow> track_inv (clear sq h)"
    and clear_missing: "track_inv h \<Longrightarrow> missing (clear sq h) = missing h - {sq}"
    and pending_iff: "track_inv h \<Longrightarrow> pending h \<longleftrightarrow> missing h \<noteq> {}"
    and requests_cover: "track_inv h \<Longrightarrow>
      (\<Union>r \<in> set (requests h). {start_seq r..<request_end r}) = missing h"
begin

lemma clear_list:
  "track_inv h \<Longrightarrow> track_inv (fold clear sqs h) \<and> missing (fold clear sqs h) = missing h - set sqs"
  by (induction sqs arbitrary: h) (auto simp: clear_inv clear_missing)

text \<open>A range that is noted and then received message by message leaves the tracker as it was.\<close>

lemma note_then_fill:
  "track_inv h \<Longrightarrow> missing h \<inter> {a..<b} = {} \<Longrightarrow> set sqs = {a..<b} \<Longrightarrow>
   missing (fold clear sqs (note_range a b h)) = missing h"
  using clear_list [OF note_inv, of h sqs a b] by (auto simp: note_missing)

lemma no_request_when_idle: "track_inv h \<Longrightarrow> \<not> pending h \<Longrightarrow> r \<in> set (requests h) \<Longrightarrow> request_end r \<le> start_seq r"
  using requests_cover [of h] pending_iff [of h] by (fastforce simp: not_le)

end

lemma covered_empty_iff: "ranges_ok g \<Longrightarrow> covered g = {} \<longleftrightarrow> g = []"
  by (cases g) (auto simp: covered_def ranges_ok_def)

lemma has_pending_iff: "gaps_ok h \<Longrightarrow> has_pending h \<longleftrightarrow> covered (gaps h) \<noteq> {}"
  by (simp add: has_pending_def gaps_ok_def covered_empty_iff)

interpretation gap_ranges: missing_set gaps_ok "\<lambda>h. covered (gaps h)" record_missing_range
  mark_received has_pending pending_gaps
  by unfold_locales
    (simp_all add: record_missing_range_spec mark_received_spec pending_gaps_cover
      has_pending_iff)

section \<open>Properties\<close>

lemma range_chunks_step:
  "c < e \<Longrightarrow> range_chunks c e = \<lparr>start_seq = c, gap_count = u16_clamp (e - c)\<rparr>
     # range_chunks (c + ucast (u16_clamp (e - c))) e"
  "\<not> c < e \<Longrightarrow> range_chunks c e = []"
  by (simp_all add: range_chunks.simps [of c e] Let_def)

text \<open>The tracker's calls in any order, and the set of missing sequences each stands for.\<close>

datatype gap_op = RecordRange u64 u64 | RecordGap u64 | MarkReceived u64

fun run_gap_op :: "gap_op \<Rightarrow> gap_handler \<Rightarrow> gap_handler" where
  "run_gap_op (RecordRange a b) h = record_missing_range a b h"
| "run_gap_op (RecordGap sq) h = record_gap sq h"
| "run_gap_op (MarkReceived sq) h = mark_received sq h"

fun missing_after :: "gap_op \<Rightarrow> u64 set \<Rightarrow> u64 set" where
  "missing_after (RecordRange a b) S = S \<union> {a..<b}"
| "missing_after (RecordGap sq) S = (if sq = - 1 then S else insert sq S)"
| "missing_after (MarkReceived sq) S = S - {sq}"

lemma single_range: "{sq..<sq + 1} = (if sq = - 1 then {} else {sq})" for sq :: u64
proof (cases "sq = - 1")
  case False
  then have "sq < - 1" by (simp add: word_order.not_eq_extremum)
  then show ?thesis using word_less_add1_iff [of sq] False by auto
qed simp

lemma run_gap_op_refines:
  "gaps_ok h \<Longrightarrow> gaps_ok (run_gap_op op h)
     \<and> covered (gaps (run_gap_op op h)) = missing_after op (covered (gaps h))"
  by (cases op)
    (auto simp: gap_ranges.note_inv gap_ranges.note_missing gap_ranges.clear_inv
      gap_ranges.clear_missing record_gap_def single_range)

text \<open>
  C6. The range map refines a set of sequence numbers: after any sequence of recordings and
  receipts it covers exactly the sequences recorded and not received since, as ascending, disjoint,
  non-adjacent, non-empty ranges. (A single gap at the last 64-bit number is the empty range, since
  its exclusive end wraps.)
\<close>

theorem gap_ops_refine_set:
  "gaps_ok (fold run_gap_op ops gap_handler_new)
   \<and> covered (gaps (fold run_gap_op ops gap_handler_new)) = fold missing_after ops {}"
proof -
  have "gaps_ok (fold run_gap_op ops h) \<and>
      covered (gaps (fold run_gap_op ops h)) = fold missing_after ops (covered (gaps h))"
    if "gaps_ok h" for h
    using that by (induction ops arbitrary: h) (auto simp: run_gap_op_refines)
  from this [of gap_handler_new] show ?thesis
    by (simp add: gap_handler_new_def gaps_ok_def ranges_ok_def covered_def)
qed

text \<open>
  C7. The re-requests partition the missing set: they cover exactly the missing sequences, in
  ascending order without overlap, each for at least one message and none past its range (so
  a count always fits the 16-bit field without truncation).
\<close>

theorem pending_gaps_partition:
  assumes "gaps_ok h"
  shows "(\<Union>r \<in> set (pending_gaps h). {start_seq r..<request_end r}) = covered (gaps h)
    \<and> sorted_wrt (\<lambda>p q. request_end p \<le> start_seq q) (pending_gaps h)
    \<and> (\<forall>r \<in> set (pending_gaps h). gap_count r \<noteq> 0 \<and>
          unat (request_end r) = unat (start_seq r) + unat (gap_count r))"
proof -
  have bounds: "start_seq r < request_end r \<and> gap_count r \<noteq> 0" if "r \<in> set (pending_gaps h)" for r
    using that unfolding pending_gaps_def by (auto dest!: range_chunks_bounds [rule_format])
  have "unat (request_end r) = unat (start_seq r) + unat (gap_count r)"
    if "start_seq r < request_end r" for r
    using that no_olen_add_nat [of "start_seq r" "ucast (gap_count r)"]
      unat_add_lem [of "start_seq r" "ucast (gap_count r)"]
    by (simp only: request_end_def order_less_imp_le unat_u16_as_u64 simp_thms)
  with bounds have "\<forall>r \<in> set (pending_gaps h). gap_count r \<noteq> 0 \<and>
      unat (request_end r) = unat (start_seq r) + unat (gap_count r)" by blast
  moreover have "sorted_wrt (\<lambda>p q. request_end p \<le> start_seq q) (pending_gaps h)"
    unfolding pending_gaps_def using assms [unfolded gaps_ok_def] by (rule pending_gaps_sorted)
  ultimately show ?thesis using gap_ranges.requests_cover [OF assms] by blast
qed

theorem pending_gaps_partition_witness:
  "(\<Union>r \<in> set (pending_gaps \<lparr>gaps = [(1, 3), (10, 70000)]\<rparr>). {start_seq r..<request_end r}) = {1..<3} \<union> {10..<70000}
   \<and> length (pending_gaps \<lparr>gaps = [(1, 3), (10, 70000)]\<rparr>) = 3"
proof -
  have ok: "gaps_ok \<lparr>gaps = [(1, 3), (10, 70000)]\<rparr>" by (simp add: gaps_ok_def ranges_ok_def)
  have "length (pending_gaps \<lparr>gaps = [(1, 3), (10, 70000)]\<rparr>) = 3"
    by (simp add: pending_gaps_def range_chunks_step u16_clamp_def)
  moreover have "covered [(1, 3), (10, 70000)] = {1..<3} \<union> {10..<70000}" by (simp add: covered_def)
  ultimately show ?thesis
    using pending_gaps_partition [OF ok, THEN conjunct1] by (simp only: gap_handler.simps)
qed

end
