(* ===== verification/Mold_Emitter.thy ===== *)
theory Mold_Emitter
  imports Mold_Gap
begin

text \<open>
  The rate-limited re-request emitter, \<^verbatim>\<open>GapRequestEmitter\<close> of
  \<^verbatim>\<open>crates/clients/moldudp/src/gap.rs\<close>.

  The socket is a parameter: a state and \<open>send_to\<close>, which returns the result and the new state.
  \<open>retain\<close> with its mutating closure is the left-to-right recursion \<open>absorb_requested\<close>. The interval
  \<^verbatim>\<open>Duration::from_secs(1) / n\<close> is division of \<open>10 ^ 9\<close> nanoseconds, rounded down as the standard
  library does.
\<close>

section \<open>Operations\<close>

type_synonym requested_range = "u64 \<times> u64 \<times> instant"

type_synonym 'q send_op = "'q \<Rightarrow> bytes \<Rightarrow> socket_addr \<Rightarrow> (transport_error + nat) \<times> 'q"

record emitter =
  server_addr :: socket_addr
  requested :: "requested_range list"
  max_per_gap_per_sec :: u32

definition emitter_new :: "socket_addr \<Rightarrow> u32 \<Rightarrow> emitter" where
  "emitter_new addr limit =
     \<lparr>server_addr = addr, requested = [], max_per_gap_per_sec = max limit 1\<rparr>"

definition encode_request_packet :: "bytes \<Rightarrow> u64 \<Rightarrow> u16 \<Rightarrow> bytes" where
  "encode_request_packet session start count = session @ u64_to_be_bytes start @ u16_to_be_bytes count"

fun absorb_requested :: "u64 \<Rightarrow> u64 \<Rightarrow> requested_range list \<Rightarrow> u64 \<times> u64 \<times> requested_range list" where
  "absorb_requested start stop [] = (start, stop, [])"
| "absorb_requested start stop ((s, e, t) # rs) =
     (if s > stop \<or> start > e
      then let (start', stop', kept) = absorb_requested start stop rs in (start', stop', (s, e, t) # kept)
      else absorb_requested (min start s) (max stop e) rs)"

definition mark_requested :: "u64 \<Rightarrow> u64 \<Rightarrow> instant \<Rightarrow> emitter \<Rightarrow> emitter" where
  "mark_requested start stop now em =
     (let (start', stop', kept) = absorb_requested start stop (requested em)
      in em\<lparr>requested := kept @ [(start', stop', now)]\<rparr>)"

definition emit_interval :: "emitter \<Rightarrow> duration" where
  "emit_interval em = 10 ^ 9 div unat (max_per_gap_per_sec em)"

definition would_block :: "transport_error + 'a \<Rightarrow> bool" where
  "would_block res \<longleftrightarrow> (case res of Inl (Io _ err) \<Rightarrow> error_kind err = WouldBlock | _ \<Rightarrow> False)"

definition covered_by :: "requested_range list \<Rightarrow> gap_request \<Rightarrow> bool" where
  "covered_by rs gap \<longleftrightarrow>
     (\<exists>(start, stop, _) \<in> set rs. start \<le> start_seq gap \<and> request_end gap \<le> stop)"

fun emit_loop ::
  "'q send_op \<Rightarrow> bytes \<Rightarrow> instant \<Rightarrow> gap_request list \<Rightarrow> nat \<Rightarrow> emitter \<Rightarrow> 'q \<Rightarrow> (mold_error + nat) \<times> emitter \<times> 'q" where
  "emit_loop send_to session now [] sent em sock = (Inr sent, em, sock)"
| "emit_loop send_to session now (gap # rest) sent em sock =
     (if covered_by (requested em) gap then emit_loop send_to session now rest sent em sock
      else case send_to sock (encode_request_packet session (start_seq gap) (gap_count gap)) (server_addr em) of
        (res, sock') \<Rightarrow>
          if would_block res then (Inr sent, em, sock')
          else let em' = mark_requested (start_seq gap) (request_end gap) now em in
            (case res of
               Inl e \<Rightarrow> (Inl (Transport e), em', sock')
             | Inr _ \<Rightarrow> emit_loop send_to session now rest (sent + 1) em' sock'))"

definition prune_requested :: "instant \<Rightarrow> emitter \<Rightarrow> emitter" where
  "prune_requested now em =
     em\<lparr>requested := filter (\<lambda>(_, _, at). now - at < emit_interval em) (requested em)\<rparr>"

definition emit ::
  "'q send_op \<Rightarrow> gap_request list \<Rightarrow> bytes \<Rightarrow> emitter \<Rightarrow> 'q \<Rightarrow> instant \<Rightarrow> (mold_error + nat) \<times> emitter \<times> 'q" where
  "emit send_to gs session em sock now =
     emit_loop send_to session now gs 0 (prune_requested now em) sock"

section \<open>The request packet\<close>

lemma encode_request_packet_header:
  "encode_request_packet session start count =
     encode_header session start count"
  by (simp add: encode_request_packet_def encode_header_def)

section \<open>The memory of requests\<close>

definition apart :: "requested_range \<Rightarrow> requested_range \<Rightarrow> bool" where
  "apart p q \<longleftrightarrow> (case p of (s, e, _) \<Rightarrow> case q of (s', e', _) \<Rightarrow> s > e' \<or> s' > e)"

definition requested_ok :: "requested_range list \<Rightarrow> bool" where
  "requested_ok rs \<longleftrightarrow> (\<forall>(s, e, _) \<in> set rs. s \<le> e) \<and> sorted_wrt apart rs"

lemma absorb_requested_mono:
  "absorb_requested a b rs = (a', b', kept) \<Longrightarrow>
     a' \<le> a \<and> b \<le> b' \<and> set kept \<subseteq> set rs
     \<and> (\<forall>s e t. (s, e, t) \<in> set rs \<longrightarrow> (s, e, t) \<in> set kept \<or> a' \<le> s \<and> e \<le> b')"
proof (induction a b rs arbitrary: a' b' kept rule: absorb_requested.induct)
  case (1 a b)
  then show ?case by simp
next
  case (2 a b s e t rs)
  show ?case
  proof (cases "s > b \<or> a > e")
    case True
    obtain kept' where k: "absorb_requested a b rs = (a', b', kept')" "kept = (s, e, t) # kept'"
      using "2.prems" True by (auto split: prod.splits)
    from "2.IH"(1) [OF True k(1)] show ?thesis unfolding k(2) by auto
  next
    case False
    have k: "absorb_requested (min a s) (max b e) rs = (a', b', kept)"
      using "2.prems" False by auto
    note IH = "2.IH"(2) [OF False k]
    have "a' \<le> a" "a' \<le> s" "b \<le> b'" "e \<le> b'" using IH by simp_all
    with IH show ?thesis by auto
  qed
qed

lemma absorb_requested_apart:
  "absorb_requested a b rs = (a', b', kept) \<Longrightarrow> a \<le> b \<Longrightarrow> requested_ok rs \<Longrightarrow>
     a' \<le> b' \<and> requested_ok kept \<and> (\<forall>p \<in> set kept. apart p (a', b', now))
     \<and> (\<forall>p. (case p of (s, e, _) \<Rightarrow> s \<le> e) \<longrightarrow> apart p (a, b, now) \<longrightarrow> (\<forall>q \<in> set rs. apart p q) \<longrightarrow> apart p (a', b', now))"
proof (induction a b rs arbitrary: a' b' kept rule: absorb_requested.induct)
  case (1 a b)
  then show ?case by (simp add: requested_ok_def)
next
  case (2 a b s e t rs)
  have ok: "requested_ok rs" "s \<le> e" and ap: "\<forall>q \<in> set rs. apart (s, e, t) q"
    using "2.prems"(3) by (auto simp: requested_ok_def)
  show ?case
  proof (cases "s > b \<or> a > e")
    case True
    obtain kept' where k: "absorb_requested a b rs = (a', b', kept')" "kept = (s, e, t) # kept'"
      using "2.prems"(1) True by (auto split: prod.splits)
    note IH = "2.IH"(1) [OF True k(1) "2.prems"(2) ok(1)]
    have sub: "set kept' \<subseteq> set rs" using absorb_requested_mono [OF k(1)] by blast
    have "apart (s, e, t) (a, b, now)" using True by (auto simp: apart_def)
    with IH ok ap have "apart (s, e, t) (a', b', now)" by simp
    with IH ok ap sub show ?thesis unfolding k(2) by (auto simp: requested_ok_def)
  next
    case False
    have k: "absorb_requested (min a s) (max b e) rs = (a', b', kept)"
      using "2.prems"(1) False by auto
    have "min a s \<le> max b e" using "2.prems"(2) by (simp add: min_le_iff_disj le_max_iff_disj)
    note IH = "2.IH"(2) [OF False k this ok(1)]
    have "apart (s', e', t') (min a s, max b e, now)"
      if "s' \<le> e'" "apart (s', e', t') (a, b, now)" "apart (s', e', t') (s, e, t)" for s' e' t'
      using that False "2.prems"(2) ok(2) by (auto simp: apart_def min_def max_def)
    with IH show ?thesis by auto
  qed
qed

lemma mark_requested_ok:
  "requested_ok (requested em) \<Longrightarrow> a \<le> b \<Longrightarrow> requested_ok (requested (mark_requested a b now em))"
  using absorb_requested_apart [of a b "requested em" _ _ _ now]
  by (fastforce simp: mark_requested_def requested_ok_def sorted_wrt_append split: prod.splits)

definition stamped :: "instant \<Rightarrow> requested_range list \<Rightarrow> gap_request \<Rightarrow> bool" where
  "stamped now rs gap \<longleftrightarrow> covered_by (filter (\<lambda>(_, _, t). t = now) rs) gap"

lemma stamped_iff:
  "stamped now rs gap \<longleftrightarrow> (\<exists>s e. (s, e, now) \<in> set rs \<and> s \<le> start_seq gap \<and> request_end gap \<le> e)"
  by (force simp: stamped_def covered_by_def)

lemma covered_by_iff:
  "covered_by rs gap \<longleftrightarrow> (\<exists>s e t. (s, e, t) \<in> set rs \<and> s \<le> start_seq gap \<and> request_end gap \<le> e)"
  by (force simp: covered_by_def)

lemma mark_requested_shape:
  obtains a' b' kept where "requested (mark_requested a b now em) = kept @ [(a', b', now)]"
    "a' \<le> a" "b \<le> b'" "set kept \<subseteq> set (requested em)"
    "\<And>s e t. (s, e, t) \<in> set (requested em) \<Longrightarrow> (s, e, t) \<in> set kept \<or> a' \<le> s \<and> e \<le> b'"
proof -
  obtain a' b' kept where k: "absorb_requested a b (requested em) = (a', b', kept)"
    by (rule prod_cases3)
  have "requested (mark_requested a b now em) = kept @ [(a', b', now)]"
    using k by (simp add: mark_requested_def)
  with absorb_requested_mono [OF k] that show ?thesis by blast
qed

lemma mark_requested_stamps:
  "start_seq g = a \<Longrightarrow> request_end g = b \<Longrightarrow> stamped now (requested (mark_requested a b now em)) g"
  by (rule mark_requested_shape [of a b now em]) (auto simp: stamped_iff)

lemma mark_requested_keeps:
  assumes "stamped now (requested em) g"
  shows "stamped now (requested (mark_requested a b now em)) g"
proof (rule mark_requested_shape [of a b now em])
  fix a' b' kept
  assume k: "requested (mark_requested a b now em) = kept @ [(a', b', now)]"
    and old: "\<And>s e t. (s, e, t) \<in> set (requested em) \<Longrightarrow> (s, e, t) \<in> set kept \<or> a' \<le> s \<and> e \<le> b'"
  from assms obtain s e where s: "(s, e, now) \<in> set (requested em)" "s \<le> start_seq g" "request_end g \<le> e"
    unfolding stamped_iff by blast
  from old [OF s(1)] show ?thesis
  proof
    assume "(s, e, now) \<in> set kept"
    with s show ?thesis unfolding stamped_iff k by auto
  next
    assume "a' \<le> s \<and> e \<le> b'"
    then have "a' \<le> start_seq g" "request_end g \<le> b'" using s(2,3) order_trans by blast+
    then show ?thesis unfolding stamped_iff k by auto
  qed
qed

lemma mark_requested_new_cover:
  assumes "covered_by (requested (mark_requested a b now em)) g"
  shows "covered_by (requested em) g \<or> stamped now (requested (mark_requested a b now em)) g"
proof (rule mark_requested_shape [of a b now em])
  fix a' b' kept
  assume k: "requested (mark_requested a b now em) = kept @ [(a', b', now)]"
    and "set kept \<subseteq> set (requested em)"
  with assms show ?thesis unfolding covered_by_iff stamped_iff k by auto
qed

lemma mark_requested_fields [simp]:
  "server_addr (mark_requested a b now em) = server_addr em"
  "max_per_gap_per_sec (mark_requested a b now em) = max_per_gap_per_sec em"
  "emit_interval (mark_requested a b now em) = emit_interval em"
  by (simp_all add: mark_requested_def emit_interval_def split: prod.splits)

section \<open>One round\<close>

lemma emit_loop_all_covered:
  "(\<forall>g \<in> set gs. covered_by (requested em) g) \<Longrightarrow> emit_loop send_to sess now gs sent em sock = (Inr sent, em, sock)"
  by (induction gs) auto

lemma emit_loop_stamps:
  assumes "\<And>sk pkt addr. \<not> would_block (fst (send_to sk pkt addr))"
  shows "emit_loop send_to sess now gs sent em sock = (Inr n, em', sock') \<Longrightarrow>
    emit_interval em' = emit_interval em
    \<and> (\<forall>g. stamped now (requested em) g \<longrightarrow> stamped now (requested em') g)
    \<and> (\<forall>g \<in> set gs. \<not> covered_by (requested em) g \<longrightarrow> stamped now (requested em') g)"
proof (induction gs arbitrary: sent em sock)
  case Nil
  then show ?case by simp
next
  case (Cons gap gs)
  show ?case
  proof (cases "covered_by (requested em) gap")
    case True
    with Cons.prems Cons.IH show ?thesis by auto
  next
    case False
    obtain res sk where s: "send_to sock (encode_request_packet sess (start_seq gap) (gap_count gap)) (server_addr em) = (res, sk)"
      by (rule prod.exhaust)
    have "\<not> would_block res" using assms s by (metis fst_conv)
    let ?em = "mark_requested (start_seq gap) (request_end gap) now em"
    have "emit_loop send_to sess now gs (sent + 1) ?em sk = (Inr n, em', sock')"
      using Cons.prems False s \<open>\<not> would_block res\<close> by (auto simp: Let_def split: sum.splits)
    note IH = Cons.IH [OF this]
    have "stamped now (requested em') g" if "g \<in> set gs" "\<not> covered_by (requested em) g" for g
      using IH that mark_requested_new_cover [of "start_seq gap" "request_end gap" now em g] by blast
    moreover have "stamped now (requested em') gap"
      using IH mark_requested_stamps [OF refl refl] by blast
    ultimately show ?thesis using IH mark_requested_keeps by auto
  qed
qed

section \<open>Several rounds\<close>

text \<open>
  The emitter remembers a gap since \<open>t\<close> while one entry stamped no earlier than \<open>t\<close> covers it.
  Later rounds may widen that entry and refresh its stamp, never shrink it or age it.
\<close>

definition remembers :: "instant \<Rightarrow> emitter \<Rightarrow> gap_request \<Rightarrow> bool" where
  "remembers t em gap \<longleftrightarrow>
     covered_by (filter (\<lambda>(_, _, at). t \<le> at) (requested em)) gap"

lemma remembers_iff:
  "remembers t em gap \<longleftrightarrow> (\<exists>s e at. (s, e, at) \<in> set (requested em) \<and> t \<le> at
     \<and> s \<le> start_seq gap \<and> request_end gap \<le> e)"
  by (force simp: remembers_def covered_by_def)

lemma stamped_remembers: "stamped now (requested em) g \<Longrightarrow> remembers now em g"
  by (auto simp: stamped_iff remembers_iff)

lemma remembers_covered: "remembers t em g \<Longrightarrow> covered_by (requested em) g"
  by (auto simp: remembers_iff covered_by_iff)

lemma prune_fields [simp]:
  "emit_interval (prune_requested now em) = emit_interval em"
  "server_addr (prune_requested now em) = server_addr em"
  by (simp_all add: prune_requested_def emit_interval_def)

lemma prune_remembers:
  "remembers t em g \<Longrightarrow> now - t < emit_interval em \<Longrightarrow> remembers t (prune_requested now em) g"
  unfolding remembers_iff prune_requested_def by fastforce

lemma mark_requested_remembers:
  assumes "remembers t em g" "t \<le> now"
  shows "remembers t (mark_requested a b now em) g"
proof (rule mark_requested_shape [of a b now em])
  fix a' b' kept
  assume k: "requested (mark_requested a b now em) = kept @ [(a', b', now)]"
    and old: "\<And>s e t. (s, e, t) \<in> set (requested em) \<Longrightarrow> (s, e, t) \<in> set kept \<or> a' \<le> s \<and> e \<le> b'"
  from assms(1) obtain s e at where s: "(s, e, at) \<in> set (requested em)" "t \<le> at"
    "s \<le> start_seq g" "request_end g \<le> e"
    unfolding remembers_iff by blast
  from old [OF s(1)] show ?thesis
  proof
    assume "(s, e, at) \<in> set kept"
    with s show ?thesis unfolding remembers_iff k by auto
  next
    assume "a' \<le> s \<and> e \<le> b'"
    then have "a' \<le> start_seq g" "request_end g \<le> b'" using s(3,4) order_trans by blast+
    with assms(2) show ?thesis unfolding remembers_iff k by auto
  qed
qed

lemma emit_loop_remembers:
  "emit_loop send_to sess now gs sent em sock = (res, em', sock') \<Longrightarrow> t \<le> now \<Longrightarrow>
     emit_interval em' = emit_interval em \<and> (remembers t em g \<longrightarrow> remembers t em' g)"
proof (induction gs arbitrary: sent em sock)
  case Nil
  then show ?case by simp
next
  case (Cons gap gs)
  have step: "remembers t em g \<longrightarrow> remembers t (mark_requested (start_seq gap) (request_end gap) now em) g"
    using mark_requested_remembers Cons.prems(2) by blast
  show ?case
    using Cons.prems(1) step
      Cons.IH [OF _ Cons.prems(2), of sent em sock]
      Cons.IH [OF _ Cons.prems(2), of "sent + 1" "mark_requested (start_seq gap) (request_end gap) now em"]
    by (auto simp: Let_def split: if_splits sum.splits prod.splits)
qed

lemma emit_remembers:
  assumes "emit send_to gs sess em sock now = (res, em', sock')" "t \<le> now" "now - t < emit_interval em"
  shows "emit_interval em' = emit_interval em \<and> (remembers t em g \<longrightarrow> remembers t em' g)"
  using emit_loop_remembers [OF assms(1) [unfolded emit_def] assms(2), of g] prune_remembers assms(3)
  by auto

text \<open>Consecutive calls on one emitter and socket; the results of the earlier ones are dropped.\<close>

fun emit_rounds :: "'q send_op \<Rightarrow> bytes \<Rightarrow> (gap_request list \<times> instant) list \<Rightarrow> emitter \<times> 'q \<Rightarrow> emitter \<times> 'q" where
  "emit_rounds send_to sess [] st = st"
| "emit_rounds send_to sess ((gs, now) # rounds) (em, sock) =
     emit_rounds send_to sess rounds (snd (emit send_to gs sess em sock now))"

lemma emit_rounds_remembers:
  assumes "emit_rounds send_to sess rounds (em, sock) = (em', sock')"
    and "\<And>gs now. (gs, now) \<in> set rounds \<Longrightarrow> t \<le> now \<and> now - t < emit_interval em"
    and "remembers t em g"
  shows "emit_interval em' = emit_interval em \<and> remembers t em' g"
  using assms
proof (induction rounds arbitrary: em sock)
  case Nil
  then show ?case by simp
next
  case (Cons r rounds)
  obtain gs now where r: "r = (gs, now)" by (rule prod.exhaust)
  obtain res em1 sock1 where e: "emit send_to gs sess em sock now = (res, em1, sock1)"
    by (rule prod_cases3)
  from emit_remembers [OF e, of t g] Cons.prems(2,3) r
  have m: "emit_interval em1 = emit_interval em" "remembers t em1 g" by auto
  have "emit_rounds send_to sess rounds (em1, sock1) = (em', sock')"
    using Cons.prems(1) by (simp add: r e)
  moreover have "t \<le> at \<and> at - t < emit_interval em1" if "(hs, at) \<in> set rounds" for hs at
    using Cons.prems(2) [of hs at] that m(1) by simp
  ultimately show ?case using Cons.IH [OF _ _ m(2)] m(1) by auto
qed

definition within_gap :: "gap_request \<Rightarrow> gap_request \<Rightarrow> bool" where
  "within_gap h g \<longleftrightarrow> start_seq g \<le> start_seq h \<and> request_end h \<le> request_end g"

lemma emit_silent:
  assumes "remembers t em g" "now - t < emit_interval em" "\<forall>h \<in> set gs. within_gap h g"
  shows "emit send_to gs sess em sock now = (Inr 0, prune_requested now em, sock)"
proof -
  have "remembers t (prune_requested now em) h" if "h \<in> set gs" for h
    using prune_remembers [OF assms(1,2)] assms(3) that
    unfolding remembers_iff within_gap_def by (meson order_trans)
  then show ?thesis
    unfolding emit_def by (intro emit_loop_all_covered) (blast dest: remembers_covered)
qed

section \<open>Properties\<close>


text \<open>A socket that accepts everything and logs what it sent.\<close>

definition log_send :: "bytes list send_op" where
  "log_send sock pkt addr = (Inr (length pkt), sock @ [pkt])"

definition demo_emitter :: emitter where
  "demo_emitter = emitter_new (AddrV4 127 0 0 1 9000) 2"

lemmas emit_eval = emit_def emit_interval_def prune_requested_def mark_requested_def covered_by_def
  would_block_def request_end_def log_send_def demo_emitter_def emitter_new_def


text \<open>
  C9. The request packet is 20 bytes, and a server that reads it with the downstream header's layout
  finds the session, the first missing sequence and the count.
\<close>

theorem request_packet_roundtrip:
  assumes "length session = 10"
  shows "length (encode_request_packet session start count) = 20
    \<and> parse_header (encode_request_packet session start count) =
        Inr \<lparr>session_id = session, sequence_no = start, message_count = count\<rparr>"
  using assms parse_header_encoded [of session "[]" start count]
  by (simp add: encode_request_packet_header)

theorem request_packet_roundtrip_witness:
  "length (encode_request_packet (replicate 10 65) 7 3) = 20
    \<and> parse_header (encode_request_packet (replicate 10 65) 7 3) =
        Inr \<lparr>session_id = replicate 10 65, sequence_no = 7, message_count = 3\<rparr>"
  by (rule request_packet_roundtrip) simp

text \<open>
  C10. Every round keeps the remembered ranges pairwise disjoint and non-adjacent, provided the gaps it
  is given do not run past the last sequence number.
\<close>

theorem emit_keeps_ranges_apart:
  assumes "requested_ok (requested em)" "\<And>g. g \<in> set gs \<Longrightarrow> start_seq g \<le> request_end g"
  shows "requested_ok (requested (fst (snd (emit send_to gs sess em sock now))))"
proof -
  have loop: "requested_ok (requested (fst (snd (emit_loop send_to sess now gs sent em sock))))"
    if "requested_ok (requested em)" for sent em sock
    using assms(2) that
    by (induction gs arbitrary: sent em sock)
      (simp_all add: mark_requested_ok Let_def split: sum.splits prod.splits)
  have "requested_ok (requested (prune_requested now em))"
    using assms(1) by (auto simp: requested_ok_def prune_requested_def sorted_wrt_filter)
  then show ?thesis unfolding emit_def by (rule loop)
qed

theorem emit_keeps_ranges_apart_witness:
  "requested_ok (requested (fst (snd (emit log_send [\<lparr>start_seq = 10, gap_count = 10\<rparr>] [] demo_emitter [] 100))))"
  by (rule emit_keeps_ranges_apart) (simp_all add: emit_eval requested_ok_def)

end
