(* ===== verification/Mold_Arbiter.thy ===== *)
theory Mold_Arbiter
  imports Transport_Core
begin

text \<open>
  The A/B arbiter of \<^verbatim>\<open>crates/clients/moldudp/src/ab.rs\<close>: a sliding bitmap window that dedupes
  redundant legs and stages gap candidates until their confirm window has elapsed.

  The \<^verbatim>\<open>HashMap<u64, Instant>\<close> of candidates is an association list with distinct keys (its iteration
  order is not observable: the one consumer sorts). The bitmap is a list of booleans indexed by
  \<open>seq mod capacity\<close>. Loops over sequences are recursions on the loop variable.

  What the receiver relies on is stated over the ghost set of sequences delivered so far, carried by the
  inductive relation \<open>arb_reach\<close>.
\<close>

section \<open>State\<close>

datatype arbiter_verdict = Forward | Duplicate | OutOfWindow

record stream_stats =
  packets_won :: u64
  packets_lost_to_peer :: u64
  last_recv_at :: "instant option"
  max_seq_seen :: u64
  sequences_behind_leader :: u64

definition stream_stats_default :: stream_stats where
  "stream_stats_default = \<lparr>packets_won = 0, packets_lost_to_peer = 0, last_recv_at = None,
     max_seq_seen = 0, sequences_behind_leader = 0\<rparr>"

record arbiter =
  window_base :: u64
  window_bits :: "bool list"
  arb_streams :: "stream_stats list"
  gap_confirm_window_ms :: u64
  pending_gap_confirms :: "(u64 \<times> instant) list"

text \<open>\<^verbatim>\<open>new\<close> panics on a zero window: no value.\<close>

definition arbiter_new :: "nat \<Rightarrow> nat \<Rightarrow> u64 \<Rightarrow> arbiter option" where
  "arbiter_new stream_count cap ms =
     (if cap = 0 then None
      else Some \<lparr>window_base = 0, window_bits = replicate cap False,
                 arb_streams = replicate stream_count stream_stats_default,
                 gap_confirm_window_ms = ms, pending_gap_confirms = []\<rparr>)"

section \<open>Operations\<close>

definition or_insert :: "u64 \<Rightarrow> instant \<Rightarrow> (u64 \<times> instant) list \<Rightarrow> (u64 \<times> instant) list" where
  "or_insert sq now m = (if map_of m sq = None then (sq, now) # m else m)"

definition map_remove :: "u64 \<Rightarrow> (u64 \<times> instant) list \<Rightarrow> (u64 \<times> instant) list" where
  "map_remove sq m = filter (\<lambda>(k, _). k \<noteq> sq) m"

definition arb_capacity :: "arbiter \<Rightarrow> u64" where
  "arb_capacity a = of_nat (length (window_bits a))"

definition arb_idx :: "arbiter \<Rightarrow> u64 \<Rightarrow> nat" where
  "arb_idx a sq = unat (sq mod arb_capacity a)"

definition rebase :: "u64 \<Rightarrow> arbiter \<Rightarrow> arbiter" where
  "rebase base a = a\<lparr>window_base := base,
     window_bits := replicate (length (window_bits a)) False, pending_gap_confirms := []\<rparr>"

definition note_missing :: "instant \<Rightarrow> u64 \<Rightarrow> arbiter \<Rightarrow> arbiter" where
  "note_missing now sq a =
     (if window_base a \<le> sq \<and> sq < window_base a + arb_capacity a \<and> window_bits a ! arb_idx a sq
      then a
      else a\<lparr>pending_gap_confirms := or_insert sq now (pending_gap_confirms a)\<rparr>)"

function note_missing_range :: "u64 \<Rightarrow> u64 \<Rightarrow> instant \<Rightarrow> arbiter \<Rightarrow> arbiter" where
  "note_missing_range start stop now a =
     (if start < stop then note_missing_range (start + 1) stop now (note_missing now start a) else a)"
  by pat_completeness auto
termination
  by (relation "measure (\<lambda>(start, stop, _, _). unat stop - unat start)")
    (auto simp: unat_add1_no_overflow word_less_nat_alt diff_less_mono2)

declare note_missing_range.simps [simp del]

definition leader_max :: "stream_stats list \<Rightarrow> u64" where
  "leader_max ss = foldl max 0 (map max_seq_seen ss)"

definition recompute_leader_lag :: "stream_stats list \<Rightarrow> stream_stats list" where
  "recompute_leader_lag ss =
     map (\<lambda>s. s\<lparr>sequences_behind_leader :=
       (if max_seq_seen s \<le> leader_max ss then leader_max ss - max_seq_seen s else 0)\<rparr>) ss"

definition bump_stats :: "u64 \<Rightarrow> instant \<Rightarrow> bool \<Rightarrow> stream_stats \<Rightarrow> stream_stats" where
  "bump_stats sq now lost s =
     (if lost then s\<lparr>packets_lost_to_peer := packets_lost_to_peer s + 1\<rparr>
      else s\<lparr>packets_won := packets_won s + 1\<rparr>)
     \<lparr>last_recv_at := Some now, max_seq_seen := max (max_seq_seen s) sq\<rparr>"

definition record_delivery :: "u8 \<Rightarrow> u64 \<Rightarrow> instant \<Rightarrow> bool \<Rightarrow> arbiter \<Rightarrow> arbiter" where
  "record_delivery sid sq now lost a =
     (if unat sid < length (arb_streams a)
      then a\<lparr>arb_streams := recompute_leader_lag
              ((arb_streams a)[unat sid := bump_stats sq now lost (arb_streams a ! unat sid)])\<rparr>
      else a)"

definition slide_step :: "instant \<Rightarrow> arbiter \<Rightarrow> arbiter" where
  "slide_step now a =
     (let idx = arb_idx a (window_base a) in
      a\<lparr>pending_gap_confirms :=
          (if window_bits a ! idx then pending_gap_confirms a
           else or_insert (window_base a) now (pending_gap_confirms a)),
        window_bits := (window_bits a)[idx := False],
        window_base := window_base a + 1\<rparr>)"

lemma slide_step_base [simp]: "window_base (slide_step now a) = window_base a + 1"
  by (simp add: slide_step_def Let_def)

function slide :: "u64 \<Rightarrow> instant \<Rightarrow> arbiter \<Rightarrow> arbiter" where
  "slide target now a =
     (if window_base a < target then slide target now (slide_step now a) else a)"
  by pat_completeness auto
termination
  by (relation "measure (\<lambda>(target, _, a). unat target - unat (window_base a))")
    (auto simp: unat_add1_no_overflow word_less_nat_alt diff_less_mono2)

declare slide.simps [simp del]

lemma slide_unfold:
  "window_base a < target \<Longrightarrow> slide target now a = slide target now (slide_step now a)"
  "\<not> window_base a < target \<Longrightarrow> slide target now a = a"
  by (simp_all add: slide.simps [of target now a])

definition observe :: "u8 \<Rightarrow> u64 \<Rightarrow> instant \<Rightarrow> arbiter \<Rightarrow> arbiter_verdict \<times> arbiter" where
  "observe sid sq now a =
     (if sq < window_base a then
        (if map_of (pending_gap_confirms a) sq \<noteq> None then
           (Forward, record_delivery sid sq now False
              (a\<lparr>pending_gap_confirms := map_remove sq (pending_gap_confirms a)\<rparr>))
         else (OutOfWindow, a))
      else
        let a1 = (if window_base a + arb_capacity a \<le> sq
                  then slide (sq - arb_capacity a + 1) now a else a);
            idx = arb_idx a1 sq in
        if window_bits a1 ! idx then (Duplicate, record_delivery sid sq now True a1)
        else (Forward, record_delivery sid sq now False
               (a1\<lparr>window_bits := (window_bits a1)[idx := True],
                   pending_gap_confirms := map_remove sq (pending_gap_confirms a1)\<rparr>)))"

text \<open>\<^verbatim>\<open>Duration::from_millis\<close> in nanoseconds.\<close>

definition gap_elapsed :: "instant \<Rightarrow> arbiter \<Rightarrow> instant \<Rightarrow> bool" where
  "gap_elapsed now a first_seen \<longleftrightarrow> now - first_seen \<ge> unat (gap_confirm_window_ms a) * 10 ^ 6"

definition confirmed_gaps :: "instant \<Rightarrow> arbiter \<Rightarrow> u64 list \<times> arbiter" where
  "confirmed_gaps now a =
     (let confirmed = sort (map fst (filter (\<lambda>(_, t). gap_elapsed now a t) (pending_gap_confirms a)))
      in (confirmed, a\<lparr>pending_gap_confirms := fold map_remove confirmed (pending_gap_confirms a)\<rparr>))"

definition arbiter_stats :: "arbiter \<Rightarrow> stream_stats list" where
  "arbiter_stats a = arb_streams a"

section \<open>The candidate map\<close>

lemma map_of_or_insert:
  "map_of (or_insert sq now m) = (map_of m)(sq \<mapsto> (case map_of m sq of None \<Rightarrow> now | Some t \<Rightarrow> t))"
  by (auto simp: or_insert_def fun_eq_iff)

lemma map_of_map_remove [simp]: "map_of (map_remove sq m) = (map_of m)(sq := None)"
  by (induction m) (auto simp: map_remove_def fun_eq_iff)

lemma distinct_or_insert: "distinct (map fst m) \<Longrightarrow> distinct (map fst (or_insert sq now m))"
  by (simp add: or_insert_def map_of_eq_None_iff)

lemma distinct_map_remove: "distinct (map fst m) \<Longrightarrow> distinct (map fst (map_remove sq m))"
  by (simp add: map_remove_def distinct_map_filter)

lemma map_of_fold_remove: "map_of (fold map_remove sqs m) k = (if k \<in> set sqs then None else map_of m k)"
  by (induction sqs arbitrary: m) auto

lemma distinct_fold_remove: "distinct (map fst m) \<Longrightarrow> distinct (map fst (fold map_remove sqs m))"
  by (induction sqs arbitrary: m) (simp_all add: distinct_map_remove)

section \<open>Invariant over the delivered set\<close>

text \<open>
  \<open>arb_inv a D\<close>: \<open>D\<close> is the set of sequences forwarded so far. Inside the window the bitmap is \<open>D\<close>,
  nothing of \<open>D\<close> lies past it, and no delivered sequence is a gap candidate. The window never runs
  past the 64-bit sequence space.
\<close>

definition arb_shape :: "arbiter \<Rightarrow> bool" where
  "arb_shape a \<longleftrightarrow> window_bits a \<noteq> []
     \<and> unat (window_base a) + length (window_bits a) < 2 ^ 64
     \<and> distinct (map fst (pending_gap_confirms a))"

definition in_span :: "arbiter \<Rightarrow> u64 \<Rightarrow> bool" where
  "in_span a sq \<longleftrightarrow> window_base a \<le> sq \<and> unat sq < unat (window_base a) + length (window_bits a)"

definition arb_inv :: "arbiter \<Rightarrow> u64 set \<Rightarrow> bool" where
  "arb_inv a D \<longleftrightarrow> arb_shape a
     \<and> (\<forall>sq. in_span a sq \<longrightarrow> window_bits a ! (unat sq mod length (window_bits a)) = (sq \<in> D))
     \<and> (\<forall>sq \<in> D. unat sq < unat (window_base a) + length (window_bits a))
     \<and> (\<forall>sq \<in> D. map_of (pending_gap_confirms a) sq = None)"

lemma arb_capacity_unat: "arb_shape a \<Longrightarrow> unat (arb_capacity a) = length (window_bits a)"
  by (simp add: arb_shape_def arb_capacity_def unat_of_nat)

lemma arb_idx_eq: "arb_shape a \<Longrightarrow> arb_idx a sq = unat sq mod length (window_bits a)"
  by (simp add: arb_idx_def unat_mod_distrib arb_capacity_unat)

lemma arb_window_end:
  "arb_shape a \<Longrightarrow> unat (window_base a + arb_capacity a) = unat (window_base a) + length (window_bits a)"
  using arb_capacity_unat [of a] unat_add_lem [of "window_base a" "arb_capacity a"]
  by (simp add: arb_shape_def)

lemma in_span_same_slot:
  assumes "in_span a s" "in_span a t" "unat s mod length (window_bits a) = unat t mod length (window_bits a)"
  shows "s = t"
proof -
  have "unat s = unat t"
    using assms mod_window_inj [of "unat (window_base a)" "unat s" "length (window_bits a)" "unat t"]
    by (simp add: in_span_def word_le_nat_alt)
  then show ?thesis by (simp add: word_unat_eq_iff)
qed

lemma slide_step_inv:
  assumes "arb_inv a D" "unat (window_base a) + 1 + length (window_bits a) < 2 ^ 64"
  shows "arb_inv (slide_step now a) D"
proof -
  let ?b = "window_base a" and ?n = "length (window_bits a)" and ?a = "slide_step now a"
  have sh: "arb_shape a" using assms(1) by (simp add: arb_inv_def)
  then have n: "0 < ?n" by (simp add: arb_shape_def)
  have up: "unat (?b + 1) = unat ?b + 1"
    using assms(2) n by (intro unat_add1_no_overflow [of _ "- 1"]) (simp add: word_less_nat_alt unat_minus_one_word)
  have here: "in_span a ?b" using n by (simp add: in_span_def)
  have bit: "window_bits a ! (unat ?b mod ?n) = (?b \<in> D)" using assms(1) here by (simp add: arb_inv_def)
  have bits: "window_bits ?a = (window_bits a)[unat ?b mod ?n := False]"
    and pend: "pending_gap_confirms ?a = (if ?b \<in> D then pending_gap_confirms a
      else or_insert ?b now (pending_gap_confirms a))"
    using bit by (simp_all add: slide_step_def Let_def arb_idx_eq [OF sh])
  have shape: "arb_shape ?a"
    using sh assms(2) by (simp add: arb_shape_def bits pend up distinct_or_insert)
  have "window_bits ?a ! (unat sq mod ?n) = (sq \<in> D)" if sp: "in_span ?a sq" for sq
  proof (cases "in_span a sq")
    case True
    have "sq \<noteq> ?b" using sp up by (auto simp: in_span_def word_le_nat_alt)
    with in_span_same_slot [OF True here] have "unat sq mod ?n \<noteq> unat ?b mod ?n" by blast
    with True assms(1) show ?thesis by (simp add: bits arb_inv_def)
  next
    case False
    with sp up have "unat sq = unat ?b + ?n" by (simp add: in_span_def word_le_nat_alt bits)
    moreover from this have "sq \<notin> D" using assms(1) by (auto simp: arb_inv_def)
    ultimately show ?thesis using n by (simp add: bits)
  qed
  moreover have "map_of (pending_gap_confirms ?a) sq = None" if "sq \<in> D" for sq
    using assms(1) that by (auto simp: pend map_of_or_insert arb_inv_def)
  ultimately show ?thesis
    using shape assms(1) up by (auto simp: arb_inv_def bits intro: less_SucI)
qed

lemma slide_step_frame [simp]:
  "length (window_bits (slide_step now a)) = length (window_bits a)"
  "arb_streams (slide_step now a) = arb_streams a"
  "gap_confirm_window_ms (slide_step now a) = gap_confirm_window_ms a"
  by (simp_all add: slide_step_def Let_def)

lemma slide_inv:
  "arb_inv a D \<Longrightarrow> window_base a \<le> target \<Longrightarrow> unat target + length (window_bits a) < 2 ^ 64 \<Longrightarrow>
   arb_inv (slide target now a) D \<and> window_base (slide target now a) = target
   \<and> length (window_bits (slide target now a)) = length (window_bits a)
   \<and> arb_streams (slide target now a) = arb_streams a"
proof (induction target now a rule: slide.induct)
  case (1 target now a)
  show ?case
  proof (cases "window_base a < target")
    case True
    have up: "unat (window_base a + 1) = unat (window_base a) + 1" by (rule unat_add1_no_overflow [OF True])
    then have le: "window_base a + 1 \<le> target" using True by (simp add: word_le_nat_alt word_less_nat_alt)
    have inv: "arb_inv (slide_step now a) D"
      using "1.prems"(1,3) True by (intro slide_step_inv) (simp_all add: word_less_nat_alt)
    from "1.IH" [OF True inv] le "1.prems"(3) show ?thesis by (simp add: slide.simps [of target now a] True)
  next
    case False
    with "1.prems" show ?thesis by (simp add: slide.simps [of target now a])
  qed
qed

lemma record_delivery_frame [simp]:
  "window_base (record_delivery sid sq now lost a) = window_base a"
  "window_bits (record_delivery sid sq now lost a) = window_bits a"
  "pending_gap_confirms (record_delivery sid sq now lost a) = pending_gap_confirms a"
  "gap_confirm_window_ms (record_delivery sid sq now lost a) = gap_confirm_window_ms a"
  by (simp_all add: record_delivery_def)

lemma arb_inv_streams [simp]: "arb_inv (record_delivery sid sq now lost a) D = arb_inv a D"
  by (simp add: arb_inv_def arb_shape_def in_span_def)

text \<open>The window \<open>observe\<close> works on: slid so that it ends with the sequence when that was beyond it.\<close>

definition slid_to :: "u64 \<Rightarrow> instant \<Rightarrow> arbiter \<Rightarrow> arbiter" where
  "slid_to sq now a = (if window_base a + arb_capacity a \<le> sq
     then slide (sq - arb_capacity a + 1) now a else a)"

lemma slid_to_inv:
  assumes "arb_inv a D" "window_base a \<le> sq" "sq < - 1"
  shows "arb_inv (slid_to sq now a) D" "in_span (slid_to sq now a) sq"
    "arb_streams (slid_to sq now a) = arb_streams a"
proof -
  let ?n = "length (window_bits a)" and ?t = "sq - arb_capacity a + 1"
  have sh: "arb_shape a" using assms(1) by (simp add: arb_inv_def)
  then have n: "0 < ?n" by (simp add: arb_shape_def)
  have ms: "unat sq < 2 ^ 64 - 1" using assms(3) by (simp add: word_less_nat_alt unat_minus_one_word)
  have all: "arb_inv (slid_to sq now a) D \<and> in_span (slid_to sq now a) sq
      \<and> arb_streams (slid_to sq now a) = arb_streams a"
  proof (cases "window_base a + arb_capacity a \<le> sq")
    case True
    then have far: "unat (window_base a) + ?n \<le> unat sq"
      using arb_window_end [OF sh] by (simp add: word_le_nat_alt)
    then have "arb_capacity a \<le> sq" using arb_capacity_unat [OF sh] by (simp add: word_le_nat_alt)
    then have d: "unat (sq - arb_capacity a) = unat sq - ?n"
      using arb_capacity_unat [OF sh] by (simp add: unat_sub)
    have "sq - arb_capacity a < - 1" using d ms n by (simp add: word_less_nat_alt unat_minus_one_word)
    then have t: "unat ?t = unat sq - ?n + 1" using d unat_add1_no_overflow by metis
    have le: "window_base a \<le> ?t" using t far by (simp add: word_le_nat_alt)
    have fit: "unat ?t + ?n < 2 ^ 64" using t far ms by linarith
    have eq: "slid_to sq now a = slide ?t now a" using True by (simp add: slid_to_def)
    have "unat ?t \<le> unat sq" "unat sq < unat ?t + ?n" using t far n by linarith+
    with slide_inv [OF assms(1) le fit, of now] show ?thesis
      unfolding eq by (simp add: in_span_def word_le_nat_alt)
  next
    case False
    with assms(1,2) arb_window_end [OF sh] show ?thesis
      by (simp add: slid_to_def in_span_def word_le_nat_alt)
  qed
  then show "arb_inv (slid_to sq now a) D" "in_span (slid_to sq now a) sq"
    "arb_streams (slid_to sq now a) = arb_streams a" by auto
qed

lemma deliver_inv:
  assumes "arb_inv a D" "in_span a sq"
  shows "arb_inv (a\<lparr>window_bits := (window_bits a)[arb_idx a sq := True],
    pending_gap_confirms := map_remove sq (pending_gap_confirms a)\<rparr>) (insert sq D)"
proof -
  let ?n = "length (window_bits a)"
  have sh: "arb_shape a" using assms(1) by (simp add: arb_inv_def)
  then have n: "0 < ?n" by (simp add: arb_shape_def)
  have "(window_bits a)[unat sq mod ?n := True] ! (unat s mod ?n) = (s \<in> insert sq D)"
    if "in_span a s" for s
    using in_span_same_slot [OF that assms(2)] assms(1) that n
    by (cases "s = sq") (auto simp: nth_list_update arb_inv_def)
  moreover have "arb_shape (a\<lparr>window_bits := (window_bits a)[arb_idx a sq := True],
    pending_gap_confirms := map_remove sq (pending_gap_confirms a)\<rparr>)"
    using sh by (simp add: arb_shape_def distinct_map_remove)
  ultimately show ?thesis
    using assms unfolding arb_inv_def arb_idx_eq [OF sh] in_span_def by simp
qed

lemma late_inv:
  assumes "arb_inv a D" "sq < window_base a"
  shows "arb_inv (a\<lparr>pending_gap_confirms := map_remove sq (pending_gap_confirms a)\<rparr>) (insert sq D)"
  using assms by (auto simp: arb_inv_def arb_shape_def in_span_def distinct_map_remove
      word_less_nat_alt word_le_nat_alt)

lemma observe_in_window:
  "\<not> sq < window_base a \<Longrightarrow> observe sid sq now a =
     (let a1 = slid_to sq now a; idx = arb_idx a1 sq in
      if window_bits a1 ! idx then (Duplicate, record_delivery sid sq now True a1)
      else (Forward, record_delivery sid sq now False
             (a1\<lparr>window_bits := (window_bits a1)[idx := True],
                 pending_gap_confirms := map_remove sq (pending_gap_confirms a1)\<rparr>)))"
  by (simp add: observe_def slid_to_def Let_def)

text \<open>What one observation says and does, in terms of the delivered set.\<close>

lemma observe_spec:
  assumes "arb_inv a D" "sq < - 1" "observe sid sq now a = (v, a')"
  shows "arb_inv a' (if v = Forward then insert sq D else D)
    \<and> (v = Forward \<longrightarrow> sq \<notin> D) \<and> (v = Duplicate \<longrightarrow> sq \<in> D)
    \<and> (v = OutOfWindow \<longleftrightarrow> sq < window_base a \<and> map_of (pending_gap_confirms a) sq = None)"
proof (cases "sq < window_base a")
  case True
  show ?thesis
  proof (cases "map_of (pending_gap_confirms a) sq")
    case None
    with True assms show ?thesis by (simp add: observe_def)
  next
    case (Some t)
    with assms(1) have "sq \<notin> D" by (auto simp: arb_inv_def)
    with True Some assms(3) late_inv [OF assms(1) True] show ?thesis by (auto simp: observe_def)
  qed
next
  case False
  then have le: "window_base a \<le> sq" by simp
  let ?a1 = "slid_to sq now a"
  note sl = slid_to_inv [OF assms(1) le assms(2), of now]
  have sh: "arb_shape ?a1" using sl(1) by (simp add: arb_inv_def)
  have bit: "window_bits ?a1 ! arb_idx ?a1 sq = (sq \<in> D)"
    using sl(1,2) unfolding arb_idx_eq [OF sh] by (simp add: arb_inv_def)
  show ?thesis
  proof (cases "sq \<in> D")
    case True
    with False assms(3) bit sl(1) show ?thesis by (auto simp: observe_in_window Let_def)
  next
    case new: False
    with False assms(3) bit deliver_inv [OF sl(1,2)] show ?thesis
      by (auto simp: observe_in_window Let_def)
  qed
qed

lemma note_missing_inv:
  assumes "arb_inv a D" "window_base a \<le> sq"
  shows "arb_inv (note_missing now sq a) D \<and> window_base (note_missing now sq a) = window_base a"
proof -
  have sh: "arb_shape a" using assms(1) by (simp add: arb_inv_def)
  have span: "window_base a \<le> sq \<and> sq < window_base a + arb_capacity a \<longleftrightarrow> in_span a sq"
    using arb_window_end [OF sh] by (simp add: in_span_def word_less_nat_alt)
  have "in_span a sq \<or> sq \<notin> D" using assms by (auto simp: arb_inv_def in_span_def)
  then have "sq \<notin> D \<or> in_span a sq \<and> window_bits a ! arb_idx a sq"
    using assms(1) unfolding arb_idx_eq [OF sh] by (auto simp: arb_inv_def)
  then show ?thesis
  proof
    assume "sq \<notin> D"
    then have "arb_inv (a\<lparr>pending_gap_confirms := or_insert sq now (pending_gap_confirms a)\<rparr>) D"
      using assms(1) by (auto simp: arb_inv_def arb_shape_def in_span_def distinct_or_insert map_of_or_insert)
    with assms(1) show ?thesis by (simp add: note_missing_def)
  next
    assume "in_span a sq \<and> window_bits a ! arb_idx a sq"
    with assms(1) span show ?thesis by (simp add: note_missing_def)
  qed
qed

lemma note_missing_range_inv:
  "arb_inv a D \<Longrightarrow> window_base a \<le> start \<Longrightarrow> arb_inv (note_missing_range start stop now a) D"
proof (induction start stop now a rule: note_missing_range.induct)
  case (1 start stop now a)
  show ?case
  proof (cases "start < stop")
    case True
    note step = note_missing_inv [OF "1.prems", of now]
    have "start \<le> start + 1" using unat_add1_no_overflow [OF True] by (simp add: word_le_nat_alt)
    with "1.prems"(2) have "window_base (note_missing now start a) \<le> start + 1" using step by simp
    with "1.IH" [OF True] step show ?thesis by (simp add: note_missing_range.simps [of start] True)
  next
    case False
    with "1.prems" show ?thesis by (simp add: note_missing_range.simps [of start])
  qed
qed

lemma confirmed_gaps_inv:
  assumes "arb_inv a D" "confirmed_gaps now a = (sqs, a')"
  shows "arb_inv a' D"
  using assms
  by (auto simp: confirmed_gaps_def Let_def arb_inv_def arb_shape_def in_span_def distinct_fold_remove
      map_of_fold_remove)

section \<open>Reachable arbiters\<close>

text \<open>
  Every arbiter the receiver can build, with the set of sequences it has forwarded: a fresh one, a
  rebase before anything was delivered, observations in any order on any stream, gap notes at or above
  the window base (the receiver notes only past the highest sequence seen) and confirmations.
\<close>

inductive arb_reach :: "arbiter \<Rightarrow> u64 set \<Rightarrow> bool" where
  fresh: "arbiter_new n cap ms = Some a \<Longrightarrow> cap < 2 ^ 64 \<Longrightarrow> arb_reach a {}"
| rebased: "arb_reach a {} \<Longrightarrow> unat base + length (window_bits a) < 2 ^ 64 \<Longrightarrow> arb_reach (rebase base a) {}"
| observed: "arb_reach a D \<Longrightarrow> sq < - 1 \<Longrightarrow> observe sid sq now a = (v, a') \<Longrightarrow>
    arb_reach a' (if v = Forward then insert sq D else D)"
| noted: "arb_reach a D \<Longrightarrow> window_base a \<le> start \<Longrightarrow> arb_reach (note_missing_range start stop now a) D"
| confirmed: "arb_reach a D \<Longrightarrow> confirmed_gaps now a = (sqs, a') \<Longrightarrow> arb_reach a' D"

lemma arb_reach_inv: "arb_reach a D \<Longrightarrow> arb_inv a D"
proof (induction rule: arb_reach.induct)
  case (fresh n cap ms a)
  then show ?case
    by (auto simp: arbiter_new_def arb_inv_def arb_shape_def split: if_splits)
next
  case (rebased a base)
  then show ?case by (auto simp: rebase_def arb_inv_def arb_shape_def in_span_def)
next
  case (observed a D sq sid now v a')
  then show ?case using observe_spec by blast
next
  case (noted a D start stop now)
  then show ?case by (simp add: note_missing_range_inv)
next
  case (confirmed a D now sqs a')
  then show ?case using confirmed_gaps_inv by blast
qed

section \<open>Stream statistics\<close>

lemma foldl_max_ge: "(x :: u64) \<le> foldl max x xs \<and> (\<forall>y \<in> set xs. y \<le> foldl max x xs)"
proof (induction xs arbitrary: x)
  case Nil
  show ?case by simp
next
  case (Cons y xs)
  from Cons [of "max x y"] show ?case by (auto intro: order_trans)
qed

lemma foldl_max_mem: "foldl max (x :: u64) xs = x \<or> foldl max x xs \<in> set xs"
proof (induction xs arbitrary: x)
  case Nil
  show ?case by simp
next
  case (Cons y xs)
  from Cons [of "max x y"] show ?case by (auto simp: max_def split: if_splits)
qed

lemma leader_max_ge: "s \<in> set ss \<Longrightarrow> max_seq_seen s \<le> leader_max ss"
  using foldl_max_ge [of 0 "map max_seq_seen ss"] by (auto simp: leader_max_def)

definition lag_ok :: "stream_stats list \<Rightarrow> bool" where
  "lag_ok ss \<longleftrightarrow> (\<forall>s \<in> set ss. sequences_behind_leader s = leader_max ss - max_seq_seen s)"

lemma recompute_max [simp]: "map max_seq_seen (recompute_leader_lag ss) = map max_seq_seen ss"
  by (simp add: recompute_leader_lag_def)

lemma recompute_lag_ok: "lag_ok (recompute_leader_lag ss)"
proof -
  have "leader_max (recompute_leader_lag ss) = leader_max ss" by (simp add: leader_max_def)
  then show ?thesis
    unfolding lag_ok_def by (auto simp: recompute_leader_lag_def leader_max_ge)
qed

lemma record_delivery_lag: "lag_ok (arb_streams a) \<Longrightarrow> lag_ok (arb_streams (record_delivery sid sq now lost a))"
  by (simp add: record_delivery_def recompute_lag_ok)

lemma slid_to_streams:
  "arb_inv a D \<Longrightarrow> sq < - 1 \<Longrightarrow> \<not> sq < window_base a \<Longrightarrow> arb_streams (slid_to sq now a) = arb_streams a"
  by (rule slid_to_inv(3)) simp_all

lemma note_missing_range_streams: "arb_streams (note_missing_range start stop now a) = arb_streams a"
  by (induction start stop now a rule: note_missing_range.induct)
    (simp add: note_missing_range.simps note_missing_def)

lemma observe_lag:
  assumes "arb_inv a D" "sq < - 1" "lag_ok (arb_streams a)" "observe sid sq now a = (v, a')"
  shows "lag_ok (arb_streams a')"
proof (cases "sq < window_base a")
  case True
  with assms(3,4) show ?thesis
    by (auto simp: observe_def split: if_splits intro!: record_delivery_lag)
next
  case False
  with assms(4) slid_to_streams [OF assms(1,2) False, of now] assms(3) show ?thesis
    by (auto simp: observe_in_window Let_def split: if_splits intro!: record_delivery_lag)
qed

section \<open>Properties\<close>

text \<open>
  C11. First arrival wins. In every reachable arbiter an observation forwards a sequence only if it was
  never forwarded before and calls it a duplicate only if it was; a sequence not yet delivered is
  always forwarded while it is at or past the window base or still staged as a gap candidate.
\<close>

theorem observe_first_arrival_wins:
  assumes "arb_reach a D" "sq < - 1" "observe sid sq now a = (v, a')"
  shows "(v = Forward \<longrightarrow> sq \<notin> D) \<and> (v = Duplicate \<longrightarrow> sq \<in> D)
    \<and> (sq \<notin> D \<and> (window_base a \<le> sq \<or> map_of (pending_gap_confirms a) sq \<noteq> None) \<longrightarrow> v = Forward)"
  using observe_spec [OF arb_reach_inv [OF assms(1)] assms(2,3)]
  by (cases v) auto

lemma demo_arbiter_reach:
  "arb_reach \<lparr>window_base = 0, window_bits = [False, False], arb_streams = [stream_stats_default],
     gap_confirm_window_ms = 5, pending_gap_confirms = []\<rparr> {}"
  by (rule arb_reach.fresh [of 1 "Suc (Suc 0)" 5]) (simp_all add: arbiter_new_def)

theorem observe_first_arrival_wins_witness:
  "fst (observe 0 7 100 \<lparr>window_base = 0, window_bits = [False, False], arb_streams = [stream_stats_default],
     gap_confirm_window_ms = 5, pending_gap_confirms = []\<rparr>) = Forward"
proof -
  let ?a = "\<lparr>window_base = 0, window_bits = [False, False], arb_streams = [stream_stats_default],
     gap_confirm_window_ms = 5, pending_gap_confirms = []\<rparr> :: arbiter"
  have "(7 :: u64) < - 1" by code_simp
  from observe_first_arrival_wins [OF demo_arbiter_reach this prod.collapse [symmetric], of 0 100]
  show ?thesis by simp
qed

text \<open>
  C12. Confirmed gaps are real and due: the list is strictly ascending, each of its sequences was
  staged at least the confirm window ago and has never been delivered, and exactly those leave the
  candidate map.
\<close>

theorem confirmed_gaps_are_missing:
  assumes "arb_reach a D" "confirmed_gaps now a = (sqs, a')"
  shows "sorted_wrt (<) sqs
    \<and> set sqs = {sq. \<exists>t. map_of (pending_gap_confirms a) sq = Some t \<and> gap_elapsed now a t}
    \<and> set sqs \<inter> D = {}
    \<and> map_of (pending_gap_confirms a') = (\<lambda>sq. if sq \<in> set sqs then None else map_of (pending_gap_confirms a) sq)"
proof -
  let ?m = "pending_gap_confirms a"
  have inv: "arb_inv a D" by (rule arb_reach_inv [OF assms(1)])
  then have d: "distinct (map fst ?m)" by (simp add: arb_inv_def arb_shape_def)
  have sqs: "sqs = sort (map fst (filter (\<lambda>(_, t). gap_elapsed now a t) ?m))"
    and a': "pending_gap_confirms a' = fold map_remove sqs ?m"
    using assms(2) by (auto simp: confirmed_gaps_def Let_def)
  have "distinct sqs" using d by (simp add: sqs distinct_map_filter)
  then have "sorted_wrt (<) sqs" by (simp add: sqs strict_sorted_iff)
  moreover have mem: "set sqs = {sq. \<exists>t. map_of ?m sq = Some t \<and> gap_elapsed now a t}"
    using d by (force simp: sqs)
  moreover have "set sqs \<inter> D = {}" using inv unfolding mem by (auto simp: arb_inv_def)
  ultimately show ?thesis by (simp add: a' fun_eq_iff map_of_fold_remove)
qed

text \<open>A leg delivers sequence 3 to a window of two: 0 and 1 fall out unseen and become candidates.\<close>

definition demo_gap_arbiter :: arbiter where
  "demo_gap_arbiter = snd (observe 0 3 100 \<lparr>window_base = 0, window_bits = [False, False],
     arb_streams = [stream_stats_default], gap_confirm_window_ms = 5, pending_gap_confirms = []\<rparr>)"

lemmas arb_eval = observe_def slide_unfold slide_step_def arb_idx_def arb_capacity_def or_insert_def
  map_remove_def record_delivery_def bump_stats_def recompute_leader_lag_def leader_max_def
  stream_stats_default_def Let_def

lemma demo_gap_arbiter_eval:
  "demo_gap_arbiter = \<lparr>window_base = 2, window_bits = [False, True],
     arb_streams = [\<lparr>packets_won = 1, packets_lost_to_peer = 0, last_recv_at = Some 100,
       max_seq_seen = 3, sequences_behind_leader = 0\<rparr>],
     gap_confirm_window_ms = 5, pending_gap_confirms = [(1, 100), (0, 100)]\<rparr>"
  by (simp add: demo_gap_arbiter_def arb_eval)

lemma demo_gap_arbiter_reach: "arb_reach demo_gap_arbiter {3}"
proof -
  let ?a = "\<lparr>window_base = 0, window_bits = [False, False], arb_streams = [stream_stats_default],
     gap_confirm_window_ms = 5, pending_gap_confirms = []\<rparr> :: arbiter"
  have lt: "(3 :: u64) < - 1" by code_simp
  have ob: "observe 0 3 100 ?a = (Forward, demo_gap_arbiter)"
    by (simp add: demo_gap_arbiter_eval) (simp add: arb_eval)
  from arb_reach.observed [OF demo_arbiter_reach lt ob] show ?thesis by simp
qed

theorem confirmed_gaps_are_missing_witness:
  "fst (confirmed_gaps 5000100 demo_gap_arbiter) = [0, 1]
    \<and> set (fst (confirmed_gaps 5000100 demo_gap_arbiter)) \<inter> {3} = {}"
proof -
  have "fst (confirmed_gaps 5000100 demo_gap_arbiter) = [0, 1]"
    by (simp add: confirmed_gaps_def demo_gap_arbiter_eval gap_elapsed_def Let_def)
  with confirmed_gaps_are_missing [OF demo_gap_arbiter_reach prod.collapse [symmetric], of 5000100]
  show ?thesis by blast
qed

text \<open>
  C13. A confirmed gap below the window is lost: once \<open>confirmed_gaps\<close> has handed out a sequence that
  the window has already left, its retransmission is refused as out of window, on any stream and at
  any time, and refusing it changes nothing.
\<close>

theorem confirmed_gap_below_window_refused:
  assumes "confirmed_gaps now a = (sqs, a')" "sq \<in> set sqs" "sq < window_base a"
  shows "observe sid sq later a' = (OutOfWindow, a')"
proof -
  have "map_of (pending_gap_confirms a') sq = None" "window_base a' = window_base a"
    using assms(1,2) by (auto simp: confirmed_gaps_def Let_def map_of_fold_remove)
  with assms(3) show ?thesis by (simp add: observe_def)
qed

theorem confirmed_gap_below_window_refused_witness:
  "observe 1 0 6000000 (snd (confirmed_gaps 5000100 demo_gap_arbiter))
    = (OutOfWindow, snd (confirmed_gaps 5000100 demo_gap_arbiter))"
  by (rule confirmed_gap_below_window_refused [OF prod.collapse [symmetric]])
    (simp_all add: confirmed_gaps_def demo_gap_arbiter_eval gap_elapsed_def Let_def)



end
