(* ===== verification/Mold_Decode.thy ===== *)
theory Mold_Decode
  imports Mold_Reassembly Mold_Emitter Mold_Arbiter
begin

text \<open>
  The receiver's frames and decode path: \<^verbatim>\<open>crates/clients/moldudp/src/frame.rs\<close>, the state of
  \<^verbatim>\<open>receiver/mod.rs\<close> and \<^verbatim>\<open>receiver/decode.rs\<close>.

  The backend's frame type is a parameter \<open>'f\<close> with its \<^verbatim>\<open>AsRef<[u8]>\<close> as the argument \<open>as_ref\<close>.
  Sharing through \<^verbatim>\<open>Arc\<close> is not observable and is erased: a shared datagram is the datagram. The
  scratch vector \<^verbatim>\<open>blocks\<close>, cleared before every use, is a local value. Logging and metrics are
  erased. A slice expression that would panic has no value (\<open>None\<close>).
\<close>

section \<open>Frames\<close>

datatype 'f held = HeldFrame 'f | Copied bytes

primrec held_bytes :: "('f \<Rightarrow> bytes) \<Rightarrow> 'f held \<Rightarrow> bytes" where
  "held_bytes as_ref (HeldFrame f) = as_ref f"
| "held_bytes as_ref (Copied bs) = bs"

record 'f message_view =
  view_datagram :: "'f held"
  view_offset :: nat
  view_len :: nat

definition message_view_new :: "'f held \<Rightarrow> nat \<Rightarrow> nat \<Rightarrow> 'f message_view" where
  "message_view_new d offset len = \<lparr>view_datagram = d, view_offset = offset, view_len = len\<rparr>"

definition view_bytes :: "('f \<Rightarrow> bytes) \<Rightarrow> 'f message_view \<Rightarrow> bytes option" where
  "view_bytes as_ref v =
     get_range (view_offset v) (view_offset v + view_len v) (held_bytes as_ref (view_datagram v))"

record mold_frame =
  payload :: bytes
  frame_sequence :: u64
  frame_stream :: u8

record 'f owned_frame =
  owned_view :: "'f message_view"
  owned_sequence :: u64
  owned_stream :: u8

datatype 'f mold_outcome = OFrame mold_frame | OOwned "'f owned_frame" | OEvent mold_event

datatype 'f ready_item =
    Inline u64 u8 nat nat
  | View "'f message_view" u64 u8
  | Event mold_event
  | Gap

datatype 'f backing = OwnedBacking "'f held" | SharedBacking "'f held"

definition backing_empty :: "'f backing" where
  "backing_empty = OwnedBacking (Copied [])"

primrec backing_share :: "'f backing \<Rightarrow> 'f backing \<times> 'f held" where
  "backing_share (OwnedBacking h) = (SharedBacking h, h)"
| "backing_share (SharedBacking h) = (SharedBacking h, h)"

primrec backing_bytes :: "('f \<Rightarrow> bytes) \<Rightarrow> 'f backing \<Rightarrow> bytes" where
  "backing_bytes as_ref (OwnedBacking h) = held_bytes as_ref h"
| "backing_bytes as_ref (SharedBacking h) = held_bytes as_ref h"

section \<open>Receiver state\<close>

definition RING_CAPACITY :: nat where
  "RING_CAPACITY = 4096"

definition MAX_INFLIGHT_BURST :: nat where
  "MAX_INFLIGHT_BURST = 64"

definition MIN_LEG_POOL_CAPACITY :: nat where
  "MIN_LEG_POOL_CAPACITY = RING_CAPACITY + MAX_INFLIGHT_BURST"

record ('t, 'f) inner =
  legs :: "'t list"
  recovery_stream :: u8
  session :: "bytes option"
  reassembler :: "'f message_view reassembler"
  next_unseen :: u64
  gap_handler :: gap_handler
  arbiter :: "arbiter option"
  max_rerequests_per_gap_per_sec :: u32
  ready :: "'f ready_item list"
  current :: "'f ready_item option"
  pending_datagrams :: "(u8 \<times> 'f held) list"
  backing :: "'f backing"
  inline_pending :: nat
  seq_anchored :: bool
  recv_batch :: "'f frame_batch"

section \<open>Handing items out\<close>

definition release_inline :: "('t, 'f) inner \<Rightarrow> ('t, 'f) inner" where
  "release_inline i =
     (let n = inline_pending i - 1 in
      if n = 0 then i\<lparr>inline_pending := n, backing := backing_empty\<rparr> else i\<lparr>inline_pending := n\<rparr>)"

definition retire_current :: "('t, 'f) inner \<Rightarrow> ('t, 'f) inner" where
  "retire_current i =
     (case current i of
        Some (Inline _ _ _ _) \<Rightarrow> release_inline (i\<lparr>current := None\<rparr>)
      | _ \<Rightarrow> i\<lparr>current := None\<rparr>)"

text \<open>\<open>None\<close> is the panic of an out-of-range slice.\<close>

definition yield_item ::
  "('f \<Rightarrow> bytes) \<Rightarrow> 'f ready_item \<Rightarrow> ('t, 'f) inner \<Rightarrow> (mold_error + 'f mold_outcome) option \<times> ('t, 'f) inner" where
  "yield_item as_ref item i =
     (let i' = i\<lparr>current := Some item\<rparr> in
      case item of
        Inline sq sid offset len \<Rightarrow>
          (map_option (\<lambda>bs. Inr (OFrame \<lparr>payload = bs, frame_sequence = sq, frame_stream = sid\<rparr>))
             (get_range offset (offset + len) (backing_bytes as_ref (backing i))), i')
      | View v sq sid \<Rightarrow>
          (map_option (\<lambda>bs. Inr (OFrame \<lparr>payload = bs, frame_sequence = sq, frame_stream = sid\<rparr>))
             (view_bytes as_ref v), i')
      | Event ev \<Rightarrow> (Some (Inr (OEvent ev)), i')
      | Gap \<Rightarrow> (Some (Inl GapDetected), i'))"

definition share_backing :: "('t, 'f) inner \<Rightarrow> 'f held \<times> ('t, 'f) inner" where
  "share_backing i = (let (b, arc) = backing_share (backing i) in (arc, i\<lparr>backing := b\<rparr>))"

definition yield_owned ::
  "'f ready_item \<Rightarrow> ('t, 'f) inner \<Rightarrow> (mold_error + 'f mold_outcome) \<times> ('t, 'f) inner" where
  "yield_owned item i =
     (case item of
        Inline sq sid offset len \<Rightarrow>
          (let (arc, i1) = share_backing i; i2 = release_inline i1 in
           (Inr (OOwned \<lparr>owned_view = message_view_new arc offset len, owned_sequence = sq, owned_stream = sid\<rparr>), i2))
      | View v sq sid \<Rightarrow> (Inr (OOwned \<lparr>owned_view = v, owned_sequence = sq, owned_stream = sid\<rparr>), i)
      | Event ev \<Rightarrow> (Inr (OEvent ev), i)
      | Gap \<Rightarrow> (Inl GapDetected, i))"

section \<open>Receiving bursts\<close>

text \<open>The loop of \<^verbatim>\<open>poll_legs\<close> over \<^verbatim>\<open>(0..=u8::MAX).zip(&mut legs)\<close>: at most 256 legs, each with its index.\<close>

fun poll_legs_loop ::
  "('t, 'f) recv_op \<Rightarrow> nat \<Rightarrow> 't list \<Rightarrow> 'f frame_batch \<Rightarrow> (u8 \<times> 'f held) list \<Rightarrow> bool
     \<Rightarrow> (mold_error + bool) \<times> 't list \<times> 'f frame_batch \<times> (u8 \<times> 'f held) list" where
  "poll_legs_loop recv_burst k [] batch pend landed = (Inr landed, [], batch, pend)"
| "poll_legs_loop recv_burst k (leg # rest) batch pend landed =
     (if 255 < k then (Inr landed, leg # rest, batch, pend)
      else case recv_burst leg batch of
        (Inl e, leg', batch') \<Rightarrow> (Inl (Transport e), leg' # rest, batch', pend)
      | (Inr n, leg', batch') \<Rightarrow>
          (if n = 0 then
             (let (res, rest', batch'', pend') = poll_legs_loop recv_burst (k + 1) rest batch' pend landed
              in (res, leg' # rest', batch'', pend'))
           else
             (let (frames, batch1) = batch_drain batch';
                  (res, rest', batch'', pend') =
                    poll_legs_loop recv_burst (k + 1) rest batch1
                      (pend @ map (\<lambda>f. (of_nat k, HeldFrame f)) frames) True
              in (res, leg' # rest', batch'', pend'))))"

definition poll_legs :: "('t, 'f) recv_op \<Rightarrow> ('t, 'f) inner \<Rightarrow> (mold_error + bool) \<times> ('t, 'f) inner" where
  "poll_legs recv_burst i =
     (case poll_legs_loop recv_burst 0 (legs i) (recv_batch i) (pending_datagrams i) False of
        (res, ls, batch, pend) \<Rightarrow> (res, i\<lparr>legs := ls, recv_batch := batch, pending_datagrams := pend\<rparr>))"

section \<open>Decoding one datagram\<close>

definition push_ready :: "'f ready_item list \<Rightarrow> ('t, 'f) inner \<Rightarrow> ('t, 'f) inner" where
  "push_ready xs i = i\<lparr>ready := ready i @ xs\<rparr>"

definition note_tail_gap :: "u64 \<Rightarrow> ('t, 'f) inner \<Rightarrow> ('t, 'f) inner" where
  "note_tail_gap next_expected i =
     (if next_unseen i < next_expected
      then push_ready [Gap] (i\<lparr>next_unseen := next_expected,
             gap_handler := record_missing_range (next_unseen i) next_expected (gap_handler i)\<rparr>)
      else i)"

definition drain_confirmed_gaps :: "instant \<Rightarrow> ('t, 'f) inner \<Rightarrow> ('t, 'f) inner" where
  "drain_confirmed_gaps now i =
     (case arbiter i of
        None \<Rightarrow> i
      | Some a \<Rightarrow>
          (let (confirmed, a') = confirmed_gaps now a in
           push_ready (map (\<lambda>_. Gap) confirmed)
             (i\<lparr>arbiter := Some a', gap_handler := fold record_gap confirmed (gap_handler i)\<rparr>)))"

definition accept_header :: "downstream_header \<Rightarrow> ('t, 'f) inner \<Rightarrow> (mold_error + unit) \<times> ('t, 'f) inner" where
  "accept_header h i =
     (let anchor = (\<lambda>i. if seq_anchored i then i
                        else i\<lparr>reassembler := reset_expected (sequence_no h) (reassembler i),
                               next_unseen := sequence_no h,
                               arbiter := map_option (rebase (sequence_no h)) (arbiter i),
                               seq_anchored := True\<rparr>) in
      case session i of
        None \<Rightarrow> (Inr (), anchor (i\<lparr>session := Some (session_id h)\<rparr>))
      | Some expected \<Rightarrow>
          (if expected \<noteq> session_id h then (Inl (SessionMismatch expected (session_id h)), i)
           else (Inr (), anchor i)))"

text \<open>Numbering the drained views from \<open>sq\<close> on, \<^verbatim>\<open>(sq..).zip(cursor)\<close>.\<close>

fun number_views :: "u8 \<Rightarrow> u64 \<Rightarrow> 'f message_view list \<Rightarrow> 'f ready_item list" where
  "number_views sid sq [] = []"
| "number_views sid sq (v # vs) = View v sq sid # number_views sid (sq + 1) vs"

text \<open>The verdict on one block: whether the arbiter (if any) lets it through.\<close>

definition arbitrate :: "instant option \<Rightarrow> u8 \<Rightarrow> u64 \<Rightarrow> ('t, 'f) inner \<Rightarrow> bool \<times> ('t, 'f) inner" where
  "arbitrate now sid sq i =
     (case (arbiter i, now) of
        (Some a, Some t) \<Rightarrow>
          (let (v, a') = observe sid sq t a in (v = Forward, i\<lparr>arbiter := Some a'\<rparr>))
      | _ \<Rightarrow> (True, i))"

text \<open>
  One block that passed the arbiter. The local \<open>backing\<close> and \<open>inline\<close> of the loop are threaded; an
  error is the \<open>?\<close> that leaves the loop.
\<close>

definition place_block ::
  "u8 \<Rightarrow> u64 \<times> nat \<times> nat \<Rightarrow> 'f backing \<times> nat \<Rightarrow> ('t, 'f) inner
     \<Rightarrow> (mold_error + 'f backing \<times> nat) \<times> ('t, 'f) inner" where
  "place_block sid blk bi i0 =
     (case blk of (sq, offset, len) \<Rightarrow> case bi of (bk, inline) \<Rightarrow>
      let i = i0\<lparr>gap_handler := mark_received sq (gap_handler i0)\<rparr>;
          expected = expected_next (reassembler i) in
      if sq = expected then
        (let (views, r) = drain_all (advance_expected 1 (reassembler i)) in
         (Inr (bk, inline + 1),
          push_ready (Inline sq sid offset len # number_views sid (sq + 1) views) (i\<lparr>reassembler := r\<rparr>)))
      else if expected < sq then
        (let (bk', arc) = backing_share bk in
         case reassembler_insert sq (message_view_new arc offset len) (reassembler i) of
           (Inl e, r) \<Rightarrow> (Inl e, i\<lparr>reassembler := r\<rparr>)
         | (Inr False, r) \<Rightarrow> (Inr (bk', inline), i\<lparr>reassembler := r\<rparr>)
         | (Inr True, r) \<Rightarrow>
             (let (views, r') = drain_all r in
              (Inr (bk', inline), push_ready (number_views sid sq views) (i\<lparr>reassembler := r'\<rparr>))))
      else (Inr (bk, inline), i))"

fun place_blocks ::
  "instant option \<Rightarrow> u8 \<Rightarrow> (u64 \<times> nat \<times> nat) list \<Rightarrow> 'f backing \<times> nat \<Rightarrow> ('t, 'f) inner
     \<Rightarrow> (mold_error + 'f backing \<times> nat) \<times> ('t, 'f) inner" where
  "place_blocks now sid [] bi i = (Inr bi, i)"
| "place_blocks now sid (blk # blks) bi i =
     (case arbitrate now sid (fst blk) i of
        (False, i') \<Rightarrow> place_blocks now sid blks bi i'
      | (True, i') \<Rightarrow>
          (case place_block sid blk bi i' of
             (Inl e, i'') \<Rightarrow> (Inl e, i'')
           | (Inr bi', i'') \<Rightarrow> place_blocks now sid blks bi' i''))"

definition sat_add :: "u64 \<Rightarrow> u64 \<Rightarrow> u64" where
  "sat_add a b = (if unat a + unat b < 2 ^ 64 then a + b else - 1)"

text \<open>The jump past the highest sequence seen, recorded once per datagram.\<close>

definition note_jump :: "instant option \<Rightarrow> downstream_header \<Rightarrow> ('t, 'f) inner \<Rightarrow> ('t, 'f) inner" where
  "note_jump now h i =
     (let unseen = next_unseen i;
          i1 = (if unseen < sequence_no h then
                  (case (arbiter i, now) of
                     (Some a, Some t) \<Rightarrow> i\<lparr>arbiter := Some (note_missing_range unseen (sequence_no h) t a)\<rparr>
                   | _ \<Rightarrow> push_ready [Gap]
                       (i\<lparr>gap_handler := record_missing_range unseen (sequence_no h) (gap_handler i)\<rparr>))
                else i)
      in i1\<lparr>next_unseen := max unseen (sat_add (sequence_no h) (ucast (message_count h)))\<rparr>)"

definition decode_data ::
  "('f \<Rightarrow> bytes) \<Rightarrow> instant option \<Rightarrow> u8 \<Rightarrow> 'f held \<Rightarrow> downstream_header \<Rightarrow> ('t, 'f) inner
     \<Rightarrow> (mold_error + unit) \<times> ('t, 'f) inner" where
  "decode_data as_ref now sid datagram h i =
     (case collect_blocks (sequence_no h) (header_blocks h (held_bytes as_ref datagram)) of
        Inl e \<Rightarrow> (Inl e, i)
      | Inr blocks \<Rightarrow>
          (case place_blocks now sid blocks (OwnedBacking datagram, 0) (note_jump now h i) of
             (Inl e, i') \<Rightarrow> (Inl e, i')
           | (Inr (bk, inline), i') \<Rightarrow>
               (Inr (), if 0 < inline then i'\<lparr>backing := bk, inline_pending := inline\<rparr> else i')))"

definition decode_datagram ::
  "('f \<Rightarrow> bytes) \<Rightarrow> instant option \<Rightarrow> u8 \<Rightarrow> 'f held \<Rightarrow> ('t, 'f) inner \<Rightarrow> (mold_error + unit) \<times> ('t, 'f) inner" where
  "decode_datagram as_ref now sid datagram i =
     (case parse_header (held_bytes as_ref datagram) of
        Inl e \<Rightarrow> (Inl e, i)
      | Inr h \<Rightarrow>
          (case accept_header h i of
             (Inl e, i') \<Rightarrow> (Inl e, i')
           | (Inr _, i') \<Rightarrow>
               (case header_kind h of
                  KHeartbeat \<Rightarrow>
                    (Inr (), push_ready [Event (Heartbeat (sequence_no h))] (note_tail_gap (sequence_no h) i'))
                | KEndOfSession \<Rightarrow>
                    (Inr (), push_ready [Event (EndOfSession (sequence_no h))] (note_tail_gap (sequence_no h) i'))
                | KData \<Rightarrow> decode_data as_ref now sid datagram h i')))"

definition process_next_pending ::
  "('f \<Rightarrow> bytes) \<Rightarrow> instant option \<Rightarrow> ('t, 'f) inner \<Rightarrow> (mold_error + unit) \<times> ('t, 'f) inner" where
  "process_next_pending as_ref now i =
     (case pending_datagrams i of
        [] \<Rightarrow> (Inr (), i)
      | (sid, datagram) # rest \<Rightarrow> decode_datagram as_ref now sid datagram (i\<lparr>pending_datagrams := rest\<rparr>))"

end
