(* ===== verification/Mold_Order.thy ===== *)
theory Mold_Order
  imports Mold_Decode
begin

text \<open>
  In-order delivery of the decode path. The feed is a function \<open>msg\<close> from sequence numbers to
  message bytes; a datagram is \<open>honest\<close> when every block it carries is the message of its sequence. The
  invariant \<open>rx_inv\<close> says that the items waiting for the caller carry consecutive sequences ending just
  below the next expected one, and that each of them and each buffered view holds the bytes of its
  message; the decode path preserves it.
\<close>

section \<open>Vocabulary\<close>

primrec item_data :: "'f ready_item \<Rightarrow> u64 list" where
  "item_data (Inline sq sid offset len) = [sq]"
| "item_data (View v sq sid) = [sq]"
| "item_data (Event ev) = []"
| "item_data Gap = []"

definition data_seqs :: "'f ready_item list \<Rightarrow> u64 list" where
  "data_seqs items = concat (map item_data items)"

fun seq_run :: "u64 \<Rightarrow> u64 list \<Rightarrow> u64 \<Rightarrow> bool" where
  "seq_run f [] e \<longleftrightarrow> f = e"
| "seq_run f (x # xs) e \<longleftrightarrow> x = f \<and> seq_run (f + 1) xs e"

primrec item_ok :: "('f \<Rightarrow> bytes) \<Rightarrow> (u64 \<Rightarrow> bytes) \<Rightarrow> bytes \<Rightarrow> 'f ready_item \<Rightarrow> bool" where
  "item_ok as_ref msg bk (Inline sq sid offset len) \<longleftrightarrow> get_range offset (offset + len) bk = Some (msg sq)"
| "item_ok as_ref msg bk (View v sq sid) \<longleftrightarrow> view_bytes as_ref v = Some (msg sq)"
| "item_ok as_ref msg bk (Event ev) \<longleftrightarrow> True"
| "item_ok as_ref msg bk Gap \<longleftrightarrow> True"

fun is_inline :: "'f ready_item \<Rightarrow> bool" where
  "is_inline (Inline _ _ _ _) = True"
| "is_inline _ = False"

definition inline_count :: "'f ready_item list \<Rightarrow> nat" where
  "inline_count items = length (filter is_inline items)"

text \<open>What the buffered messages satisfy.\<close>

definition ring_good :: "('f \<Rightarrow> bytes) \<Rightarrow> (u64 \<Rightarrow> bytes) \<Rightarrow> 'f message_view reassembler \<Rightarrow> bool" where
  "ring_good as_ref msg r \<longleftrightarrow> ring_inv r \<and> settled_at (expected_next r) (ring_held r)
     \<and> (\<forall>s v. ring_held r s = Some v \<longrightarrow> view_bytes as_ref v = Some (msg s))"

definition block_ok :: "(u64 \<Rightarrow> bytes) \<Rightarrow> bytes \<Rightarrow> u64 \<times> nat \<times> nat \<Rightarrow> bool" where
  "block_ok msg bk blk \<longleftrightarrow> (case blk of (sq, offset, len) \<Rightarrow>
     sq < - 1 \<and> get_range offset (offset + len) bk = Some (msg sq))"

definition honest :: "(u64 \<Rightarrow> bytes) \<Rightarrow> bytes \<Rightarrow> bool" where
  "honest msg buf \<longleftrightarrow> (\<forall>h blks. parse_header buf = Inr h \<and> header_kind h = KData
     \<and> collect_blocks (sequence_no h) (header_blocks h buf) = Inr blks \<longrightarrow>
       unat (sequence_no h) + unat (message_count h) < 2 ^ 64 - 1 \<and> (\<forall>blk \<in> set blks. block_ok msg buf blk))"

lemma data_seqs_simps [simp]:
  "data_seqs [] = []" "data_seqs (x # xs) = item_data x @ data_seqs xs"
  "data_seqs (xs @ ys) = data_seqs xs @ data_seqs ys"
  by (simp_all add: data_seqs_def)

lemma inline_count_simps [simp]:
  "inline_count [] = 0" "inline_count (x # xs) = (if is_inline x then 1 else 0) + inline_count xs"
  "inline_count (xs @ ys) = inline_count xs + inline_count ys"
  by (simp_all add: inline_count_def)

lemma seq_run_append: "seq_run f (xs @ ys) e \<longleftrightarrow> (\<exists>m. seq_run f xs m \<and> seq_run m ys e)"
  by (induction xs arbitrary: f) auto

lemma seq_run_length: "seq_run f xs e \<Longrightarrow> e = f + of_nat (length xs)"
proof (induction xs arbitrary: f)
  case (Cons x xs)
  then have "e = f + 1 + of_nat (length xs)" by simp
  then show ?case by (simp add: add.assoc)
qed simp

lemma number_views_run: "seq_run sq (data_seqs (number_views sid sq vs)) (sq + of_nat (length vs))"
  by (induction sid sq vs rule: number_views.induct) (simp_all add: algebra_simps)

lemma number_views_inline [simp]: "inline_count (number_views sid sq vs) = 0"
  by (induction sid sq vs rule: number_views.induct) simp_all

lemma number_views_ok:
  "(\<forall>k < length vs. view_bytes as_ref (vs ! k) = Some (msg (sq + of_nat k))) \<Longrightarrow>
   \<forall>it \<in> set (number_views sid sq vs). item_ok as_ref msg bk it"
proof (induction sid sq vs rule: number_views.induct)
  case (1 sid sq)
  show ?case by simp
next
  case (2 sid sq v vs)
  have "\<forall>k < length vs. view_bytes as_ref (vs ! k) = Some (msg (sq + 1 + of_nat k))"
  proof (intro allI impI)
    fix k assume "k < length vs"
    with "2.prems" have "view_bytes as_ref ((v # vs) ! Suc k) = Some (msg (sq + of_nat (Suc k)))" by auto
    then show "view_bytes as_ref (vs ! k) = Some (msg (sq + 1 + of_nat k))" by (simp add: algebra_simps)
  qed
  with "2.IH" "2.prems" show ?case by force
qed

section \<open>One block\<close>

text \<open>
  \<open>loop_inv\<close> is the invariant of the block loop: \<open>f\<close> is the sequence of the first item waiting, \<open>bk\<close>
  the loop's backing, \<open>n\<close> the number of inline items it has produced.
\<close>

definition loop_inv ::
  "('f \<Rightarrow> bytes) \<Rightarrow> (u64 \<Rightarrow> bytes) \<Rightarrow> u64 \<Rightarrow> bytes \<Rightarrow> nat \<Rightarrow> ('t, 'f) inner \<Rightarrow> bool" where
  "loop_inv as_ref msg f buf n i \<longleftrightarrow> ring_good as_ref msg (reassembler i)
     \<and> seq_run f (data_seqs (ready i)) (expected_next (reassembler i))
     \<and> (\<forall>it \<in> set (ready i). item_ok as_ref msg buf it) \<and> inline_count (ready i) = n"

lemma backing_share_bytes [simp]:
  "backing_share bk = (bk', arc) \<Longrightarrow> backing_bytes as_ref bk' = backing_bytes as_ref bk
     \<and> held_bytes as_ref arc = backing_bytes as_ref bk"
  by (cases bk) auto

lemma deliver_block:
  assumes "loop_inv as_ref msg f buf n i" "block_ok msg buf (sq, offset, len)"
    "sq = expected_next (reassembler i)" "drain_all (advance_expected 1 (reassembler i)) = (vs, r)"
  shows "loop_inv as_ref msg f buf (n + 1)
    (push_ready (Inline sq sid offset len # number_views sid (sq + 1) vs) (i\<lparr>reassembler := r\<rparr>))
    \<and> sq < expected_next r"
proof -
  let ?R = "reassembler i"
  have g: "ring_inv ?R" "settled_at (expected_next ?R) (ring_held ?R)"
    "\<And>s v. ring_held ?R s = Some v \<Longrightarrow> view_bytes as_ref v = Some (msg s)"
    using assms(1) by (auto simp: loop_inv_def ring_good_def)
  have lt: "expected_next ?R < - 1" using assms(2,3) by (simp add: block_ok_def)
  note run = ring.deliver_run [OF g(1,2) lt assms(4)]
  have "\<forall>k < length vs. view_bytes as_ref (vs ! k) = Some (msg (sq + 1 + of_nat k))"
    using run g(3) assms(3) by blast
  note ok = number_views_ok [OF this, of sid buf]
  have "seq_run (sq + 1) (data_seqs (number_views sid (sq + 1) vs)) (expected_next r)"
    using run number_views_run [of "sq + 1" sid vs] assms(3) by metis
  moreover have "seq_run f (data_seqs (ready i)) sq" using assms(1,3) by (simp add: loop_inv_def)
  ultimately have "seq_run f (data_seqs (ready i @ Inline sq sid offset len # number_views sid (sq + 1) vs))
      (expected_next r)"
    by (auto simp: seq_run_append)
  moreover have "\<And>s v. ring_held r s = Some v \<Longrightarrow> view_bytes as_ref v = Some (msg s)"
    using run g(3) by (metis option.distinct(1))
  ultimately show ?thesis
    using run ok assms(1,2,3) by (auto simp: loop_inv_def ring_good_def push_ready_def block_ok_def word_less_nat_alt)
qed

lemma store_block:
  assumes "loop_inv as_ref msg f buf n i" "block_ok msg buf (sq, offset, len)"
    "expected_next (reassembler i) < sq" "held_bytes as_ref d = buf"
    "reassembler_insert sq (message_view_new d offset len) (reassembler i) = (res, r)"
  shows "loop_inv as_ref msg f buf n (i\<lparr>reassembler := r\<rparr>) \<and> res \<noteq> Inr True
    \<and> expected_next r = expected_next (reassembler i)"
proof -
  let ?R = "reassembler i" and ?v = "message_view_new d offset len"
  have g: "ring_inv ?R" "settled_at (expected_next ?R) (ring_held ?R)"
    "\<And>s v. ring_held ?R s = Some v \<Longrightarrow> view_bytes as_ref v = Some (msg s)"
    using assms(1) by (auto simp: loop_inv_def ring_good_def)
  have v: "view_bytes as_ref ?v = Some (msg sq)" and lt: "sq < - 1"
    using assms(2,4) by (auto simp: block_ok_def view_bytes_def message_view_new_def)
  have e: "expected_next r = expected_next ?R" by (rule ring.store_next [OF g(1) assms(5)])
  have held: "view_bytes as_ref w = Some (msg s)" if w: "ring_held r s = Some w" for s w
  proof (cases res)
    case (Inl x)
    with ring.store_error [OF g(1)] assms(5) have "r = ?R" by blast
    with w g(3) show ?thesis by simp
  next
    case (Inr c)
    have "ring_held r = (ring_held ?R)(sq \<mapsto> (case ring_held ?R sq of None \<Rightarrow> ?v | Some m' \<Rightarrow> m'))"
      using ring.store_ok [OF g(1) order_less_imp_le [OF assms(3)] assms(5) [unfolded Inr]] .
    with w g(3) v show ?thesis by (auto split: if_splits option.splits)
  qed
  have "res \<noteq> Inr True" using assms(3,5) by (auto simp: reassembler_insert_def Let_def split: if_splits)
  moreover have "ring_good as_ref msg r"
    unfolding ring_good_def
    using ring.store_inv [OF g(1) assms(5)] ring.store_settled [OF g(1,2) assms(3) lt assms(5)] held by blast
  ultimately show ?thesis using assms(1) e by (simp add: loop_inv_def)
qed

lemma loop_inv_frame [simp]:
  "loop_inv as_ref msg f buf n (i\<lparr>gap_handler := g\<rparr>) = loop_inv as_ref msg f buf n i"
  "loop_inv as_ref msg f buf n (i\<lparr>arbiter := a\<rparr>) = loop_inv as_ref msg f buf n i"
  "loop_inv as_ref msg f buf n (i\<lparr>next_unseen := u\<rparr>) = loop_inv as_ref msg f buf n i"
  "loop_inv as_ref msg f buf n (i\<lparr>pending_datagrams := p\<rparr>) = loop_inv as_ref msg f buf n i"
  "loop_inv as_ref msg f buf n (i\<lparr>session := s\<rparr>) = loop_inv as_ref msg f buf n i"
  by (simp_all add: loop_inv_def)

lemma loop_inv_note [simp]:
  "loop_inv as_ref msg f buf n (push_ready [Gap] i) = loop_inv as_ref msg f buf n i"
  "loop_inv as_ref msg f buf n (push_ready [Event ev] i) = loop_inv as_ref msg f buf n i"
  by (auto simp: loop_inv_def push_ready_def)

lemma place_block_eq:
  "sq = expected_next (reassembler i) \<Longrightarrow> drain_all (advance_expected 1 (reassembler i)) = (vs, r) \<Longrightarrow>
   place_block sid (sq, offset, len) (bk, n) i =
     (Inr (bk, n + 1), push_ready (Inline sq sid offset len # number_views sid (sq + 1) vs)
        (i\<lparr>gap_handler := mark_received sq (gap_handler i), reassembler := r\<rparr>))"
  by (simp add: place_block_def Let_def)

lemma place_block_lt:
  assumes "sq < expected_next (reassembler i)"
  shows "place_block sid (sq, offset, len) (bk, n) i =
    (Inr (bk, n), i\<lparr>gap_handler := mark_received sq (gap_handler i)\<rparr>)"
proof -
  have "sq \<noteq> expected_next (reassembler i)" "\<not> expected_next (reassembler i) < sq" using assms by auto
  then show ?thesis by (simp add: place_block_def Let_def)
qed

lemma place_block_gt:
  assumes "expected_next (reassembler i) < sq" "backing_share bk = (bk', arc)"
    "reassembler_insert sq (message_view_new arc offset len) (reassembler i) = (ir, r)"
  shows "place_block sid (sq, offset, len) (bk, n) i =
    (case ir of Inl e \<Rightarrow> Inl e | Inr _ \<Rightarrow> Inr (bk', n),
     i\<lparr>gap_handler := mark_received sq (gap_handler i), reassembler := r\<rparr>)"
proof -
  have ne: "sq \<noteq> expected_next (reassembler i)" using assms(1) by auto
  show ?thesis
  proof (cases ir)
    case (Inl e)
    with assms ne show ?thesis by (simp add: place_block_def Let_def)
  next
    case (Inr c)
    have "c = False"
      using assms(3) Inr ne by (auto simp: reassembler_insert_def Let_def split: if_splits)
    with assms Inr ne show ?thesis by (simp add: place_block_def Let_def)
  qed
qed

text \<open>
  The result of placing one block: the invariant with the new inline count; after success at a
  sequence not above the expected one, the expected one is beyond it; only a block above it can fail.
\<close>

lemma place_block_inv:
  assumes "loop_inv as_ref msg f buf n i" "block_ok msg buf blk" "backing_bytes as_ref bk = buf"
    "place_block sid blk (bk, n) i = (res, i')"
  shows "case res of
      Inl e \<Rightarrow> loop_inv as_ref msg f buf n i' \<and> expected_next (reassembler i) < fst blk
    | Inr (bk', n') \<Rightarrow> loop_inv as_ref msg f buf n' i' \<and> backing_bytes as_ref bk' = buf
        \<and> (fst blk \<le> expected_next (reassembler i) \<longrightarrow> fst blk < expected_next (reassembler i'))
        \<and> (expected_next (reassembler i) < fst blk \<longrightarrow> n' = n)"
proof -
  obtain sq offset len where blk: "blk = (sq, offset, len)" by (rule prod_cases3)
  let ?i = "i\<lparr>gap_handler := mark_received sq (gap_handler i)\<rparr>"
  have inv: "loop_inv as_ref msg f buf n ?i" using assms(1) by simp
  consider (eq) "sq = expected_next (reassembler ?i)" | (gt) "expected_next (reassembler ?i) < sq"
    | (lt) "sq < expected_next (reassembler ?i)" by fastforce
  then show ?thesis
  proof cases
    case eq
    obtain vs r where d: "drain_all (advance_expected 1 (reassembler ?i)) = (vs, r)" by (rule prod.exhaust)
    have res: "res = Inr (bk, n + 1)"
      and i': "i' = push_ready (Inline sq sid offset len # number_views sid (sq + 1) vs) (?i\<lparr>reassembler := r\<rparr>)"
      using assms(4) place_block_eq [of sq i vs r sid offset len bk n] eq d by (auto simp: blk)
    from deliver_block [OF inv assms(2) [unfolded blk] eq d, of sid] eq assms(3) show ?thesis
      by (simp add: res i' blk) (simp add: push_ready_def)
  next
    case gt
    obtain bk' arc where sh: "backing_share bk = (bk', arc)" by (rule prod.exhaust)
    obtain ir r where ins: "reassembler_insert sq (message_view_new arc offset len) (reassembler ?i) = (ir, r)"
      by (rule prod.exhaust)
    have bytes: "backing_bytes as_ref bk' = buf" "held_bytes as_ref arc = buf"
      using backing_share_bytes [OF sh] assms(3) by auto
    note st = store_block [OF inv assms(2) [unfolded blk] gt bytes(2) ins]
    have gt': "expected_next (reassembler i) < sq" using gt by simp
    have pb: "place_block sid blk (bk, n) i = (case ir of Inl e \<Rightarrow> Inl e | Inr _ \<Rightarrow> Inr (bk', n), ?i\<lparr>reassembler := r\<rparr>)"
      using place_block_gt [OF gt' sh, of offset len ir r sid n] ins by (simp add: blk)
    show ?thesis
    proof (cases ir)
      case (Inl e)
      with pb assms(4) have "res = Inl e" "i' = ?i\<lparr>reassembler := r\<rparr>" by auto
      with st gt' show ?thesis by (simp add: blk)
    next
      case (Inr c)
      with pb assms(4) have "res = Inr (bk', n)" "i' = ?i\<lparr>reassembler := r\<rparr>" by auto
      moreover have "\<not> sq \<le> expected_next (reassembler i)" using gt' by simp
      ultimately show ?thesis using st bytes(1) by (simp add: blk)
    qed
  next
    case lt
    then have "res = Inr (bk, n)" "i' = ?i"
      using assms(4) place_block_lt [of sq i sid offset len bk n] by (auto simp: blk)
    with inv lt assms(3) show ?thesis by (simp add: blk)
  qed
qed

section \<open>The block loop\<close>

lemma arbitrate_frame:
  assumes "arbitrate now sid sq i = (b, i')"
  shows "i' = i\<lparr>arbiter := arbiter i'\<rparr>" "arbiter i = None \<Longrightarrow> b \<and> i' = i"
    "loop_inv as_ref msg f buf n i' = loop_inv as_ref msg f buf n i"
proof -
  show "i' = i\<lparr>arbiter := arbiter i'\<rparr>" "arbiter i = None \<Longrightarrow> b \<and> i' = i"
    using assms by (auto simp: arbitrate_def split: option.splits prod.splits)
  then show "loop_inv as_ref msg f buf n i' = loop_inv as_ref msg f buf n i"
    by (metis loop_inv_frame(2))
qed

lemma place_block_frame:
  assumes "place_block sid blk bi i = (res, i')"
  shows "i' = i\<lparr>gap_handler := mark_received (fst blk) (gap_handler i), reassembler := reassembler i',
    ready := ready i'\<rparr>"
proof -
  obtain sq offset len where blk: "blk = (sq, offset, len)" by (rule prod_cases3)
  obtain bk n where bi: "bi = (bk, n)" by (rule prod.exhaust)
  consider (eq) "sq = expected_next (reassembler i)" | (gt) "expected_next (reassembler i) < sq"
    | (lt) "sq < expected_next (reassembler i)" by fastforce
  then show ?thesis
  proof cases
    case eq
    obtain vs r where "drain_all (advance_expected 1 (reassembler i)) = (vs, r)" by (rule prod.exhaust)
    from place_block_eq [OF eq this] assms show ?thesis by (auto simp: blk bi push_ready_def)
  next
    case gt
    obtain bk' arc where sh: "backing_share bk = (bk', arc)" by (rule prod.exhaust)
    obtain ir r where "reassembler_insert sq (message_view_new arc offset len) (reassembler i) = (ir, r)"
      by (rule prod.exhaust)
    from place_block_gt [OF gt sh this] assms show ?thesis by (auto simp: blk bi)
  next
    case lt
    from place_block_lt [OF lt] assms show ?thesis by (auto simp: blk bi)
  qed
qed

lemma place_block_arbiter: "place_block sid blk bi i = (res, i') \<Longrightarrow> arbiter i' = arbiter i"
  by (drule place_block_frame [THEN arg_cong [where f = arbiter]]) simp

text \<open>
  With one leg a failing block is never preceded by an inline item of the same datagram: block
  sequences are consecutive, and once one was expected, none after it is ahead of the ring.
\<close>

definition steady :: "u64 \<Rightarrow> nat \<Rightarrow> ('t, 'f) inner \<Rightarrow> bool" where
  "steady sq n i \<longleftrightarrow> arbiter i = None \<longrightarrow> n = 0 \<or> sq \<le> expected_next (reassembler i)"

lemma place_blocks_inv:
  assumes "place_blocks now sid blks (bk, n) i = (res, i')"
    "loop_inv as_ref msg f buf n i" "\<forall>blk \<in> set blks. block_ok msg buf blk"
    "backing_bytes as_ref bk = buf" "seq_run sq (map fst blks) stop" "steady sq n i"
  shows "case res of
      Inl e \<Rightarrow> \<exists>n'. loop_inv as_ref msg f buf n' i' \<and> (arbiter i = None \<longrightarrow> n' = 0)
    | Inr (bk', n') \<Rightarrow> loop_inv as_ref msg f buf n' i' \<and> backing_bytes as_ref bk' = buf"
  using assms
proof (induction blks arbitrary: bk n i sq)
  case Nil
  then show ?case by auto
next
  case (Cons blk blks)
  obtain b i1 where ar: "arbitrate now sid (fst blk) i = (b, i1)" by (rule prod.exhaust)
  note fr = arbitrate_frame [OF ar]
  have sq: "fst blk = sq" and rest: "seq_run (sq + 1) (map fst blks) stop" using Cons.prems(5) by auto
  have inv1: "loop_inv as_ref msg f buf n i1" using fr(3) Cons.prems(2) by blast
  have ok: "block_ok msg buf blk" "\<forall>blk \<in> set blks. block_ok msg buf blk" using Cons.prems(3) by auto
  have lt: "sq < - 1" using ok(1) sq by (auto simp: block_ok_def)
  have arb: "arbiter i1 = None \<longleftrightarrow> arbiter i = None"
    using ar by (auto simp: arbitrate_def split: option.splits prod.splits)
  show ?case
  proof (cases b)
    case False
    then have some: "arbiter i \<noteq> None" using fr(2) by blast
    have "place_blocks now sid blks (bk, n) i1 = (res, i')" using Cons.prems(1) ar False by simp
    moreover have "steady (sq + 1) n i1" using some arb by (auto simp: steady_def)
    ultimately show ?thesis by (rule Cons.IH [OF _ inv1 ok(2) Cons.prems(4) rest, unfolded arb])
  next
    case True
    obtain pr i2 where pb: "place_block sid blk (bk, n) i1 = (pr, i2)" by (rule prod.exhaust)
    note st = place_block_inv [OF inv1 ok(1) Cons.prems(4) pb]
    have same: "arbiter i2 = arbiter i1" by (rule place_block_arbiter [OF pb])
    show ?thesis
    proof (cases pr)
      case (Inl e)
      then have "res = Inl e" "i' = i2" using Cons.prems(1) ar True pb by auto
      moreover have "n = 0" if "arbiter i = None"
        using that Cons.prems(6) fr(2) st Inl sq by (auto simp: steady_def)
      ultimately show ?thesis using st Inl by auto
    next
      case (Inr p)
      obtain bk' n' where p: "p = (bk', n')" by (rule prod.exhaust)
      have pl: "place_blocks now sid blks (bk', n') i2 = (res, i')"
        using Cons.prems(1) ar True pb Inr p by simp
      have st': "loop_inv as_ref msg f buf n' i2" "backing_bytes as_ref bk' = buf"
        "sq \<le> expected_next (reassembler i1) \<Longrightarrow> sq < expected_next (reassembler i2)"
        "expected_next (reassembler i1) < sq \<Longrightarrow> n' = n"
        using st by (auto simp: Inr p sq)
      have "steady (sq + 1) n' i2"
        unfolding steady_def
      proof
        assume "arbiter i2 = None"
        then have none: "arbiter i = None" "i1 = i" using same arb fr(2) by auto
        then show "n' = 0 \<or> sq + 1 \<le> expected_next (reassembler i2)"
          using st'(3,4) Cons.prems(6) inc_le by (cases "sq \<le> expected_next (reassembler i)") (auto simp: steady_def)
      qed
      note IH = Cons.IH [OF pl st'(1) ok(2) st'(2) rest this]
      have eq: "arbiter i2 = None \<longleftrightarrow> arbiter i = None" using same arb by simp
      show ?thesis by (rule IH [unfolded eq])
    qed
  qed
qed

section \<open>One datagram\<close>

definition next_out :: "('t, 'f) inner \<Rightarrow> u64" where
  "next_out i = expected_next (reassembler i) - of_nat (length (data_seqs (ready i)))"

definition current_inline :: "('t, 'f) inner \<Rightarrow> nat" where
  "current_inline i = (case current i of Some it \<Rightarrow> (if is_inline it then 1 else 0) | None \<Rightarrow> 0)"

definition inbox_ok :: "('f \<Rightarrow> bytes) \<Rightarrow> (u64 \<Rightarrow> bytes) \<Rightarrow> ('t, 'f) inner \<Rightarrow> bool" where
  "inbox_ok as_ref msg i \<longleftrightarrow> (\<forall>(sid, d) \<in> set (pending_datagrams i). honest msg (held_bytes as_ref d))
     \<and> (\<forall>f \<in> set (fb_frames (recv_batch i)). honest msg (as_ref f))"

definition rx_inv :: "('f \<Rightarrow> bytes) \<Rightarrow> (u64 \<Rightarrow> bytes) \<Rightarrow> ('t, 'f) inner \<Rightarrow> bool" where
  "rx_inv as_ref msg i \<longleftrightarrow>
     loop_inv as_ref msg (next_out i) (backing_bytes as_ref (backing i)) (inline_count (ready i)) i
     \<and> inline_pending i = inline_count (ready i) + current_inline i
     \<and> (\<not> seq_anchored i \<longrightarrow> ring_held (reassembler i) = Map.empty \<and> data_seqs (ready i) = [])
     \<and> inbox_ok as_ref msg i"

text \<open>The fields decoding a datagram leaves alone.\<close>

definition same_frame :: "('t, 'f) inner \<Rightarrow> ('t, 'f) inner \<Rightarrow> bool" where
  "same_frame i i' \<longleftrightarrow> current i' = current i \<and> pending_datagrams i' = pending_datagrams i
     \<and> recv_batch i' = recv_batch i \<and> seq_anchored i' = seq_anchored i \<and> backing i' = backing i
     \<and> inline_pending i' = inline_pending i \<and> legs i' = legs i \<and> session i' = session i
     \<and> next_unseen i' = next_unseen i \<and> (arbiter i' = None \<longleftrightarrow> arbiter i = None)"

lemma same_frame_refl [simp]: "same_frame i i"
  by (simp add: same_frame_def)

lemma same_frame_trans: "same_frame i j \<Longrightarrow> same_frame j k \<Longrightarrow> same_frame i k"
  by (simp add: same_frame_def)

lemma arbitrate_same: "arbitrate now sid sq i = (b, i') \<Longrightarrow> same_frame i i'"
  by (auto simp: arbitrate_def same_frame_def split: option.splits prod.splits)

lemma place_block_same: "place_block sid blk bi i = (res, i') \<Longrightarrow> same_frame i i'"
proof -
  assume "place_block sid blk bi i = (res, i')"
  from place_block_frame [OF this] obtain g r q where "i' = i\<lparr>gap_handler := g, reassembler := r, ready := q\<rparr>"
    by blast
  then show ?thesis by (simp add: same_frame_def)
qed

lemma place_blocks_same: "place_blocks now sid blks bi i = (res, i') \<Longrightarrow> same_frame i i'"
proof (induction blks arbitrary: bi i)
  case Nil
  then show ?case by simp
next
  case (Cons blk blks)
  obtain b i1 where ar: "arbitrate now sid (fst blk) i = (b, i1)" by (rule prod.exhaust)
  obtain pr i2 where pb: "place_block sid blk bi i1 = (pr, i2)" by (rule prod.exhaust)
  note s1 = arbitrate_same [OF ar] and s2 = place_block_same [OF pb]
  show ?case
  proof (cases b)
    case False
    with Cons.prems ar have "place_blocks now sid blks bi i1 = (res, i')" by simp
    from Cons.IH [OF this] s1 show ?thesis by (rule same_frame_trans [rotated])
  next
    case True
    with Cons.prems ar pb s1 s2 Cons.IH show ?thesis
      by (cases pr) (auto intro: same_frame_trans)
  qed
qed

lemma loop_inv_no_inline: "loop_inv as_ref msg f buf 0 i \<Longrightarrow> loop_inv as_ref msg f buf' 0 i"
proof -
  assume l: "loop_inv as_ref msg f buf 0 i"
  have "item_ok as_ref msg buf' it" if "it \<in> set (ready i)" for it
    using l that by (cases it) (auto simp: loop_inv_def inline_count_def filter_empty_conv)
  with l show ?thesis by (simp add: loop_inv_def)
qed

lemma loop_inv_next_out: "loop_inv as_ref msg f buf n i \<Longrightarrow> next_out i = f"
  by (auto simp: loop_inv_def next_out_def dest!: seq_run_length)

lemma spans_run: "seq_run sq (map fst (spans sq off bs)) (sq + of_nat (length bs))"
proof (induction bs arbitrary: sq off)
  case (Cons b bs)
  from Cons [of "sq + 1"] show ?case by (simp add: add.assoc)
qed simp

lemma collect_blocks_run:
  assumes "collect_blocks sq (header_blocks h buf) = Inr blks"
  shows "seq_run sq (map fst blks) (sq + ucast (message_count h))" "length blks = unat (message_count h)"
proof -
  have "\<not> truncated (header_blocks h buf)" "blocks_left (header_blocks h buf) = message_count h"
    by (simp_all add: header_blocks_def block_iter_new_def)
  with collect_blocks_decodes [OF assms] obtain bs where
    n: "unat (message_count h) = length bs" and b: "blks = spans sq (next_offset (header_blocks h buf)) bs"
    by auto
  have "(ucast (message_count h) :: u64) = of_nat (length bs)"
    unfolding n [symmetric] by (simp add: word_unat_eq_iff unat_of_nat)
  then show "seq_run sq (map fst blks) (sq + ucast (message_count h))" using spans_run [of sq _ bs] b by simp
  show "length blks = unat (message_count h)" by (simp add: b n)
qed

lemma note_jump_inv: "loop_inv as_ref msg f buf n (note_jump now h i) = loop_inv as_ref msg f buf n i"
  by (simp add: note_jump_def Let_def split: option.splits)

lemma note_jump_same:
  "current (note_jump now h i) = current i" "pending_datagrams (note_jump now h i) = pending_datagrams i"
  "recv_batch (note_jump now h i) = recv_batch i" "seq_anchored (note_jump now h i) = seq_anchored i"
  "backing (note_jump now h i) = backing i" "inline_pending (note_jump now h i) = inline_pending i"
  "reassembler (note_jump now h i) = reassembler i" "(arbiter (note_jump now h i) = None) = (arbiter i = None)"
  by (simp_all add: note_jump_def Let_def push_ready_def split: option.splits)

fun is_full :: "mold_error + 'a \<Rightarrow> bool" where
  "is_full (Inl (ReassemblyBufferFull _)) = True"
| "is_full _ = False"

lemma place_block_error:
  assumes "place_block sid blk bi i = (Inl e, i')"
  shows "\<exists>c. e = ReassemblyBufferFull c"
proof -
  obtain sq offset len where blk: "blk = (sq, offset, len)" by (rule prod_cases3)
  obtain bk n where bi: "bi = (bk, n)" by (rule prod.exhaust)
  have "\<exists>d r. reassembler_insert sq (message_view_new d offset len) (reassembler i) = (Inl e, r)"
    using assms unfolding blk bi place_block_def Let_def
    by (auto split: if_split_asm prod.split_asm sum.split_asm bool.split_asm)
  then show ?thesis by (auto simp: reassembler_insert_def Let_def split: if_split_asm)
qed

lemma place_blocks_error:
  "place_blocks now sid blks bi i = (Inl e, i') \<Longrightarrow> \<exists>c. e = ReassemblyBufferFull c"
proof (induction blks arbitrary: bi i)
  case Nil
  then show ?case by simp
next
  case (Cons blk blks)
  obtain b i1 where ar: "arbitrate now sid (fst blk) i = (b, i1)" by (rule prod.exhaust)
  obtain pr i2 where pb: "place_block sid blk bi i1 = (pr, i2)" by (rule prod.exhaust)
  show ?case
  proof (cases b)
    case False
    with Cons.prems ar have "place_blocks now sid blks bi i1 = (Inl e, i')" by simp
    then show ?thesis by (rule Cons.IH)
  next
    case True
    show ?thesis
    proof (cases pr)
      case (Inl e')
      with Cons.prems ar pb True have "e' = e" by simp
      with place_block_error pb Inl show ?thesis by blast
    next
      case (Inr bi')
      with Cons.prems ar pb True have "place_blocks now sid blks bi' i2 = (Inl e, i')" by simp
      then show ?thesis by (rule Cons.IH)
    qed
  qed
qed

lemma decode_data_inv:
  assumes "rx_inv as_ref msg i" "ready i = []" "current i = None" "seq_anchored i"
    "honest msg (held_bytes as_ref d)" "parse_header (held_bytes as_ref d) = Inr h" "header_kind h = KData"
    "decode_data as_ref now sid d h i = (res, i')"
  shows "(\<not> is_full res \<or> arbiter i = None \<longrightarrow> rx_inv as_ref msg i') \<and> next_out i' = next_out i
    \<and> seq_anchored i' \<and> pending_datagrams i' = pending_datagrams i \<and> (arbiter i' = None \<longleftrightarrow> arbiter i = None)"
proof (cases "collect_blocks (sequence_no h) (header_blocks h (held_bytes as_ref d))")
  case (Inl e)
  with assms(1,4,8) show ?thesis by (auto simp: decode_data_def)
next
  case (Inr blks)
  let ?buf = "held_bytes as_ref d" and ?j = "note_jump now h i" and ?f = "next_out i"
  obtain pr i1 where pl: "place_blocks now sid blks (OwnedBacking d, 0) ?j = (pr, i1)" by (rule prod.exhaust)
  have zero: "inline_pending i = 0" "inline_count (ready i) = 0" "current_inline i = 0"
    using assms(1,2,3) by (auto simp: rx_inv_def current_inline_def)
  have "loop_inv as_ref msg ?f (backing_bytes as_ref (backing i)) 0 i" using assms(1) zero by (simp add: rx_inv_def)
  then have l0: "loop_inv as_ref msg ?f ?buf 0 ?j" unfolding note_jump_inv by (rule loop_inv_no_inline)
  have ok: "\<forall>blk \<in> set blks. block_ok msg ?buf blk"
    using assms(5,6,7) Inr unfolding honest_def by blast
  have st: "steady (sequence_no h) 0 ?j" by (simp add: steady_def)
  note inv = place_blocks_inv [OF pl l0 ok _ collect_blocks_run(1) [OF Inr] st]
  note fr = place_blocks_same [OF pl]
  note keep = fr [unfolded same_frame_def note_jump_same]
  have inbox: "inbox_ok as_ref msg i1" using assms(1) keep by (auto simp: rx_inv_def inbox_ok_def)
  show ?thesis
  proof (cases pr)
    case (Inl e)
    then have eq: "res = Inl e" "i' = i1" using assms(8) Inr pl by (auto simp: decode_data_def)
    from inv Inl obtain n' where n': "loop_inv as_ref msg ?f ?buf n' i1" "arbiter ?j = None \<longrightarrow> n' = 0" by auto
    have nx: "next_out i1 = ?f" by (rule loop_inv_next_out [OF n'(1)])
    have "rx_inv as_ref msg i1" if "arbiter i = None"
    proof -
      have l: "loop_inv as_ref msg ?f ?buf 0 i1" using n' that by (simp add: note_jump_same)
      then have "inline_count (ready i1) = 0" by (simp add: loop_inv_def)
      with loop_inv_no_inline [OF l] nx keep zero assms(3,4) inbox show ?thesis
        by (simp add: rx_inv_def current_inline_def)
    qed
    moreover have "is_full res" using place_blocks_error [OF pl [unfolded Inl]] eq by auto
    ultimately show ?thesis using eq nx keep assms(4) by auto
  next
    case (Inr p)
    obtain bk n where p: "p = (bk, n)" by (rule prod.exhaust)
    have l: "loop_inv as_ref msg ?f ?buf n i1" and bk: "backing_bytes as_ref bk = ?buf"
      using inv by (auto simp: Inr p)
    have eq: "res = Inr ()" "i' = (if 0 < n then i1\<lparr>backing := bk, inline_pending := n\<rparr> else i1)"
      using assms(8) pl \<open>collect_blocks _ _ = Inr blks\<close> by (auto simp: decode_data_def Inr p)
    have n: "inline_count (ready i1) = n" using l by (simp add: loop_inv_def)
    have nx: "next_out i1 = ?f" by (rule loop_inv_next_out [OF l])
    have "rx_inv as_ref msg i'"
    proof (cases "0 < n")
      case True
      with l bk n nx keep assms(3,4) inbox show ?thesis
        by (simp add: eq rx_inv_def loop_inv_def current_inline_def next_out_def inbox_ok_def)
    next
      case False
      with loop_inv_no_inline [of as_ref msg ?f ?buf i1] l n nx keep zero assms(3,4) inbox show ?thesis
        by (simp add: eq rx_inv_def current_inline_def)
    qed
    moreover have "next_out i' = ?f" using nx by (simp add: eq next_out_def)
    ultimately show ?thesis using eq keep assms(4) by auto
  qed
qed

lemma accept_header_inv:
  fixes i :: "('t, 'f) inner"
  assumes "rx_inv as_ref msg i" "ready i = []" "accept_header h i = (res, i')"
  shows "rx_inv as_ref msg i' \<and> ready i' = [] \<and> current i' = current i
    \<and> (seq_anchored i \<longrightarrow> next_out i' = next_out i) \<and> (seq_anchored i \<longrightarrow> seq_anchored i')
    \<and> (res = Inr () \<longrightarrow> seq_anchored i') \<and> pending_datagrams i' = pending_datagrams i
    \<and> (arbiter i' = None \<longleftrightarrow> arbiter i = None)"
proof -
  have anchored: "rx_inv as_ref msg (j\<lparr>reassembler := reset_expected e (reassembler j), next_unseen := e,
      arbiter := a, seq_anchored := True\<rparr>)"
    if "rx_inv as_ref msg j" "ready j = []" "\<not> seq_anchored j" for j :: "('t, 'f) inner" and e a
    using that
    by (auto simp: rx_inv_def loop_inv_def ring_good_def reset_expected_def settled_at_def next_out_def
        current_inline_def inbox_ok_def)
  have sess: "rx_inv as_ref msg (i\<lparr>session := s\<rparr>)" for s
    using assms(1) by (simp add: rx_inv_def next_out_def current_inline_def inbox_ok_def)
  show ?thesis
    using assms
      anchored [where j = i and e = "sequence_no h" and a = "map_option (rebase (sequence_no h)) (arbiter i)"]
      anchored [where j = "i\<lparr>session := Some (session_id h)\<rparr>" and e = "sequence_no h"
        and a = "map_option (rebase (sequence_no h)) (arbiter i)"]
      sess [of "Some (session_id h)"]
    by (auto simp: accept_header_def Let_def next_out_def split: option.splits if_splits)
qed

lemma push_event_inv:
  "rx_inv as_ref msg (push_ready [Gap] i) = rx_inv as_ref msg i"
  "rx_inv as_ref msg (push_ready [Event ev] i) = rx_inv as_ref msg i"
  by (auto simp: rx_inv_def push_ready_def loop_inv_def next_out_def current_inline_def inbox_ok_def)

lemma note_tail_gap_inv:
  "rx_inv as_ref msg (note_tail_gap e i) = rx_inv as_ref msg i"
proof -
  have "rx_inv as_ref msg (i\<lparr>next_unseen := e, gap_handler := g\<rparr>) = rx_inv as_ref msg i" for g
    by (simp add: rx_inv_def loop_inv_def next_out_def current_inline_def inbox_ok_def)
  then show ?thesis by (simp add: note_tail_gap_def push_event_inv)
qed

lemma note_tail_gap_same:
  "next_out (note_tail_gap e i) = next_out i" "seq_anchored (note_tail_gap e i) = seq_anchored i"
  "pending_datagrams (note_tail_gap e i) = pending_datagrams i" "arbiter (note_tail_gap e i) = arbiter i"
  by (simp_all add: note_tail_gap_def push_ready_def next_out_def)

lemma push_event_same:
  "next_out (push_ready [Event ev] i) = next_out i" "seq_anchored (push_ready [Event ev] i) = seq_anchored i"
  "pending_datagrams (push_ready [Event ev] i) = pending_datagrams i"
  "arbiter (push_ready [Event ev] i) = arbiter i"
  by (simp_all add: push_ready_def next_out_def)

text \<open>Decoding a datagram keeps the invariant and never moves the next sequence to hand out.\<close>

lemma decode_datagram_inv:
  assumes "rx_inv as_ref msg i" "ready i = []" "current i = None" "honest msg (held_bytes as_ref d)"
    "decode_datagram as_ref now sid d i = (res, i')"
  shows "(\<not> is_full res \<or> arbiter i = None \<longrightarrow> rx_inv as_ref msg i')
    \<and> (seq_anchored i \<longrightarrow> seq_anchored i' \<and> next_out i' = next_out i)
    \<and> pending_datagrams i' = pending_datagrams i \<and> (arbiter i' = None \<longleftrightarrow> arbiter i = None)"
proof (cases "parse_header (held_bytes as_ref d)")
  case (Inl e)
  with assms(1,5) show ?thesis by (auto simp: decode_datagram_def)
next
  case h: (Inr h)
  obtain ar i1 where ah: "accept_header h i = (ar, i1)" by (rule prod.exhaust)
  note acc = accept_header_inv [OF assms(1,2) ah]
  show ?thesis
  proof (cases ar)
    case (Inl e)
    with assms(5) h ah acc show ?thesis by (auto simp: decode_datagram_def)
  next
    case (Inr u)
    show ?thesis
    proof (cases "header_kind h")
      case KData
      have "decode_data as_ref now sid d h i1 = (res, i')"
        using assms(5) h ah Inr KData by (simp add: decode_datagram_def)
      from decode_data_inv [OF _ _ _ _ assms(4) h KData this] acc Inr assms(3)
      show ?thesis by auto
    qed (use assms(5) h ah Inr acc in \<open>auto simp: decode_datagram_def push_event_inv note_tail_gap_inv
        note_tail_gap_same push_event_same\<close>)
  qed
qed

end
