(* ===== verification/Mold_Receiver.thy ===== *)
theory Mold_Receiver
  imports Mold_Order
begin

text \<open>
  The receiver of \<^verbatim>\<open>crates/clients/moldudp/src/receiver\<close>: construction (\<^verbatim>\<open>construct.rs\<close>,
  \<^verbatim>\<open>config.rs\<close>), recovery modes (\<^verbatim>\<open>recovery.rs\<close>), the synchronous pump and poll (\<^verbatim>\<open>recv.rs\<close>) and the
  asynchronous wrappers (\<^verbatim>\<open>wait.rs\<close>).

  What the sources take from outside is the record \<open>rx_env\<close>: the legs' \<^verbatim>\<open>recv_burst\<close>, the frame
  type's \<^verbatim>\<open>as_ref\<close>, the clock (reading it is a step of the world state \<open>'w\<close>) and the two operations
  of the sealed recovery trait, which \<open>no_recovery_env\<close> and \<open>requester_env\<close> fill in the way the two
  recovery modes do. The pump loop may run as long as the legs deliver, so it is a partial function whose
  value \<open>None\<close> means that it does not return.
\<close>

section \<open>Construction\<close>

record mold_config =
  cfg_max_rerequests :: u32
  cfg_gap_confirm_window :: duration
  cfg_start_sequence :: "u64 option"

definition mold_config_default :: mold_config where
  "mold_config_default = \<lparr>cfg_max_rerequests = 4, cfg_gap_confirm_window = 5 * 10 ^ 6, cfg_start_sequence = None\<rparr>"

fun check_leg_pools :: "('t \<Rightarrow> pool_stats) \<Rightarrow> nat \<Rightarrow> 't list \<Rightarrow> mold_error + unit" where
  "check_leg_pools stats_of k [] = Inr ()"
| "check_leg_pools stats_of k (t # ts) =
     (if ps_capacity (stats_of t) < MIN_LEG_POOL_CAPACITY
      then Inl (PoolTooSmall k (ps_capacity (stats_of t)) MIN_LEG_POOL_CAPACITY)
      else check_leg_pools stats_of (k + 1) ts)"

definition confirm_window_ms :: "duration \<Rightarrow> u64" where
  "confirm_window_ms d = (if d div 10 ^ 6 < 2 ^ 64 then of_nat (d div 10 ^ 6) else - 1)"

definition from_legs :: "('t \<Rightarrow> pool_stats) \<Rightarrow> mold_config \<Rightarrow> 't list \<Rightarrow> mold_error + ('t, 'f) inner" where
  "from_legs stats_of cfg ls =
     (let count = length ls in
      if \<not> (0 < count \<and> count < 256) then Inl (LegCount count)
      else case check_leg_pools stats_of 0 ls of
        Inl e \<Rightarrow> Inl e
      | Inr _ \<Rightarrow>
          (let arb = (if count > 1 then arbiter_new count RING_CAPACITY (confirm_window_ms (cfg_gap_confirm_window cfg))
                      else None);
               ra = the (reassembler_new RING_CAPACITY);
               ra' = (case cfg_start_sequence cfg of None \<Rightarrow> ra | Some start \<Rightarrow> reset_expected start ra);
               arb' = (case cfg_start_sequence cfg of None \<Rightarrow> arb | Some start \<Rightarrow> map_option (rebase start) arb)
           in Inr \<lparr>legs = ls, recovery_stream = of_nat count, session = None, reassembler = ra',
                   next_unseen = expected_next ra', gap_handler = gap_handler_new, arbiter = arb',
                   max_rerequests_per_gap_per_sec = cfg_max_rerequests cfg, ready = [], current = None,
                   pending_datagrams = [], backing = backing_empty, inline_pending = 0,
                   seq_anchored = (cfg_start_sequence cfg \<noteq> None),
                   recv_batch = batch_with_capacity MAX_INFLIGHT_BURST\<rparr>))"

section \<open>Environment and recovery modes\<close>

record ('t, 'f, 'r, 'w) rx_env =
  env_recv :: "('t, 'f) recv_op"
  env_as_ref :: "'f \<Rightarrow> bytes"
  env_clock :: "'w \<Rightarrow> instant \<times> 'w"
  env_send_due :: "bytes \<Rightarrow> gap_handler \<Rightarrow> 'r \<Rightarrow> 'w \<Rightarrow> 'r \<times> 'w"
  env_poll_frames :: "'r \<Rightarrow> (transport_error + bool) \<times> bytes list \<times> 'r"

definition no_recovery_env ::
  "('t, 'f) recv_op \<Rightarrow> ('f \<Rightarrow> bytes) \<Rightarrow> ('w \<Rightarrow> instant \<times> 'w) \<Rightarrow> ('t, 'f, unit, 'w) rx_env" where
  "no_recovery_env recv as_ref clock =
     \<lparr>env_recv = recv, env_as_ref = as_ref, env_clock = clock,
      env_send_due = (\<lambda>_ _ r w. (r, w)), env_poll_frames = (\<lambda>r. (Inr False, [], r))\<rparr>"

record ('q, 'g) requester =
  rq_sock :: 'q
  rq_emitter :: emitter
  rq_scratch :: "'g frame_batch"

definition requester_new :: "'q \<Rightarrow> socket_addr \<Rightarrow> u32 \<Rightarrow> nat \<Rightarrow> ('q, 'g) requester" where
  "requester_new sock server limit burst =
     \<lparr>rq_sock = sock, rq_emitter = emitter_new server limit, rq_scratch = batch_with_capacity burst\<rparr>"

definition requester_send_due ::
  "'q send_op \<Rightarrow> ('w \<Rightarrow> instant \<times> 'w) \<Rightarrow> bytes \<Rightarrow> gap_handler \<Rightarrow> ('q, 'g) requester \<Rightarrow> 'w
     \<Rightarrow> ('q, 'g) requester \<times> 'w" where
  "requester_send_due send_to clock sess gh rq w =
     (let (now, w') = clock w;
          (res, em, sock) = emit send_to (pending_gaps gh) sess (rq_emitter rq) (rq_sock rq) now
      in (rq\<lparr>rq_emitter := em, rq_sock := sock\<rparr>, w'))"

definition requester_poll_frames ::
  "('q, 'g) recv_op \<Rightarrow> ('g \<Rightarrow> bytes) \<Rightarrow> ('q, 'g) requester \<Rightarrow> (transport_error + bool) \<times> bytes list \<times> ('q, 'g) requester" where
  "requester_poll_frames recv as_ref rq =
     (case recv (rq_sock rq) (rq_scratch rq) of
        (Inl e, sock, batch) \<Rightarrow> (Inl e, [], rq\<lparr>rq_sock := sock, rq_scratch := batch\<rparr>)
      | (Inr n, sock, batch) \<Rightarrow>
          (let (frames, batch') = batch_drain batch in
           (Inr (n > 0), map as_ref frames, rq\<lparr>rq_sock := sock, rq_scratch := batch'\<rparr>)))"

definition requester_env ::
  "('t, 'f) recv_op \<Rightarrow> ('f \<Rightarrow> bytes) \<Rightarrow> ('w \<Rightarrow> instant \<times> 'w) \<Rightarrow> ('q, 'g) recv_op \<Rightarrow> ('g \<Rightarrow> bytes) \<Rightarrow> 'q send_op
     \<Rightarrow> ('t, 'f, ('q, 'g) requester, 'w) rx_env" where
  "requester_env recv as_ref clock rq_recv rq_as_ref rq_send =
     \<lparr>env_recv = recv, env_as_ref = as_ref, env_clock = clock,
      env_send_due = requester_send_due rq_send clock,
      env_poll_frames = requester_poll_frames rq_recv rq_as_ref\<rparr>"

definition with_requester :: "'q \<Rightarrow> socket_addr \<Rightarrow> ('t, 'f) inner \<Rightarrow> ('t, 'f) inner \<times> ('q, 'g) requester" where
  "with_requester sock server i =
     (i, requester_new sock server (max_rerequests_per_gap_per_sec i) MAX_INFLIGHT_BURST)"

section \<open>Pump and poll\<close>

text \<open>The polling half of one round: every leg, then the requester while a gap is pending.\<close>

definition gather :: "('t, 'f, 'r, 'w) rx_env \<Rightarrow> ('t, 'f) inner \<Rightarrow> 'r \<Rightarrow> (mold_error + bool) \<times> ('t, 'f) inner \<times> 'r" where
  "gather env i r =
     (case poll_legs (env_recv env) i of
        (Inl e, i1) \<Rightarrow> (Inl e, i1, r)
      | (Inr landed, i1) \<Rightarrow>
          (if has_pending (gap_handler i1) then
             (case env_poll_frames env r of
                (Inl e, copies, r1) \<Rightarrow> (Inl (Transport e), i1, r1)
              | (Inr arrived, copies, r1) \<Rightarrow>
                  (Inr (landed \<or> arrived),
                   i1\<lparr>pending_datagrams := pending_datagrams i1 @ map (\<lambda>bs. (recovery_stream i1, Copied bs)) copies\<rparr>, r1))
           else (Inr landed, i1, r)))"

text \<open>\<^verbatim>\<open>inner.arbiter.is_some().then(Instant::now)\<close>.\<close>

definition arbiter_clock :: "('t, 'f, 'r, 'w) rx_env \<Rightarrow> ('t, 'f) inner \<Rightarrow> 'w \<Rightarrow> instant option \<times> 'w" where
  "arbiter_clock env i w =
     (case arbiter i of None \<Rightarrow> (None, w) | Some _ \<Rightarrow> (let (t, w') = env_clock env w in (Some t, w')))"

definition settle_gaps :: "instant option \<Rightarrow> ('t, 'f) inner \<Rightarrow> ('t, 'f) inner" where
  "settle_gaps now i = (case now of None \<Rightarrow> i | Some t \<Rightarrow> drain_confirmed_gaps t i)"

partial_function (option) pump_loop ::
  "('t, 'f, 'r, 'w) rx_env \<Rightarrow> ('t, 'f) inner \<Rightarrow> 'r \<Rightarrow> 'w \<Rightarrow> ((mold_error + unit) \<times> ('t, 'f) inner \<times> 'r \<times> 'w) option" where
  "pump_loop env i r w =
     (if ready i \<noteq> [] then Some (Inr (), i, r, w)
      else case (if pending_datagrams i = [] then gather env i r else (Inr True, i, r)) of
        (Inl e, i1, r1) \<Rightarrow> Some (Inl e, i1, r1, w)
      | (Inr landed, i1, r1) \<Rightarrow>
          (if \<not> landed then Some (Inr (), i1, r1, w)
           else case arbiter_clock env i1 w of
             (now, w1) \<Rightarrow>
               (case process_next_pending (env_as_ref env) now i1 of
                  (Inl e, i2) \<Rightarrow> Some (Inl e, i2, r1, w1)
                | (Inr _, i2) \<Rightarrow> pump_loop env (settle_gaps now i2) r1 w1)))"

definition send_due_gaps :: "('t, 'f, 'r, 'w) rx_env \<Rightarrow> ('t, 'f) inner \<Rightarrow> 'r \<Rightarrow> 'w \<Rightarrow> 'r \<times> 'w" where
  "send_due_gaps env i r w =
     (if has_pending (gap_handler i) then
        (case session i of None \<Rightarrow> (r, w) | Some s \<Rightarrow> env_send_due env s (gap_handler i) r w)
      else (r, w))"

definition pump ::
  "('t, 'f, 'r, 'w) rx_env \<Rightarrow> ('t, 'f) inner \<Rightarrow> 'r \<Rightarrow> 'w \<Rightarrow> ((mold_error + unit) \<times> ('t, 'f) inner \<times> 'r \<times> 'w) option" where
  "pump env i r w = (case send_due_gaps env i r w of (r1, w1) \<Rightarrow> pump_loop env i r1 w1)"

text \<open>
  The outer \<open>option\<close> is whether the call returns, the inner one whether it panics (slice out of
  range).
\<close>

type_synonym ('t, 'f, 'r, 'w, 'o) rx_result = "((mold_error + 'o) option \<times> ('t, 'f) inner \<times> 'r \<times> 'w) option"

definition poll ::
  "('t, 'f, 'r, 'w) rx_env \<Rightarrow> ('t, 'f) inner \<Rightarrow> 'r \<Rightarrow> 'w \<Rightarrow> ('t, 'f, 'r, 'w, 'f mold_outcome option) rx_result" where
  "poll env i r w =
     (case pump env (retire_current i) r w of
        None \<Rightarrow> None
      | Some (Inl e, i1, r1, w1) \<Rightarrow> Some (Some (Inl e), i1, r1, w1)
      | Some (Inr _, i1, r1, w1) \<Rightarrow>
          (case ready i1 of
             [] \<Rightarrow> Some (Some (Inr None), i1, r1, w1)
           | item # rest \<Rightarrow>
               (case yield_item (env_as_ref env) item (i1\<lparr>ready := rest\<rparr>) of
                  (out, i2) \<Rightarrow> Some (map_option (map_sum id Some) out, i2, r1, w1))))"

section \<open>Asynchronous wrappers\<close>

text \<open>
  One wake-up of \<^verbatim>\<open>wait_ready\<close>: the readiness futures of the legs are polled in order, the
  requester's only while a gap is pending. A future that is not ready polls to \<open>None\<close>.
\<close>

fun wait_poll :: "(transport_error + unit) option list \<Rightarrow> bool \<Rightarrow> (transport_error + unit) option \<Rightarrow> (transport_error + unit) option" where
  "wait_poll [] gap_pending requester = (if gap_pending then requester else None)"
| "wait_poll (Some res # ps) gap_pending requester = Some res"
| "wait_poll (None # ps) gap_pending requester = wait_poll ps gap_pending requester"

text \<open>
  \<open>wait\<close> is what awaiting resolves to in a given world: the readiness results at the wake-up and the
  world after it.
\<close>

type_synonym ('t, 'r, 'w) wait_op =
  "'t list \<Rightarrow> 'r \<Rightarrow> 'w \<Rightarrow> (transport_error + unit) option list \<times> (transport_error + unit) option \<times> 'w"

partial_function (option) wait_ready ::
  "('t, 'r, 'w) wait_op \<Rightarrow> bool \<Rightarrow> 't list \<Rightarrow> 'r \<Rightarrow> 'w \<Rightarrow> ((transport_error + unit) \<times> 'w) option" where
  "wait_ready wait gap_pending ls r w =
     (case wait ls r w of
        (polls, rq, w1) \<Rightarrow>
          (case wait_poll polls gap_pending rq of
             Some res \<Rightarrow> Some (res, w1)
           | None \<Rightarrow> wait_ready wait gap_pending ls r w1))"

partial_function (option) next_item ::
  "('t, 'f, 'r, 'w) rx_env \<Rightarrow> ('t, 'r, 'w) wait_op \<Rightarrow> ('t, 'f) inner \<Rightarrow> 'r \<Rightarrow> 'w
     \<Rightarrow> ((mold_error + 'f ready_item) \<times> ('t, 'f) inner \<times> 'r \<times> 'w) option" where
  "next_item env wait i r w =
     Option.bind (pump env i r w) (\<lambda>(res, i1, r1, w1).
       case res of
         Inl e \<Rightarrow> Some (Inl e, i1, r1, w1)
       | Inr _ \<Rightarrow>
           (case ready i1 of
              item # rest \<Rightarrow> Some (Inr item, i1\<lparr>ready := rest\<rparr>, r1, w1)
            | [] \<Rightarrow>
                Option.bind (wait_ready wait (has_pending (gap_handler i1)) (legs i1) r1 w1) (\<lambda>(wres, w2).
                  case wres of
                    Inl e \<Rightarrow> Some (Inl (Transport e), i1, r1, w2)
                  | Inr _ \<Rightarrow> next_item env wait i1 r1 w2)))"

definition recv ::
  "('t, 'f, 'r, 'w) rx_env \<Rightarrow> ('t, 'r, 'w) wait_op \<Rightarrow> ('t, 'f) inner \<Rightarrow> 'r \<Rightarrow> 'w
     \<Rightarrow> ('t, 'f, 'r, 'w, 'f mold_outcome) rx_result" where
  "recv env wait i r w =
     (case next_item env wait (retire_current i) r w of
        None \<Rightarrow> None
      | Some (Inl e, i1, r1, w1) \<Rightarrow> Some (Some (Inl e), i1, r1, w1)
      | Some (Inr item, i1, r1, w1) \<Rightarrow>
          (case yield_item (env_as_ref env) item i1 of (out, i2) \<Rightarrow> Some (out, i2, r1, w1)))"

definition recv_owned ::
  "('t, 'f, 'r, 'w) rx_env \<Rightarrow> ('t, 'r, 'w) wait_op \<Rightarrow> ('t, 'f) inner \<Rightarrow> 'r \<Rightarrow> 'w
     \<Rightarrow> ('t, 'f, 'r, 'w, 'f mold_outcome) rx_result" where
  "recv_owned env wait i r w =
     (case next_item env wait (retire_current i) r w of
        None \<Rightarrow> None
      | Some (Inl e, i1, r1, w1) \<Rightarrow> Some (Some (Inl e), i1, r1, w1)
      | Some (Inr item, i1, r1, w1) \<Rightarrow>
          (case yield_owned item i1 of (out, i2) \<Rightarrow> Some (Some out, i2, r1, w1)))"

record receiver_stats =
  rs_arbiter :: "stream_stats list option"
  rs_pending_gaps :: "gap_request list"

definition receiver_stats_of :: "('t, 'f) inner \<Rightarrow> receiver_stats" where
  "receiver_stats_of i = \<lparr>rs_arbiter = map_option arbiter_stats (arbiter i),
     rs_pending_gaps = pending_gaps (gap_handler i)\<rparr>"

end
