(* ===== verification/Mold_Delivery.thy ===== *)
theory Mold_Delivery
  imports Mold_Receiver
begin

text \<open>
  What the receiver as a whole delivers: the pump keeps the invariant of the decode path, and each
  \<^verbatim>\<open>poll\<close> hands out the next message of the feed or nothing.
\<close>

section \<open>Honest environments\<close>

text \<open>
  The documented behaviour of the transports: what a leg or the requester delivers is a datagram of
  the feed. \<open>okl\<close> and \<open>okr\<close> are invariants of the transports' own states.
\<close>

definition honest_env ::
  "('t, 'f, 'r, 'w) rx_env \<Rightarrow> (u64 \<Rightarrow> bytes) \<Rightarrow> ('t \<Rightarrow> bool) \<Rightarrow> ('r \<Rightarrow> bool) \<Rightarrow> bool" where
  "honest_env env msg okl okr \<longleftrightarrow>
     (\<forall>t b res t' b'. okl t \<longrightarrow> env_recv env t b = (res, t', b') \<longrightarrow>
        okl t' \<and> (\<forall>f \<in> set (fb_frames b'). f \<in> set (fb_frames b) \<or> honest msg (env_as_ref env f)))
     \<and> (\<forall>r res cs r'. okr r \<longrightarrow> env_poll_frames env r = (res, cs, r') \<longrightarrow> okr r' \<and> (\<forall>c \<in> set cs. honest msg c))
     \<and> (\<forall>s g r w. okr r \<longrightarrow> okr (fst (env_send_due env s g r w)))"

lemma poll_legs_loop_honest:
  assumes "honest_env env msg okl okr"
  shows "poll_legs_loop (env_recv env) k ls batch pend landed = (res, ls', batch', pend') \<Longrightarrow>
    (\<forall>t \<in> set ls. okl t) \<Longrightarrow> (\<forall>f \<in> set (fb_frames batch). honest msg (env_as_ref env f)) \<Longrightarrow>
    (\<forall>(sid, d) \<in> set pend. honest msg (held_bytes (env_as_ref env) d)) \<Longrightarrow>
    (\<forall>t \<in> set ls'. okl t) \<and> (\<forall>f \<in> set (fb_frames batch'). honest msg (env_as_ref env f))
    \<and> (\<forall>(sid, d) \<in> set pend'. honest msg (held_bytes (env_as_ref env) d))"
proof (induction ls arbitrary: k batch pend landed res ls' batch' pend')
  case Nil
  then show ?case by simp
next
  case (Cons leg rest)
  obtain rr leg1 b1 where rb: "env_recv env leg batch = (rr, leg1, b1)" by (rule prod_cases3)
  have one: "okl leg1" "\<forall>f \<in> set (fb_frames b1). honest msg (env_as_ref env f)"
    using assms rb Cons.prems(2,3) unfolding honest_env_def by (auto, blast+)
  have rest: "\<forall>t \<in> set rest. okl t" using Cons.prems(2) by simp
  consider (stop) "255 < k" | (err) e where "\<not> 255 < k" "rr = Inl e" | (idle) "\<not> 255 < k" "rr = Inr 0"
    | (got) n where "\<not> 255 < k" "rr = Inr n" "n \<noteq> 0"
    by (cases rr) blast+
  then show ?case
  proof cases
    case stop
    with Cons.prems show ?thesis by auto
  next
    case err
    with rb Cons.prems one show ?thesis by auto
  next
    case idle
    then obtain ls2 where rec: "poll_legs_loop (env_recv env) (k + 1) rest b1 pend landed = (res, ls2, batch', pend')"
      and ls': "ls' = leg1 # ls2"
      using Cons.prems(1) rb by (auto split: prod.splits)
    from Cons.IH [OF rec rest one(2) Cons.prems(4)] one(1) show ?thesis by (simp add: ls')
  next
    case got
    let ?pend = "pend @ map (\<lambda>f. (of_nat k, HeldFrame f)) (fb_frames b1)"
    obtain ls2 where rec: "poll_legs_loop (env_recv env) (k + 1) rest (b1\<lparr>fb_frames := []\<rparr>) ?pend True
        = (res, ls2, batch', pend')" and ls': "ls' = leg1 # ls2"
      using Cons.prems(1) rb got by (auto simp: batch_drain_def split: prod.splits)
    have "\<forall>(sid, d) \<in> set ?pend. honest msg (held_bytes (env_as_ref env) d)"
      using Cons.prems(4) one(2) by auto
    from Cons.IH [OF rec rest _ this] one(1) show ?thesis by (simp add: ls')
  qed
qed

definition rx_ok ::
  "('t, 'f, 'r, 'w) rx_env \<Rightarrow> (u64 \<Rightarrow> bytes) \<Rightarrow> ('t \<Rightarrow> bool) \<Rightarrow> ('r \<Rightarrow> bool) \<Rightarrow> ('t, 'f) inner \<Rightarrow> 'r \<Rightarrow> bool" where
  "rx_ok env msg okl okr i r \<longleftrightarrow> rx_inv (env_as_ref env) msg i \<and> (\<forall>t \<in> set (legs i). okl t) \<and> okr r"

text \<open>Changing the legs, the batch or the inbox touches nothing the order of delivery depends on.\<close>

lemma rx_inv_inbox:
  assumes "rx_inv as_ref msg i" "\<forall>(sid, d) \<in> set pend. honest msg (held_bytes as_ref d)"
    "\<forall>f \<in> set (fb_frames batch). honest msg (as_ref f)"
  shows "rx_inv as_ref msg (i\<lparr>legs := ls, recv_batch := batch, pending_datagrams := pend\<rparr>)"
  using assms by (simp add: rx_inv_def loop_inv_def next_out_def current_inline_def inbox_ok_def)

lemma gather_ok:
  assumes "honest_env env msg okl okr" "rx_ok env msg okl okr i r" "gather env i r = (res, i', r')"
  shows "rx_ok env msg okl okr i' r' \<and> ready i' = ready i \<and> current i' = current i \<and> next_out i' = next_out i
    \<and> seq_anchored i' = seq_anchored i \<and> arbiter i' = arbiter i"
proof -
  obtain pr ls b p where pl: "poll_legs_loop (env_recv env) 0 (legs i) (recv_batch i) (pending_datagrams i) False
      = (pr, ls, b, p)" by (rule prod_cases4)
  let ?i = "i\<lparr>legs := ls, recv_batch := b, pending_datagrams := p\<rparr>"
  have ok: "rx_inv (env_as_ref env) msg i" "\<forall>t \<in> set (legs i). okl t" "okr r"
    using assms(2) by (auto simp: rx_ok_def)
  then have box: "\<forall>(sid, d) \<in> set (pending_datagrams i). honest msg (held_bytes (env_as_ref env) d)"
    "\<forall>f \<in> set (fb_frames (recv_batch i)). honest msg (env_as_ref env f)"
    by (auto simp: rx_inv_def inbox_ok_def)
  note h = poll_legs_loop_honest [OF assms(1) pl ok(2) box(2) box(1)]
  have pol: "poll_legs (env_recv env) i = (pr, ?i)" by (simp add: poll_legs_def pl)
  have base: "rx_ok env msg okl okr ?i r"
    using rx_inv_inbox [OF ok(1)] h ok(3) by (simp add: rx_ok_def)
  obtain fr cs r1 where pf: "env_poll_frames env r = (fr, cs, r1)" by (rule prod_cases3)
  have rec: "okr r1" "\<forall>c \<in> set cs. honest msg c"
    using assms(1) pf ok(3) unfolding honest_env_def by blast+
  have "\<forall>(sid, d) \<in> set (p @ map (\<lambda>bs. (recovery_stream i, Copied bs)) cs). honest msg (held_bytes (env_as_ref env) d)"
    using h rec(2) by auto
  then have more: "rx_ok env msg okl okr (i\<lparr>legs := ls, recv_batch := b,
      pending_datagrams := p @ map (\<lambda>bs. (recovery_stream i, Copied bs)) cs\<rparr>) r1"
    using rx_inv_inbox [OF ok(1)] h rec(1) by (simp add: rx_ok_def)
  have base1: "rx_ok env msg okl okr ?i r1" using base rec(1) by (simp add: rx_ok_def)
  have "(i' = ?i \<and> (r' = r \<or> r' = r1)) \<or> i' = i\<lparr>legs := ls, recv_batch := b,
      pending_datagrams := p @ map (\<lambda>bs. (recovery_stream i, Copied bs)) cs\<rparr> \<and> r' = r1"
    using assms(3) pf pol by (auto simp: gather_def split: sum.split_asm if_split_asm)
  with base base1 more show ?thesis by (auto simp: next_out_def)
qed

lemma decode_data_frame:
  assumes "decode_data as_ref now sid d h i = (res, i')"
  shows "legs i' = legs i \<and> current i' = current i"
proof (cases "collect_blocks (sequence_no h) (header_blocks h (held_bytes as_ref d))")
  case (Inl e)
  with assms show ?thesis by (auto simp: decode_data_def)
next
  case (Inr blks)
  obtain pr i1 where pl: "place_blocks now sid blks (OwnedBacking d, 0) (note_jump now h i) = (pr, i1)"
    by (rule prod.exhaust)
  have j: "legs (note_jump now h i) = legs i" "current (note_jump now h i) = current i"
    by (simp_all add: note_jump_def Let_def push_ready_def split: option.splits)
  from place_blocks_same [OF pl] j have "legs i1 = legs i" "current i1 = current i"
    by (simp_all add: same_frame_def)
  with assms Inr pl show ?thesis
    by (auto simp: decode_data_def split: sum.split_asm prod.split_asm if_split_asm)
qed

lemma accept_header_frame:
  "accept_header h i = (res, i') \<Longrightarrow> legs i' = legs i \<and> current i' = current i"
  by (auto simp: accept_header_def Let_def split: option.split_asm if_split_asm)

lemma decode_datagram_frame:
  assumes "decode_datagram as_ref now sid d i = (res, i')"
  shows "legs i' = legs i \<and> current i' = current i"
proof (cases "parse_header (held_bytes as_ref d)")
  case (Inl e)
  with assms show ?thesis by (auto simp: decode_datagram_def)
next
  case (Inr h)
  obtain ar i1 where ah: "accept_header h i = (ar, i1)" by (rule prod.exhaust)
  note fr = accept_header_frame [OF ah]
  show ?thesis
  proof (cases ar)
    case (Inl e)
    with assms Inr ah fr show ?thesis by (auto simp: decode_datagram_def)
  next
    case r: (Inr u)
    show ?thesis
    proof (cases "header_kind h")
      case KData
      with assms Inr ah r have "decode_data as_ref now sid d h i1 = (res, i')"
        by (simp add: decode_datagram_def)
      from decode_data_frame [OF this] fr show ?thesis by simp
    qed (use assms Inr ah r fr in \<open>auto simp: decode_datagram_def push_ready_def note_tail_gap_def\<close>)
  qed
qed

lemma process_ok:
  assumes "rx_ok env msg okl okr i r" "ready i = []" "current i = None"
    "process_next_pending (env_as_ref env) now i = (res, i')"
  shows "(\<not> is_full res \<or> arbiter i = None \<longrightarrow> rx_ok env msg okl okr i' r)
    \<and> (seq_anchored i \<longrightarrow> seq_anchored i' \<and> next_out i' = next_out i) \<and> current i' = None
    \<and> (arbiter i' = None \<longleftrightarrow> arbiter i = None)"
proof (cases "pending_datagrams i")
  case Nil
  with assms show ?thesis by (auto simp: process_next_pending_def)
next
  case (Cons p rest)
  obtain sid d where p: "p = (sid, d)" by (rule prod.exhaust)
  let ?i = "i\<lparr>pending_datagrams := rest\<rparr>"
  have inv: "rx_inv (env_as_ref env) msg i" "\<forall>t \<in> set (legs i). okl t" "okr r"
    using assms(1) by (auto simp: rx_ok_def)
  then have hon: "honest msg (held_bytes (env_as_ref env) d)"
    by (simp add: rx_inv_def inbox_ok_def Cons p)
  have inv': "rx_inv (env_as_ref env) msg ?i"
    using inv(1) Cons by (simp add: rx_inv_def loop_inv_def next_out_def current_inline_def inbox_ok_def)
  have dd: "decode_datagram (env_as_ref env) now sid d ?i = (res, i')"
    using assms(4) by (simp add: process_next_pending_def Cons p)
  from decode_datagram_inv [OF inv' _ _ hon dd] decode_datagram_frame [OF dd] assms(2,3) inv(2,3)
  show ?thesis by (auto simp: rx_ok_def next_out_def)
qed

lemma settle_gaps_ok:
  "rx_ok env msg okl okr (settle_gaps now i) r = rx_ok env msg okl okr i r"
  "next_out (settle_gaps now i) = next_out i" "seq_anchored (settle_gaps now i) = seq_anchored i"
  "current (settle_gaps now i) = current i" "(arbiter (settle_gaps now i) = None) = (arbiter i = None)"
proof -
  have gaps: "data_seqs (map (\<lambda>_. Gap) xs) = []" "inline_count (map (\<lambda>_. Gap) xs) = 0" for xs :: "u64 list"
    by (induction xs) simp_all
  show "rx_ok env msg okl okr (settle_gaps now i) r = rx_ok env msg okl okr i r"
    "next_out (settle_gaps now i) = next_out i"
    by (auto simp: settle_gaps_def drain_confirmed_gaps_def push_ready_def rx_ok_def rx_inv_def loop_inv_def
        next_out_def current_inline_def inbox_ok_def gaps split: option.splits prod.splits)
  show "seq_anchored (settle_gaps now i) = seq_anchored i"
    "current (settle_gaps now i) = current i" "(arbiter (settle_gaps now i) = None) = (arbiter i = None)"
    by (auto simp: settle_gaps_def drain_confirmed_gaps_def push_ready_def split: option.splits prod.splits)
qed

section \<open>The pump\<close>

text \<open>What a pump call guarantees, from the state \<open>i\<close> it starts in.\<close>

definition pump_keeps ::
  "('t, 'f, 'r, 'w) rx_env \<Rightarrow> (u64 \<Rightarrow> bytes) \<Rightarrow> ('t \<Rightarrow> bool) \<Rightarrow> ('r \<Rightarrow> bool) \<Rightarrow> ('t, 'f) inner
     \<Rightarrow> (mold_error + unit) \<times> ('t, 'f) inner \<times> 'r \<times> 'w \<Rightarrow> bool" where
  "pump_keeps env msg okl okr i y \<longleftrightarrow> (case y of (res, i', r', w') \<Rightarrow>
     (\<not> is_full res \<or> arbiter i = None \<longrightarrow> rx_ok env msg okl okr i' r')
     \<and> (seq_anchored i \<longrightarrow> seq_anchored i' \<and> next_out i' = next_out i) \<and> current i' = None
     \<and> (arbiter i' = None \<longleftrightarrow> arbiter i = None))"

lemma pump_keeps_trans:
  "pump_keeps env msg okl okr j y \<Longrightarrow> (seq_anchored i \<longrightarrow> seq_anchored j \<and> next_out j = next_out i) \<Longrightarrow>
   (arbiter j = None \<longleftrightarrow> arbiter i = None) \<Longrightarrow> pump_keeps env msg okl okr i y"
  by (auto simp: pump_keeps_def)

lemma pump_loop_ok:
  fixes env :: "('t, 'f, 'r, 'w) rx_env"
  assumes "pump_loop env i r w = Some y" "honest_env env msg okl okr"
    "rx_ok env msg okl okr i r" "current i = None"
  shows "pump_keeps env msg okl okr i y"
proof -
  have "honest_env env msg okl okr \<longrightarrow> rx_ok env msg okl okr i r \<longrightarrow> current i = None \<longrightarrow> pump_keeps env msg okl okr i y"
    using assms(1)
  proof (rule pump_loop.raw_induct [rotated], intro impI)
    fix loop :: "('t, 'f, 'r, 'w) rx_env \<Rightarrow> ('t, 'f) inner \<Rightarrow> 'r \<Rightarrow> 'w \<Rightarrow> ((mold_error + unit) \<times> ('t, 'f) inner \<times> 'r \<times> 'w) option"
      and env i r w y
    assume IH: "\<And>env i r w y. loop env i r w = Some y \<Longrightarrow> honest_env env msg okl okr \<longrightarrow>
        rx_ok env msg okl okr i r \<longrightarrow> current i = None \<longrightarrow> pump_keeps env msg okl okr i y"
      and body: "(if ready i \<noteq> [] then Some (Inr (), i, r, w)
      else case (if pending_datagrams i = [] then gather env i r else (Inr True, i, r)) of
        (Inl e, i1, r1) \<Rightarrow> Some (Inl e, i1, r1, w)
      | (Inr landed, i1, r1) \<Rightarrow>
          (if \<not> landed then Some (Inr (), i1, r1, w)
           else case arbiter_clock env i1 w of
             (now, w1) \<Rightarrow>
               (case process_next_pending (env_as_ref env) now i1 of
                  (Inl e, i2) \<Rightarrow> Some (Inl e, i2, r1, w1)
                | (Inr _, i2) \<Rightarrow> loop env (settle_gaps now i2) r1 w1))) = Some y"
      and hyp: "honest_env env msg okl okr" "rx_ok env msg okl okr i r" "current i = None"
    show "pump_keeps env msg okl okr i y"
    proof (cases "ready i = []")
      case False
      with body hyp show ?thesis by (auto simp: pump_keeps_def)
    next
      case empty: True
      obtain g i1 r1 where g: "(if pending_datagrams i = [] then gather env i r else (Inr True, i, r)) = (g, i1, r1)"
        by (rule prod_cases3)
      have st: "rx_ok env msg okl okr i1 r1" "ready i1 = []" "current i1 = None" "next_out i1 = next_out i"
        "seq_anchored i1 = seq_anchored i" "arbiter i1 = arbiter i"
        using g gather_ok [OF hyp(1,2)] hyp(2,3) empty by (auto split: if_split_asm)
      note body' = body [unfolded g]
      obtain now w1 where c: "arbiter_clock env i1 w = (now, w1)" by (rule prod.exhaust)
      obtain pr i2 where p: "process_next_pending (env_as_ref env) now i1 = (pr, i2)" by (rule prod.exhaust)
      note pk = process_ok [OF st(1,2,3) p]
      consider (err) e where "g = Inl e" | (idle) "g = Inr False" | (perr) e where "g = Inr True" "pr = Inl e"
        | (go) u where "g = Inr True" "pr = Inr u"
        by (cases g; cases pr) auto
      then show ?thesis
      proof cases
        case err
        with body' empty st show ?thesis by (auto simp: pump_keeps_def)
      next
        case idle
        with body' empty st show ?thesis by (auto simp: pump_keeps_def)
      next
        case perr
        with body' empty c p have "y = (Inl e, i2, r1, w1)" by simp
        with pk st perr show ?thesis by (auto simp: pump_keeps_def)
      next
        case go
        with body' empty c p have "loop env (settle_gaps now i2) r1 w1 = Some y" by simp
        from IH [OF this] hyp(1) pk go
        have "pump_keeps env msg okl okr (settle_gaps now i2) y" by (simp add: settle_gaps_ok)
        then show ?thesis
          by (rule pump_keeps_trans) (use pk st in \<open>auto simp: settle_gaps_ok\<close>)
      qed
    qed
  qed
  with assms(2-4) show ?thesis by blast
qed

lemma pump_ok:
  assumes "pump env i r w = Some y" "honest_env env msg okl okr" "rx_ok env msg okl okr i r" "current i = None"
  shows "pump_keeps env msg okl okr i y"
proof -
  obtain r1 w1 where s: "send_due_gaps env i r w = (r1, w1)" by (rule prod.exhaust)
  have "okr r1"
    using s assms(2,3) unfolding honest_env_def rx_ok_def
    by (auto simp: send_due_gaps_def split: if_split_asm option.split_asm) (metis fst_conv)
  with assms(3) have "rx_ok env msg okl okr i r1" by (simp add: rx_ok_def)
  with pump_loop_ok [OF _ assms(2)] assms(1,4) s show ?thesis by (simp add: pump_def)
qed

section \<open>Handing out\<close>

lemma retire_current_ok:
  assumes "rx_ok env msg okl okr i r"
  shows "rx_ok env msg okl okr (retire_current i) r \<and> current (retire_current i) = None
    \<and> next_out (retire_current i) = next_out i \<and> seq_anchored (retire_current i) = seq_anchored i
    \<and> arbiter (retire_current i) = arbiter i"
proof -
  have inv: "loop_inv (env_as_ref env) msg (next_out i) (backing_bytes (env_as_ref env) (backing i)) (inline_count (ready i)) i"
    "inline_pending i = inline_count (ready i) + current_inline i"
    using assms by (auto simp: rx_ok_def rx_inv_def)
  have dich: "(\<exists>sq sid a l. current i = Some (Inline sq sid a l)) \<or>
      current_inline i = 0 \<and> retire_current i = i\<lparr>current := None\<rparr>"
  proof (cases "current i")
    case (Some it)
    then show ?thesis by (cases it) (simp_all add: current_inline_def retire_current_def)
  qed (simp add: current_inline_def retire_current_def)
  then show ?thesis
  proof (elim disjE exE conjE)
    fix sq sid a l
    assume inl: "current i = Some (Inline sq sid a l)"
    then have n: "inline_pending i - 1 = inline_count (ready i)" using inv(2) by (simp add: current_inline_def)
    show ?thesis
    proof (cases "inline_count (ready i) = 0")
      case True
      with loop_inv_no_inline [of "env_as_ref env" msg "next_out i" _ i] inv n inl assms show ?thesis
        by (auto simp: retire_current_def release_inline_def rx_ok_def rx_inv_def loop_inv_def next_out_def
            current_inline_def inbox_ok_def)
    next
      case False
      with inv n inl assms show ?thesis
        by (auto simp: retire_current_def release_inline_def rx_ok_def rx_inv_def loop_inv_def next_out_def
            current_inline_def inbox_ok_def)
    qed
  next
    assume "current_inline i = 0" and eq: "retire_current i = i\<lparr>current := None\<rparr>"
    with assms show ?thesis
      unfolding eq by (auto simp: rx_ok_def rx_inv_def loop_inv_def next_out_def current_inline_def inbox_ok_def)
  qed
qed

lemma yield_item_ok:
  assumes "rx_ok env msg okl okr i r" "current i = None" "ready i = item # rest" "seq_anchored i"
    "yield_item (env_as_ref env) item (i\<lparr>ready := rest\<rparr>) = (out, i')"
  shows "rx_ok env msg okl okr i' r \<and> seq_anchored i' \<and>
    (case item_data item of
       [] \<Rightarrow> next_out i' = next_out i \<and> (\<exists>e. out = Some (Inr (OEvent e)) \<or> out = Some (Inl GapDetected))
     | _ \<Rightarrow> next_out i' = next_out i + 1 \<and>
         (\<exists>sid. out = Some (Inr (OFrame \<lparr>payload = msg (next_out i), frame_sequence = next_out i, frame_stream = sid\<rparr>))))"
proof -
  have i': "i' = i\<lparr>ready := rest, current := Some item\<rparr>"
    using assms(5) by (auto simp: yield_item_def Let_def split: ready_item.splits)
  have inv: "loop_inv (env_as_ref env) msg (next_out i) (backing_bytes (env_as_ref env) (backing i)) (inline_count (ready i)) i"
    "inline_pending i = inline_count (ready i)"
    using assms(1,2) by (auto simp: rx_ok_def rx_inv_def current_inline_def)
  have nx: "next_out i' = next_out i + of_nat (length (item_data item))"
    by (simp add: next_out_def i' assms(3))
  have run: "seq_run (next_out i') (data_seqs rest) (expected_next (reassembler i))"
  proof -
    from inv(1) obtain m where m: "seq_run (next_out i) (item_data item) m"
      "seq_run m (data_seqs rest) (expected_next (reassembler i))"
      by (auto simp: loop_inv_def assms(3) seq_run_append)
    then have "m = next_out i'" using seq_run_length nx by metis
    with m show ?thesis by simp
  qed
  have "rx_ok env msg okl okr i' r"
    using assms(1,4) inv run
    by (auto simp: rx_ok_def rx_inv_def loop_inv_def i' assms(3) current_inline_def inbox_ok_def next_out_def)
  moreover have "item_ok (env_as_ref env) msg (backing_bytes (env_as_ref env) (backing i)) item"
    "\<forall>sq \<in> set (item_data item). sq = next_out i"
    using inv(1) by (cases item; auto simp: loop_inv_def assms(3))+
  ultimately show ?thesis
    using nx assms(4,5) by (cases item) (auto simp: yield_item_def Let_def i')
qed

lemma poll_ok:
  assumes "honest_env env msg okl okr" "rx_ok env msg okl okr i r" "seq_anchored i"
    "poll env i r w = Some (out, i', r', w')"
    "arbiter i = None \<or> (\<forall>c. out \<noteq> Some (Inl (ReassemblyBufferFull c)))"
  shows "rx_ok env msg okl okr i' r' \<and> seq_anchored i' \<and>
    (case out of
       None \<Rightarrow> False
     | Some (Inr (Some (OFrame fr))) \<Rightarrow>
         frame_sequence fr = next_out i \<and> payload fr = msg (next_out i) \<and> next_out i' = next_out i + 1
     | Some (Inr (Some (OOwned _))) \<Rightarrow> False
     | Some _ \<Rightarrow> next_out i' = next_out i)"
proof -
  note rc = retire_current_ok [OF assms(2)]
  obtain res i1 r1 w1 where p: "pump env (retire_current i) r w = Some (res, i1, r1, w1)"
    using assms(4) by (auto simp: poll_def split: option.splits)
  have pk: "(\<not> is_full res \<or> arbiter i = None \<longrightarrow> rx_ok env msg okl okr i1 r1)" "seq_anchored i1"
    "next_out i1 = next_out i" "current i1 = None"
    using pump_ok [OF p assms(1)] rc assms(3) by (auto simp: pump_keeps_def)
  show ?thesis
  proof (cases res)
    case (Inl e)
    then have eq: "out = Some (Inl e)" "i' = i1" "r' = r1" using assms(4) p by (auto simp: poll_def)
    have "\<not> is_full res \<or> arbiter i = None" using assms(5) Inl eq by (cases e) auto
    with pk eq show ?thesis by auto
  next
    case (Inr u)
    then have ok: "rx_ok env msg okl okr i1 r1" using pk(1) by simp
    show ?thesis
    proof (cases "ready i1")
      case Nil
      with assms(4) p Inr have "out = Some (Inr None)" "i' = i1" "r' = r1" by (auto simp: poll_def)
      with ok pk show ?thesis by auto
    next
      case (Cons item rest)
      obtain o1 i2 where y: "yield_item (env_as_ref env) item (i1\<lparr>ready := rest\<rparr>) = (o1, i2)" by (rule prod.exhaust)
      have eq: "out = map_option (map_sum id Some) o1" "i' = i2" "r' = r1"
        using assms(4) p Inr Cons y by (auto simp: poll_def)
      from yield_item_ok [OF ok pk(4) Cons pk(2) y] pk(3) show ?thesis
        by (cases "item_data item") (auto simp: eq)
    qed
  qed
qed

section \<open>Feeds and construction\<close>

text \<open>A packet laid out as the protocol prescribes, carrying the messages of its sequences, is honest.\<close>

lemma encode_packet_honest:
  assumes "length sess = 10" "length bs < 65535" "\<forall>b \<in> set bs. length b < 65536"
    "length (encode_packet sess sq bs) \<le> 64 * 1024" "unat sq + length bs < 2 ^ 64 - 1"
    "\<And>k. k < length bs \<Longrightarrow> bs ! k = msg (sq + of_nat k)"
  shows "honest msg (encode_packet sess sq bs)"
proof -
  let ?buf = "encode_packet sess sq bs" and ?cnt = "of_nat (length bs) :: u16"
  let ?h = "\<lparr>session_id = sess, sequence_no = sq, message_count = ?cnt\<rparr> :: downstream_header"
  have cnt: "unat ?cnt = length bs" using assms(2) by (simp add: unat_of_nat)
  have pre: "?buf = encode_header sess sq ?cnt @ encode_blocks bs" by (simp add: encode_packet_def)
  have "length (encode_blocks bs) \<le> MAX_DOWNSTREAM_DATAGRAM - 20"
    using assms(1,4) by (simp add: pre MAX_DOWNSTREAM_DATAGRAM_def)
  then have ph: "parse_header ?buf = Inr ?h" unfolding pre by (rule parse_header_encoded [OF assms(1)])
  have hb: "header_blocks ?h ?buf = block_iter_new (encode_blocks bs) ?cnt"
    unfolding pre using header_blocks_append [of "encode_header sess sq ?cnt" ?h] assms(1) by simp
  have cb: "collect_blocks sq (header_blocks ?h ?buf) = Inr (spans sq 20 bs)"
    unfolding hb using collect_blocks_encoded [of "block_iter_new (encode_blocks bs) ?cnt" bs "[]" sq] cnt assms(3)
    by (simp add: block_iter_new_def block_sized_def HEADER_LEN_def)
  have pay: "map (\<lambda>(_, at, l). take l (drop at ?buf)) (spans sq 20 bs) = bs"
    using spans_payloads [of "encode_header sess sq ?cnt" 20 bs "[]" sq] assms(1) by (simp add: pre)
  have "block_ok msg ?buf blk" if "blk \<in> set (spans sq 20 bs)" for blk
  proof -
    from that obtain k where k: "k < length bs" "blk = spans sq 20 bs ! k" by (auto simp: in_set_conv_nth)
    obtain s at l where b: "blk = (s, at, l)" by (rule prod_cases3)
    have "map fst (spans sq 20 bs) ! k = sq + of_nat k" using k(1) by (simp add: spans_seqs)
    then have s: "s = sq + of_nat k" using k b by (metis fst_conv nth_map spans_length)
    have "map (\<lambda>(_, at, l). take l (drop at ?buf)) (spans sq 20 bs) ! k = bs ! k" by (simp add: pay)
    then have t: "take l (drop at ?buf) = msg s" using k b s assms(6) [OF k(1)] by (metis (no_types, lifting) nth_map old.prod.case spans_length)
    have "at + l \<le> length ?buf" using spans_bound [of sq 20 bs] that assms(1) by (auto simp: b pre)
    moreover have "s < - 1"
      using assms(5) k(1) unat_add_of_nat [of sq k] by (simp add: s word_less_nat_alt unat_minus_one_word)
    ultimately show ?thesis using t by (simp add: b block_ok_def get_range_def)
  qed
  with ph cb cnt assms(5) show ?thesis unfolding honest_def by auto
qed

lemma fresh_ring:
  "ring_inv (the (reassembler_new RING_CAPACITY))" "ring_held (the (reassembler_new RING_CAPACITY)) = Map.empty"
  "expected_next (the (reassembler_new RING_CAPACITY)) = 1"
proof -
  obtain ra :: "'s reassembler" where ra: "reassembler_new RING_CAPACITY = Some ra"
    by (simp add: reassembler_new_def RING_CAPACITY_def)
  show "ring_inv (the (reassembler_new RING_CAPACITY) :: 's reassembler)"
    "ring_held (the (reassembler_new RING_CAPACITY) :: 's reassembler) = Map.empty"
    "expected_next (the (reassembler_new RING_CAPACITY) :: 's reassembler) = 1"
    using reassembler_new_inv [OF ra] unfolding ra by (simp_all add: RING_CAPACITY_def)
qed

lemma from_legs_ok:
  assumes "from_legs stats_of cfg ls = Inr i"
  shows "rx_inv as_ref msg i" "legs i = ls" "arbiter i = None \<longleftrightarrow> length ls = 1"
    "seq_anchored i \<longleftrightarrow> cfg_start_sequence cfg \<noteq> None"
    "cfg_start_sequence cfg = Some s \<Longrightarrow> next_out i = s"
proof -
  show "rx_inv as_ref msg i" "legs i = ls" "seq_anchored i \<longleftrightarrow> cfg_start_sequence cfg \<noteq> None"
    "cfg_start_sequence cfg = Some s \<Longrightarrow> next_out i = s"
    using assms
    by (auto simp: from_legs_def Let_def fresh_ring rx_inv_def loop_inv_def ring_good_def settled_at_def next_out_def
        current_inline_def inbox_ok_def batch_with_capacity_def reset_expected_def
        split: if_splits sum.splits option.splits)
  show "arbiter i = None \<longleftrightarrow> length ls = 1"
    using assms
    by (cases ls) (auto simp: from_legs_def Let_def arbiter_new_def RING_CAPACITY_def
        split: if_splits sum.splits option.splits)
qed

section \<open>A scripted leg\<close>

text \<open>A leg that hands out a list of datagrams one at a time, to run the receiver on concrete feeds.\<close>

definition script_recv :: "(bytes list, bytes) recv_op" where
  "script_recv t b = (case t of [] \<Rightarrow> (Inr 0, [], b) | d # ds \<Rightarrow> (Inr 1, ds, batch_push d b))"

definition script_env :: "(bytes list, bytes, unit, nat) rx_env" where
  "script_env = no_recovery_env script_recv (\<lambda>d. d) (\<lambda>w. (w, Suc w))"

lemma script_env_honest: "honest_env script_env msg (\<lambda>t. \<forall>d \<in> set t. honest msg d) (\<lambda>_. True)"
  by (auto simp: honest_env_def script_env_def no_recovery_env_def script_recv_def batch_push_def
      split: list.splits)

definition demo_msg :: "u64 \<Rightarrow> bytes" where
  "demo_msg sq = (if sq = 1 then [65] else [])"

definition demo_packet :: bytes where
  "demo_packet = encode_packet (replicate 10 83) 1 [[65]]"

lemma demo_packet_honest: "honest demo_msg demo_packet"
  unfolding demo_packet_def
  by (rule encode_packet_honest) (simp_all add: demo_msg_def encode_packet_def encode_header_def)

definition demo_rx :: "(bytes list, bytes) inner" where
  "demo_rx = projr (from_legs (\<lambda>_. \<lparr>ps_capacity = 5000, ps_in_use = 0\<rparr>)
     (mold_config_default\<lparr>cfg_start_sequence := Some 1\<rparr>) [[demo_packet]])"

lemma demo_rx_from: "from_legs (\<lambda>_. \<lparr>ps_capacity = 5000, ps_in_use = 0\<rparr>)
     (mold_config_default\<lparr>cfg_start_sequence := Some 1\<rparr>) [[demo_packet]] = Inr demo_rx"
  by (simp add: demo_rx_def from_legs_def Let_def MIN_LEG_POOL_CAPACITY_def RING_CAPACITY_def MAX_INFLIGHT_BURST_def)

lemma demo_rx_ok: "rx_ok script_env demo_msg (\<lambda>t. \<forall>d \<in> set t. honest demo_msg d) (\<lambda>_. True) demo_rx ()"
  using from_legs_ok(1,2) [OF demo_rx_from] demo_packet_honest by (simp add: rx_ok_def)

lemma demo_rx_start: "seq_anchored demo_rx" "arbiter demo_rx = None" "next_out demo_rx = 1"
  using from_legs_ok(3,4) [OF demo_rx_from] from_legs_ok(5) [OF demo_rx_from, of 1] by simp_all

lemma demo_packet_parse: "parse_header demo_packet = Inr \<lparr>session_id = replicate 10 83, sequence_no = 1, message_count = 1\<rparr>"
  unfolding demo_packet_def encode_packet_def
  by (subst parse_header_encoded) (simp_all add: MAX_DOWNSTREAM_DATAGRAM_def)

lemma demo_packet_blocks:
  "collect_blocks 1 (header_blocks \<lparr>session_id = replicate 10 83, sequence_no = 1, message_count = 1\<rparr> demo_packet)
     = Inr [(1, 22, 1)]"
proof -
  have "header_blocks \<lparr>session_id = replicate 10 83, sequence_no = 1, message_count = 1\<rparr> demo_packet
      = block_iter_new (encode_blocks [[65]]) 1"
    unfolding demo_packet_def encode_packet_def by (subst header_blocks_append) simp_all
  then show ?thesis
    using collect_blocks_encoded [of "block_iter_new (encode_blocks [[65]]) 1" "[[65]]" "[]" 1]
    by (simp add: block_iter_new_def block_sized_def HEADER_LEN_def)
qed

lemma demo_packet_payload: "get_range 22 23 demo_packet = Some [65]"
  by (simp add: demo_packet_def encode_packet_def encode_header_def encode_block_def get_range_def)

lemma demo_drain:
  "drain_all (advance_expected 1 \<lparr>slots = replicate 4096 \<lparr>slot_seq = 0, slot_payload = None\<rparr>, ra_capacity = 4096, expected_next = 1\<rparr>)
   = ([], \<lparr>slots = replicate 4096 \<lparr>slot_seq = 0, slot_payload = None\<rparr>, ra_capacity = 4096, expected_next = 2\<rparr>)"
  by (simp add: drain_all_unfold advance_expected_def slot_index_def drain_next_def Let_def)

lemma demo_rx_eval:
  "demo_rx = \<lparr>legs = [[demo_packet]], recovery_stream = 1, session = None,
     reassembler = \<lparr>slots = replicate 4096 \<lparr>slot_seq = 0, slot_payload = None\<rparr>, ra_capacity = 4096, expected_next = 1\<rparr>,
     next_unseen = 1, gap_handler = \<lparr>gaps = []\<rparr>, arbiter = None, max_rerequests_per_gap_per_sec = 4, ready = [],
     current = None, pending_datagrams = [], backing = backing_empty, inline_pending = 0, seq_anchored = True,
     recv_batch = \<lparr>fb_frames = [], fb_cap = 64\<rparr>\<rparr>"
  by (simp add: demo_rx_def from_legs_def Let_def MIN_LEG_POOL_CAPACITY_def RING_CAPACITY_def MAX_INFLIGHT_BURST_def
      mold_config_default_def reassembler_new_def reset_expected_def gap_handler_new_def batch_with_capacity_def)

lemmas decode_eval = process_next_pending_def decode_datagram_def accept_header_def header_kind_def decode_data_def
  note_jump_def sat_add_def arbitrate_def place_block_def mark_received_def bt_pred_le_def push_ready_def

lemma demo_gather:
  "gather script_env demo_rx () = (Inr True, demo_rx\<lparr>legs := [[]], pending_datagrams := [(0, HeldFrame demo_packet)]\<rparr>, ())"
  by (simp add: demo_rx_eval gather_def poll_legs_def script_env_def no_recovery_env_def script_recv_def batch_defs has_pending_def)

lemma demo_process:
  "process_next_pending (\<lambda>d. d) None (demo_rx\<lparr>legs := [[]], pending_datagrams := [(0, HeldFrame demo_packet)]\<rparr>) =
   (Inr (), demo_rx\<lparr>legs := [[]], session := Some (replicate 10 83), next_unseen := 2, ready := [Inline 1 0 22 1],
     reassembler := \<lparr>slots = replicate 4096 \<lparr>slot_seq = 0, slot_payload = None\<rparr>, ra_capacity = 4096, expected_next = 2\<rparr>,
     backing := OwnedBacking (HeldFrame demo_packet), inline_pending := 1\<rparr>)"
  by (simp add: demo_rx_eval decode_eval demo_packet_parse demo_packet_blocks demo_drain Let_def)

lemma pump_loop_returns: "ready i \<noteq> [] \<Longrightarrow> pump_loop env i r w = Some (Inr (), i, r, w)"
  by (simp add: pump_loop.simps [of env i r w])

lemma pump_loop_step:
  "ready i = [] \<Longrightarrow> pending_datagrams i = [] \<Longrightarrow> gather env i r = (Inr True, i1, r1) \<Longrightarrow>
   arbiter_clock env i1 w = (now, w1) \<Longrightarrow> process_next_pending (env_as_ref env) now i1 = (Inr u, i2) \<Longrightarrow>
   pump_loop env i r w = pump_loop env (settle_gaps now i2) r1 w1"
  by (simp add: pump_loop.simps [of env i r w])

lemma demo_poll: "\<exists>i'. poll script_env demo_rx () 0 =
    Some (Some (Inr (Some (OFrame \<lparr>payload = [65], frame_sequence = 1, frame_stream = 0\<rparr>))), i', (), 0)"
proof -
  let ?i1 = "demo_rx\<lparr>legs := [[]], pending_datagrams := [(0, HeldFrame demo_packet)]\<rparr>"
  have e: "env_as_ref script_env = (\<lambda>d. d)" by (simp add: script_env_def no_recovery_env_def)
  have c: "arbiter_clock script_env ?i1 0 = (None, 0)" by (simp add: arbiter_clock_def demo_rx_eval)
  have r: "ready demo_rx = []" "pending_datagrams demo_rx = []" "retire_current demo_rx = demo_rx"
    by (simp_all add: demo_rx_eval retire_current_def)
  note step = pump_loop_step [OF r(1,2) demo_gather c demo_process [folded e]]
  have s: "send_due_gaps script_env demo_rx () 0 = ((), 0)"
    by (simp add: send_due_gaps_def has_pending_def demo_rx_eval)
  show ?thesis
    unfolding poll_def pump_def r(3) s prod.case step
    by (simp add: settle_gaps_def pump_loop_returns e yield_item_def demo_packet_payload)
qed

section \<open>Properties\<close>




text \<open>The frames a caller sees over \<open>k\<close> polls.\<close>

fun frames_of :: "(mold_error + 'f mold_outcome option) option \<Rightarrow> mold_frame list" where
  "frames_of (Some (Inr (Some (OFrame fr)))) = [fr]"
| "frames_of _ = []"

primrec polls ::
  "('t, 'f, 'r, 'w) rx_env \<Rightarrow> nat \<Rightarrow> ('t, 'f) inner \<Rightarrow> 'r \<Rightarrow> 'w \<Rightarrow> (mold_frame list \<times> ('t, 'f) inner \<times> 'r \<times> 'w) option" where
  "polls env 0 i r w = Some ([], i, r, w)"
| "polls env (Suc k) i r w =
     (case poll env i r w of
        None \<Rightarrow> None
      | Some (out, i1, r1, w1) \<Rightarrow>
          (case polls env k i1 r1 w1 of None \<Rightarrow> None | Some (fs, st) \<Rightarrow> Some (frames_of out @ fs, st)))"

lemma poll_arbiter:
  assumes "poll env i r w = Some (out, i', r', w')" "honest_env env msg okl okr" "rx_ok env msg okl okr i r"
    "arbiter i = None"
  shows "arbiter i' = None"
proof -
  note rc = retire_current_ok [OF assms(3)]
  obtain res i1 r1 w1 where p: "pump env (retire_current i) r w = Some (res, i1, r1, w1)"
    using assms(1) by (auto simp: poll_def split: option.splits)
  have a: "arbiter i1 = None" using pump_ok [OF p assms(2)] rc assms(4) by (auto simp: pump_keeps_def)
  show ?thesis
    using assms(1) p a
    by (auto simp: poll_def yield_item_def Let_def split: sum.split_asm list.split_asm prod.split_asm ready_item.split_asm)
qed

lemma seq_run_nth: "seq_run f xs e \<Longrightarrow> j < length xs \<Longrightarrow> xs ! j = f + of_nat j"
proof (induction xs arbitrary: f j)
  case (Cons x xs)
  then show ?case by (cases j) (auto simp: add.assoc)
qed simp

lemma polls_run:
  "polls env k i r w = Some (fs, i', r', w') \<Longrightarrow> honest_env env msg okl okr \<Longrightarrow> rx_ok env msg okl okr i r \<Longrightarrow>
   seq_anchored i \<Longrightarrow> arbiter i = None \<Longrightarrow>
   seq_run (next_out i) (map frame_sequence fs) (next_out i') \<and> (\<forall>fr \<in> set fs. payload fr = msg (frame_sequence fr))"
proof (induction k arbitrary: i r w fs)
  case 0
  then show ?case by simp
next
  case (Suc k)
  obtain out i1 r1 w1 where p: "poll env i r w = Some (out, i1, r1, w1)"
    using Suc.prems(1) by (auto split: option.splits)
  obtain fs1 where q: "polls env k i1 r1 w1 = Some (fs1, i', r', w')" and fs: "fs = frames_of out @ fs1"
    using Suc.prems(1) p by (auto split: option.splits)
  have ok: "rx_ok env msg okl okr i1 r1" "seq_anchored i1"
    and st: "case out of
       None \<Rightarrow> False
     | Some (Inr (Some (OFrame fr))) \<Rightarrow>
         frame_sequence fr = next_out i \<and> payload fr = msg (next_out i) \<and> next_out i1 = next_out i + 1
     | Some (Inr (Some (OOwned _))) \<Rightarrow> False
     | Some _ \<Rightarrow> next_out i1 = next_out i"
    using poll_ok [OF Suc.prems(2-4) p] Suc.prems(5) by auto
  have a: "arbiter i1 = None" by (rule poll_arbiter [OF p Suc.prems(2,3,5)])
  from Suc.IH [OF q Suc.prems(2) ok a] st show ?case
    by (cases out rule: frames_of.cases) (auto simp: fs split: sum.splits option.splits mold_outcome.splits)
qed

text \<open>
  C16. The delivered stream. A one-leg receiver built with a start sequence \<open>s\<close> over an honest feed,
  however many times it is polled and however datagrams are lost, duplicated or reordered on the way,
  hands its caller the messages \<open>s\<close>, \<open>s + 1\<close>, \<open>s + 2\<close>, ... of the feed: consecutive, in order,
  without repetition, each with its own bytes.
\<close>

theorem delivered_stream:
  assumes "honest_env env msg okl okr" "from_legs stats_of cfg [leg] = Inr i" "cfg_start_sequence cfg = Some s"
    "okl leg" "okr r" "polls env k i r w = Some (fs, i', r', w')"
  shows "map (\<lambda>fr. (frame_sequence fr, payload fr)) fs = map (\<lambda>j. (s + of_nat j, msg (s + of_nat j))) [0..<length fs]"
proof -
  note fl = from_legs_ok [OF assms(2)]
  have "rx_ok env msg okl okr i r" using fl(1,2) assms(4,5) by (simp add: rx_ok_def)
  moreover have "seq_anchored i" "arbiter i = None" using fl(3,4) assms(3) by auto
  ultimately have run: "seq_run s (map frame_sequence fs) (next_out i')"
    "\<forall>fr \<in> set fs. payload fr = msg (frame_sequence fr)"
    using polls_run [OF assms(6,1)] fl(5) [OF assms(3)] by auto
  show ?thesis
  proof (rule nth_equalityI)
    fix j assume "j < length (map (\<lambda>fr. (frame_sequence fr, payload fr)) fs)"
    then have j: "j < length fs" by simp
    have "frame_sequence (fs ! j) = s + of_nat j"
      using seq_run_nth [OF run(1), of j] j by simp
    with run(2) j show "map (\<lambda>fr. (frame_sequence fr, payload fr)) fs ! j
        = map (\<lambda>j. (s + of_nat j, msg (s + of_nat j))) [0..<length fs] ! j" by simp
  qed simp
qed

theorem delivered_stream_witness:
  "\<exists>fs i'. polls script_env 1 demo_rx () 0 = Some (fs, i', (), 0)
    \<and> map (\<lambda>fr. (frame_sequence fr, payload fr)) fs = [(1, [65])]"
proof -
  from demo_poll obtain i' where p: "poll script_env demo_rx () 0 =
    Some (Some (Inr (Some (OFrame \<lparr>payload = [65], frame_sequence = 1, frame_stream = 0\<rparr>))), i', (), 0)" by blast
  let ?fs = "[\<lparr>payload = [65], frame_sequence = 1, frame_stream = 0\<rparr>] :: mold_frame list"
  have q: "polls script_env 1 demo_rx () 0 = Some (?fs, i', (), 0)" using p by simp
  have "map (\<lambda>fr. (frame_sequence fr, payload fr)) ?fs = map (\<lambda>j. (1 + of_nat j, demo_msg (1 + of_nat j))) [0..<length ?fs]"
    by (rule delivered_stream [OF script_env_honest demo_rx_from _ _ _ q]) (simp_all add: demo_packet_honest)
  with q show ?thesis by (auto simp: demo_msg_def)
qed

end
