(* ===== verification/Mold_Loss.thy ===== *)
theory Mold_Loss
  imports Mold_Delivery
begin

text \<open>
  Nothing is lost silently: on one leg, the gap tracker holds exactly the sequences between the next
  expected one and the highest seen that are not buffered, as long as the reorder ring does not
  overflow; and what happens when it does.
\<close>

section \<open>The exactness invariant\<close>

definition gap_span :: "('t, 'f) inner \<Rightarrow> u64 set" where
  "gap_span i = {s. expected_next (reassembler i) \<le> s \<and> s < next_unseen i \<and> ring_held (reassembler i) s = None}"

definition gap_exact :: "('t, 'f) inner \<Rightarrow> bool" where
  "gap_exact i \<longleftrightarrow> gaps_ok (gap_handler i) \<and> covered (gaps (gap_handler i)) = gap_span i
     \<and> expected_next (reassembler i) \<le> next_unseen i
     \<and> (\<forall>s. ring_held (reassembler i) s \<noteq> None \<longrightarrow> s < next_unseen i)
     \<and> (\<not> seq_anchored i \<longrightarrow> next_unseen i = expected_next (reassembler i))"

text \<open>
  Inside the block loop the blocks still to come, as far as they lie past the previously highest
  sequence \<open>u\<close>, are neither tracked nor buffered.
\<close>

definition loop_exact :: "u64 \<Rightarrow> u64 \<Rightarrow> u64 \<Rightarrow> ('t, 'f) inner \<Rightarrow> bool" where
  "loop_exact u sq stop i \<longleftrightarrow> gaps_ok (gap_handler i)
     \<and> covered (gaps (gap_handler i)) = gap_span i - {s. sq \<le> s \<and> s < stop \<and> u \<le> s}
     \<and> expected_next (reassembler i) \<le> next_unseen i \<and> stop \<le> next_unseen i
     \<and> (\<forall>s. ring_held (reassembler i) s \<noteq> None \<longrightarrow> s < next_unseen i)"

lemma deliver_exact:
  assumes "loop_exact u sq stop i" "ring_good as_ref msg (reassembler i)" "sq < stop" "sq < - 1"
    "sq = expected_next (reassembler i)" "drain_all (advance_expected 1 (reassembler i)) = (vs, r)"
  shows "loop_exact u (sq + 1) stop (i\<lparr>gap_handler := mark_received sq (gap_handler i), reassembler := r, ready := q\<rparr>)"
proof -
  let ?R = "reassembler i" and ?nu = "next_unseen i"
  have g: "ring_inv ?R" "settled_at (expected_next ?R) (ring_held ?R)" using assms(2) by (auto simp: ring_good_def)
  note run = ring.deliver_run [OF g assms(4) [unfolded assms(5)] assms(6), folded assms(5)]
  have len: "unat (expected_next r) = unat sq + 1 + length vs"
    and views: "\<And>k. k < length vs \<Longrightarrow> ring_held ?R (sq + 1 + of_nat k) = Some (vs ! k)"
    and heldr: "ring_held r = (\<lambda>s. if s < expected_next r then None else ring_held ?R s)"
    using run by blast+
  have ok: "gaps_ok (gap_handler i)" "covered (gaps (gap_handler i)) = gap_span i - {s. sq \<le> s \<and> s < stop \<and> u \<le> s}"
    "stop \<le> ?nu" "\<forall>s. ring_held ?R s \<noteq> None \<longrightarrow> s < ?nu"
    using assms(1) by (auto simp: loop_exact_def)
  have up: "unat (sq + 1) = unat sq + 1" by (rule unat_add1_no_overflow [OF assms(3)])
  have below: "sq < expected_next r" using len by (simp add: word_less_nat_alt)
  have full: "ring_held ?R s \<noteq> None" if "sq < s" "s < expected_next r" for s
  proof -
    define k where "k = unat s - unat (sq + 1)"
    have k: "k < length vs" using that len up by (simp add: k_def word_less_nat_alt)
    have "unat (sq + 1) + k = unat s" using that up by (simp add: k_def word_less_nat_alt)
    then have "sq + 1 + of_nat k = s"
      using unat_add_of_nat [of "sq + 1" k] unat_less_pow [of s] by (simp add: word_unat_eq_iff)
    with views [OF k] show ?thesis by simp
  qed
  have top: "expected_next r \<le> ?nu"
  proof (rule ccontr)
    assume "\<not> expected_next r \<le> ?nu"
    then have "?nu < expected_next r" by simp
    moreover have "sq < ?nu" using assms(3) ok(3) by simp
    ultimately show False using full [of ?nu] ok(4) by blast
  qed
  have held: "ring_held r s = (if s < expected_next r then None else ring_held ?R s)" for s by (simp add: heldr)
  have span: "gap_span i - {s. sq \<le> s \<and> s < stop \<and> u \<le> s} - {sq}
      = {s. expected_next r \<le> s \<and> s < ?nu \<and> ring_held r s = None} - {s. sq + 1 \<le> s \<and> s < stop \<and> u \<le> s}"
    (is "?L = ?M")
  proof (intro set_eqI iffI)
    fix s assume "s \<in> ?L"
    then have s: "sq < s" "s < ?nu" "ring_held ?R s = None" "\<not> (s < stop \<and> u \<le> s)"
      using assms(5) by (auto simp: gap_span_def)
    with full [of s] have "expected_next r \<le> s" by (meson not_le)
    with s show "s \<in> ?M" by (auto simp: held)
  next
    fix s assume s: "s \<in> ?M"
    then have ge: "expected_next r \<le> s" by simp
    then have "sq < s" using below by simp
    moreover from this have "sq + 1 \<le> s" by (rule inc_le)
    ultimately show "s \<in> ?L" using s ge assms(5) by (auto simp: gap_span_def held split: if_splits)
  qed
  show ?thesis
    unfolding loop_exact_def gap_span_def inner.simps
    using mark_received_spec [OF ok(1), of sq] ok span top held by (simp add: gap_span_def)
qed

lemma stale_exact:
  assumes "loop_exact u sq stop i" "sq < stop" "sq < expected_next (reassembler i)"
  shows "loop_exact u (sq + 1) stop (i\<lparr>gap_handler := mark_received sq (gap_handler i)\<rparr>)"
proof -
  have up: "unat (sq + 1) = unat sq + 1" by (rule unat_add1_no_overflow [OF assms(2)])
  have "gap_span i - {s. sq \<le> s \<and> s < stop \<and> u \<le> s} - {sq} = gap_span i - {s. sq + 1 \<le> s \<and> s < stop \<and> u \<le> s}"
    using assms(3) up by (auto simp: gap_span_def word_le_nat_alt word_less_nat_alt)
  then show ?thesis
    using assms(1) mark_received_spec [of "gap_handler i" sq] by (simp add: loop_exact_def gap_span_def)
qed

lemma store_exact:
  assumes "loop_exact u sq stop i" "ring_good as_ref msg (reassembler i)" "sq < stop"
    "expected_next (reassembler i) < sq" "reassembler_insert sq v (reassembler i) = (Inr c, r)"
  shows "loop_exact u (sq + 1) stop (i\<lparr>gap_handler := mark_received sq (gap_handler i), reassembler := r\<rparr>)"
proof -
  let ?R = "reassembler i"
  have inv: "ring_inv ?R" using assms(2) by (simp add: ring_good_def)
  have e: "expected_next r = expected_next ?R" by (rule ring.store_next [OF inv assms(5)])
  have h: "ring_held r = (ring_held ?R)(sq \<mapsto> (case ring_held ?R sq of None \<Rightarrow> v | Some m' \<Rightarrow> m'))"
    by (rule ring.store_ok [OF inv order_less_imp_le [OF assms(4)] assms(5)])
  have up: "unat (sq + 1) = unat sq + 1" by (rule unat_add1_no_overflow [OF assms(3)])
  have ok: "gaps_ok (gap_handler i)" "covered (gaps (gap_handler i)) = gap_span i - {s. sq \<le> s \<and> s < stop \<and> u \<le> s}"
    "expected_next ?R \<le> next_unseen i" "stop \<le> next_unseen i" "\<forall>s. ring_held ?R s \<noteq> None \<longrightarrow> s < next_unseen i"
    using assms(1) by (auto simp: loop_exact_def)
  have lt: "sq < next_unseen i" using assms(3) ok(4) by simp
  have "gap_span i - {s. sq \<le> s \<and> s < stop \<and> u \<le> s} - {sq}
      = {s. expected_next r \<le> s \<and> s < next_unseen i \<and> ring_held r s = None} - {s. sq + 1 \<le> s \<and> s < stop \<and> u \<le> s}"
    using up by (auto simp: gap_span_def e h word_le_nat_alt word_less_nat_alt word_unat_eq_iff split: if_splits)
  then show ?thesis
    unfolding loop_exact_def gap_span_def inner.simps
    using mark_received_spec [OF ok(1), of sq] ok e lt h by (simp add: gap_span_def)
qed

lemma place_block_exact:
  assumes "loop_exact u (fst blk) stop i" "loop_inv as_ref msg f buf n i" "block_ok msg buf blk" "fst blk < stop"
    "place_block sid blk (bk, n) i = (Inr p, i')"
  shows "loop_exact u (fst blk + 1) stop i'"
proof -
  obtain sq offset len where blk: "blk = (sq, offset, len)" by (rule prod_cases3)
  have g: "ring_good as_ref msg (reassembler i)" using assms(2) by (simp add: loop_inv_def)
  have lt: "sq < - 1" using assms(3) by (simp add: block_ok_def blk)
  note ex = assms(1) [unfolded blk fst_conv] and st = assms(4) [unfolded blk fst_conv]
  consider (eq) "sq = expected_next (reassembler i)" | (gt) "expected_next (reassembler i) < sq"
    | (lt) "sq < expected_next (reassembler i)" by fastforce
  then show ?thesis
  proof cases
    case eq
    obtain vs r where d: "drain_all (advance_expected 1 (reassembler i)) = (vs, r)" by (rule prod.exhaust)
    have "i' = i\<lparr>gap_handler := mark_received sq (gap_handler i), reassembler := r,
        ready := ready i @ Inline sq sid offset len # number_views sid (sq + 1) vs\<rparr>"
      using assms(5) place_block_eq [OF eq d, of sid offset len bk n] by (simp add: blk push_ready_def)
    with deliver_exact [OF ex g st lt eq d] show ?thesis by (simp add: blk)
  next
    case gt
    obtain bk' arc where sh: "backing_share bk = (bk', arc)" by (rule prod.exhaust)
    obtain ir r where ins: "reassembler_insert sq (message_view_new arc offset len) (reassembler i) = (ir, r)"
      by (rule prod.exhaust)
    note pb = place_block_gt [OF gt sh ins, of sid n]
    show ?thesis
    proof (cases ir)
      case (Inl e)
      with pb assms(5) show ?thesis by (simp add: blk)
    next
      case (Inr c)
      with pb assms(5) have "i' = i\<lparr>gap_handler := mark_received sq (gap_handler i), reassembler := r\<rparr>"
        by (simp add: blk)
      with store_exact [OF ex g st gt ins [unfolded Inr]] show ?thesis by (simp add: blk)
    qed
  next
    case lt
    with place_block_lt [OF lt, of sid offset len bk n] assms(5)
    have "i' = i\<lparr>gap_handler := mark_received sq (gap_handler i)\<rparr>" by (simp add: blk)
    with stale_exact [OF ex st lt] show ?thesis by (simp add: blk)
  qed
qed

lemma place_blocks_exact:
  assumes "place_blocks now sid blks (bk, n) i = (Inr p, i')" "loop_exact u sq stop i"
    "loop_inv as_ref msg f buf n i" "\<forall>blk \<in> set blks. block_ok msg buf blk" "backing_bytes as_ref bk = buf"
    "seq_run sq (map fst blks) stop" "unat sq + length blks = unat stop" "arbiter i = None"
  shows "loop_exact u stop stop i'"
  using assms
proof (induction blks arbitrary: bk n i sq)
  case Nil
  then show ?case by simp
next
  case (Cons blk blks)
  have ar: "arbitrate now sid (fst blk) i = (True, i)" using Cons.prems(8) by (simp add: arbitrate_def)
  obtain pr i2 where pb: "place_block sid blk (bk, n) i = (pr, i2)" by (rule prod.exhaust)
  obtain bk' n' where pr: "pr = Inr (bk', n')"
    using Cons.prems(1) ar pb by (cases pr) auto
  have sq: "fst blk = sq" and rest: "seq_run (sq + 1) (map fst blks) stop" using Cons.prems(6) by auto
  have ok: "block_ok msg buf blk" "\<forall>blk \<in> set blks. block_ok msg buf blk" using Cons.prems(4) by auto
  have st: "sq < stop" using Cons.prems(7) by (simp add: word_less_nat_alt)
  have up: "unat (sq + 1) + length blks = unat stop"
    using unat_add1_no_overflow [OF st] Cons.prems(7) by simp
  have inv: "loop_inv as_ref msg f buf n' i2" "backing_bytes as_ref bk' = buf"
    using place_block_inv [OF Cons.prems(3) ok(1) Cons.prems(5) pb] by (auto simp: pr)
  have ex: "loop_exact u (sq + 1) stop i2"
    using place_block_exact [of u blk stop i as_ref msg f buf n sid bk] Cons.prems(2,3) ok(1) st pb pr sq by auto
  have pl: "place_blocks now sid blks (bk', n') i2 = (Inr p, i')" using Cons.prems(1) ar pb pr by simp
  have none: "arbiter i2 = None" using place_block_arbiter [OF pb] Cons.prems(8) by simp
  show ?case by (rule Cons.IH [OF pl ex inv(1) ok(2) inv(2) rest up none])
qed

lemma note_jump_exact:
  assumes "gap_exact i" "arbiter i = None" "unat (sequence_no h) + unat (message_count h) < 2 ^ 64 - 1"
  shows "loop_exact (next_unseen i) (sequence_no h) (sequence_no h + ucast (message_count h)) (note_jump now h i)"
proof -
  let ?u = "next_unseen i" and ?s = "sequence_no h" and ?stop = "sequence_no h + ucast (message_count h) :: u64"
  have stop: "unat ?stop = unat ?s + unat (message_count h)"
    using assms(3) unat_add_lem [of ?s "ucast (message_count h)"] by simp
  have sat: "sat_add ?s (ucast (message_count h)) = ?stop" using assms(3) by (simp add: sat_add_def)
  have le: "?s \<le> ?stop" using stop by (simp add: word_le_nat_alt)
  have ex: "gaps_ok (gap_handler i)" "covered (gaps (gap_handler i)) = gap_span i"
    "expected_next (reassembler i) \<le> ?u" "\<forall>s. ring_held (reassembler i) s \<noteq> None \<longrightarrow> s < ?u"
    using assms(1) by (auto simp: gap_exact_def)
  have none: "ring_held (reassembler i) s = None" if "?u \<le> s" for s using ex(4) that by (meson not_le)
  show ?thesis
  proof (cases "?u < ?s")
    case True
    then have "?u \<le> ?stop" using le by order
    then have m: "max ?u ?stop = ?stop" by (rule max_absorb2)
    have "gap_span i \<union> {?u..<?s} = {s. expected_next (reassembler i) \<le> s \<and> s < ?stop \<and> ring_held (reassembler i) s = None}
        - {s. ?s \<le> s \<and> s < ?stop \<and> ?u \<le> s}"
      using True le ex(3) none by (auto simp: gap_span_def)
    moreover have "note_jump now h i = push_ready [Gap] (i\<lparr>gap_handler := record_missing_range ?u ?s (gap_handler i)\<rparr>)
        \<lparr>next_unseen := ?stop\<rparr>"
      using True assms(2) by (simp add: note_jump_def sat m)
    ultimately show ?thesis
      using record_missing_range_spec [OF ex(1), of ?u ?s] ex True le
      by (auto simp: loop_exact_def gap_span_def push_ready_def)
  next
    case False
    have "gap_span i = {s. expected_next (reassembler i) \<le> s \<and> s < max ?u ?stop \<and> ring_held (reassembler i) s = None}
        - {s. ?s \<le> s \<and> s < ?stop \<and> ?u \<le> s}"
      using False by (auto simp: gap_span_def max_def)
    moreover have "note_jump now h i = i\<lparr>next_unseen := max ?u ?stop\<rparr>"
      using False by (simp add: note_jump_def sat)
    ultimately show ?thesis
      using ex by (auto simp: loop_exact_def gap_span_def less_max_iff_disj le_max_iff_disj)
  qed
qed

section \<open>One datagram\<close>

lemma gap_exact_frame [simp]:
  "gap_exact (i\<lparr>pending_datagrams := p\<rparr>) = gap_exact i" "gap_exact (i\<lparr>session := s\<rparr>) = gap_exact i"
  "gap_exact (i\<lparr>legs := ls, recv_batch := b, pending_datagrams := p\<rparr>) = gap_exact i"
  "gap_exact (i\<lparr>backing := bk, inline_pending := n\<rparr>) = gap_exact i"
  "gap_exact (i\<lparr>ready := q\<rparr>) = gap_exact i" "gap_exact (i\<lparr>current := c\<rparr>) = gap_exact i"
  "gap_exact (push_ready xs i) = gap_exact i"
  by (simp_all add: gap_exact_def gap_span_def push_ready_def)

lemma note_tail_gap_exact:
  assumes "gap_exact i" "seq_anchored i"
  shows "gap_exact (note_tail_gap e i)"
proof (cases "next_unseen i < e")
  case True
  have none: "ring_held (reassembler i) s = None" if "next_unseen i \<le> s" for s
    using assms(1) that unfolding gap_exact_def by (meson not_le)
  have "gap_span i \<union> {next_unseen i..<e} = gap_span (i\<lparr>next_unseen := e\<rparr>)"
    using True assms(1) none by (auto simp: gap_span_def gap_exact_def)
  with record_missing_range_spec [of "gap_handler i" "next_unseen i" e] assms True
  have "gap_exact (i\<lparr>next_unseen := e, gap_handler := record_missing_range (next_unseen i) e (gap_handler i)\<rparr>)"
    by (auto simp: gap_exact_def gap_span_def)
  with True show ?thesis by (simp add: note_tail_gap_def)
qed (use assms in \<open>simp add: note_tail_gap_def\<close>)

lemma accept_header_exact:
  fixes i :: "('t, 'f) inner"
  assumes "gap_exact i" "\<not> seq_anchored i \<longrightarrow> ring_held (reassembler i) = Map.empty"
    "accept_header h i = (res, i')"
  shows "gap_exact i'"
proof -
  have anchor: "gap_exact (j\<lparr>reassembler := reset_expected e (reassembler j), next_unseen := e, arbiter := a,
      seq_anchored := True\<rparr>)"
    if "gap_exact j" "\<not> seq_anchored j" "ring_held (reassembler j) = Map.empty" for j :: "('t, 'f) inner" and e a
  proof -
    have "gap_span j = {}" using that(1,2) unfolding gap_exact_def gap_span_def by auto
    moreover have "gap_span (j\<lparr>reassembler := reset_expected e (reassembler j), next_unseen := e, arbiter := a,
      seq_anchored := True\<rparr>) = {}" by (auto simp: gap_span_def reset_expected_def)
    ultimately show ?thesis using that unfolding gap_exact_def by (simp add: reset_expected_def)
  qed
  show ?thesis
  proof (cases "session i")
    case None
    show ?thesis
    proof (cases "seq_anchored i")
      case True
      with None assms show ?thesis by (auto simp: accept_header_def)
    next
      case False
      with anchor [of "i\<lparr>session := Some (session_id h)\<rparr>"] None assms show ?thesis
        by (auto simp: accept_header_def)
    qed
  next
    case (Some x)
    show ?thesis
    proof (cases "x = session_id h \<and> \<not> seq_anchored i")
      case True
      with anchor [of i] Some assms show ?thesis by (auto simp: accept_header_def)
    next
      case False
      with Some assms show ?thesis by (auto simp: accept_header_def split: if_split_asm)
    qed
  qed
qed

lemma decode_data_exact:
  assumes "gap_exact i" "arbiter i = None" "rx_inv as_ref msg i" "ready i = []" "seq_anchored i"
    "honest msg (held_bytes as_ref d)" "parse_header (held_bytes as_ref d) = Inr h" "header_kind h = KData"
    "decode_data as_ref now sid d h i = (res, i')" "\<not> is_full res"
  shows "gap_exact i'"
proof (cases "collect_blocks (sequence_no h) (header_blocks h (held_bytes as_ref d))")
  case (Inl e)
  with assms show ?thesis by (auto simp: decode_data_def)
next
  case (Inr blks)
  let ?buf = "held_bytes as_ref d" and ?j = "note_jump now h i" and ?stop = "sequence_no h + ucast (message_count h) :: u64"
  obtain pr i1 where pl: "place_blocks now sid blks (OwnedBacking d, 0) ?j = (pr, i1)" by (rule prod.exhaust)
  have "loop_inv as_ref msg (next_out i) (backing_bytes as_ref (backing i)) 0 i"
    using assms(3,4) by (simp add: rx_inv_def)
  then have l0: "loop_inv as_ref msg (next_out i) ?buf 0 ?j" unfolding note_jump_inv by (rule loop_inv_no_inline)
  have hon: "unat (sequence_no h) + unat (message_count h) < 2 ^ 64 - 1" "\<forall>blk \<in> set blks. block_ok msg ?buf blk"
    using assms(6,7,8) Inr unfolding honest_def by blast+
  note run = collect_blocks_run [OF Inr]
  have len: "unat (sequence_no h) + length blks = unat ?stop"
    using hon(1) unat_add_lem [of "sequence_no h" "ucast (message_count h)"] run(2) by simp
  have none: "arbiter ?j = None" using assms(2) by (simp add: note_jump_same)
  note ex = note_jump_exact [OF assms(1,2) hon(1), of now]
  obtain bk n where pr: "pr = Inr (bk, n)"
    using place_blocks_error [of now sid blks "(OwnedBacking d, 0)" ?j] pl assms(9,10) Inr
    by (cases pr) (auto simp: decode_data_def)
  have loop: "loop_exact (next_unseen i) ?stop ?stop i1"
    by (rule place_blocks_exact [OF pl [unfolded pr] ex l0 hon(2) _ run(1) len none]) simp
  have "seq_anchored i1" using place_blocks_same [OF pl] assms(5) by (simp add: same_frame_def note_jump_same)
  with loop have "gap_exact i1" by (auto simp: gap_exact_def loop_exact_def)
  with assms(9) Inr pl pr show ?thesis by (auto simp: decode_data_def split: if_split_asm)
qed

lemma decode_datagram_exact:
  assumes "gap_exact i" "arbiter i = None" "rx_inv as_ref msg i" "ready i = []" "current i = None"
    "honest msg (held_bytes as_ref d)" "decode_datagram as_ref now sid d i = (res, i')" "\<not> is_full res"
  shows "gap_exact i'"
proof (cases "parse_header (held_bytes as_ref d)")
  case (Inl e)
  with assms show ?thesis by (auto simp: decode_datagram_def)
next
  case h: (Inr h)
  obtain ar i1 where ah: "accept_header h i = (ar, i1)" by (rule prod.exhaust)
  note acc = accept_header_inv [OF assms(3,4) ah]
  have ex: "gap_exact i1"
    using accept_header_exact [OF assms(1) _ ah] assms(3) by (auto simp: rx_inv_def)
  show ?thesis
  proof (cases ar)
    case (Inl e)
    with assms(7) h ah ex show ?thesis by (auto simp: decode_datagram_def)
  next
    case (Inr u)
    with acc have an: "seq_anchored i1" by simp
    show ?thesis
    proof (cases "header_kind h")
      case KData
      have dd: "decode_data as_ref now sid d h i1 = (res, i')"
        using assms(7) h ah Inr KData by (simp add: decode_datagram_def)
      show ?thesis
        by (rule decode_data_exact [OF ex _ _ _ an assms(6) h KData dd assms(8)]) (use acc assms(2) in auto)
    qed (use assms(7) h ah Inr note_tail_gap_exact [OF ex an] in \<open>auto simp: decode_datagram_def\<close>)
  qed
qed

section \<open>The pump\<close>

lemma gather_frame:
  "gather env i r = (g, i1, r1) \<Longrightarrow> ready i1 = ready i \<and> gap_handler i1 = gap_handler i \<and> reassembler i1 = reassembler i
     \<and> next_unseen i1 = next_unseen i \<and> seq_anchored i1 = seq_anchored i"
  by (auto simp: gather_def poll_legs_def split: prod.split_asm sum.split_asm if_split_asm)

text \<open>
  Any property of the receiver that polling and decoding keep is kept by the pump, until a reorder
  overflow.
\<close>

lemma pump_loop_preserves:
  fixes env :: "('t, 'f, 'r, 'w) rx_env"
  assumes "pump_loop env i r w = Some (res, i', r', w')" "P i r" "\<not> is_full res"
    and gath: "\<And>i r g i1 r1. P i r \<Longrightarrow> gather env i r = (g, i1, r1) \<Longrightarrow> P i1 r1"
    and proc: "\<And>i r now pr i2. P i r \<Longrightarrow> ready i = [] \<Longrightarrow>
      process_next_pending (env_as_ref env) now i = (pr, i2) \<Longrightarrow> \<not> is_full pr \<Longrightarrow> P i2 r \<and> P (settle_gaps now i2) r"
  shows "P i' r'"
proof -
  let ?Q = "\<lambda>env' i r w y. env' = env \<longrightarrow> P i r \<longrightarrow> \<not> is_full (fst y) \<longrightarrow> P (fst (snd y)) (fst (snd (snd y)))"
  have "?Q env i r w (res, i', r', w')"
    using assms(1)
  proof (rule pump_loop.raw_induct [where P = ?Q, rotated], intro impI)
    fix loop :: "('t, 'f, 'r, 'w) rx_env \<Rightarrow> ('t, 'f) inner \<Rightarrow> 'r \<Rightarrow> 'w \<Rightarrow> ((mold_error + unit) \<times> ('t, 'f) inner \<times> 'r \<times> 'w) option"
      and env' i r w y
    assume IH: "\<And>env' i r w y. loop env' i r w = Some y \<Longrightarrow> ?Q env' i r w y"
      and body: "(if ready i \<noteq> [] then Some (Inr (), i, r, w)
      else case (if pending_datagrams i = [] then gather env' i r else (Inr True, i, r)) of
        (Inl e, i1, r1) \<Rightarrow> Some (Inl e, i1, r1, w)
      | (Inr landed, i1, r1) \<Rightarrow>
          (if \<not> landed then Some (Inr (), i1, r1, w)
           else case arbiter_clock env' i1 w of
             (now, w1) \<Rightarrow>
               (case process_next_pending (env_as_ref env') now i1 of
                  (Inl e, i2) \<Rightarrow> Some (Inl e, i2, r1, w1)
                | (Inr _, i2) \<Rightarrow> loop env' (settle_gaps now i2) r1 w1))) = Some y"
      and hyp: "env' = env" "P i r" "\<not> is_full (fst y)"
    show "P (fst (snd y)) (fst (snd (snd y)))"
    proof (cases "ready i = []")
      case False
      with body hyp show ?thesis by auto
    next
      case empty: True
      obtain g i1 r1 where g: "(if pending_datagrams i = [] then gather env' i r else (Inr True, i, r)) = (g, i1, r1)"
        by (rule prod_cases3)
      have st: "P i1 r1" "ready i1 = []"
        using g gath [OF hyp(2)] gather_frame [of env i r] hyp empty by (auto split: if_split_asm)
      obtain now w1 where c: "arbiter_clock env' i1 w = (now, w1)" by (rule prod.exhaust)
      obtain pr i2 where p: "process_next_pending (env_as_ref env') now i1 = (pr, i2)" by (rule prod.exhaust)
      note pk = proc [OF st p [unfolded hyp(1)]] and body' = body [unfolded g]
      consider (err) e where "g = Inl e" | (idle) "g = Inr False" | (perr) e where "g = Inr True" "pr = Inl e"
        | (go) u where "g = Inr True" "pr = Inr u"
        by (cases g; cases pr) auto
      then show ?thesis
      proof cases
        case perr
        with body' empty c p have "y = (Inl e, i2, r1, w1)" by simp
        with pk hyp(3) perr show ?thesis by (cases e) auto
      next
        case go
        with body' empty c p have "loop env' (settle_gaps now i2) r1 w1 = Some y" by simp
        from IH [OF this] pk go hyp show ?thesis by auto
      qed (use body' empty st in auto)
    qed
  qed
  with assms(2,3) show ?thesis by simp
qed

definition solo_ok ::
  "('t, 'f, 'r, 'w) rx_env \<Rightarrow> (u64 \<Rightarrow> bytes) \<Rightarrow> ('t \<Rightarrow> bool) \<Rightarrow> ('r \<Rightarrow> bool) \<Rightarrow> ('t, 'f) inner \<Rightarrow> 'r \<Rightarrow> bool" where
  "solo_ok env msg okl okr i r \<longleftrightarrow> rx_ok env msg okl okr i r \<and> arbiter i = None \<and> gap_exact i"

lemma process_solo:
  assumes "solo_ok env msg okl okr i r" "current i = None" "ready i = []"
    "process_next_pending (env_as_ref env) now i = (res, i')" "\<not> is_full res"
  shows "solo_ok env msg okl okr i' r \<and> current i' = None"
proof -
  have ok: "rx_ok env msg okl okr i r" "arbiter i = None" "gap_exact i" using assms(1) by (auto simp: solo_ok_def)
  note st = process_ok [OF ok(1) assms(3,2,4)]
  have "gap_exact i'"
  proof (cases "pending_datagrams i")
    case Nil
    with assms(4) ok(3) show ?thesis by (simp add: process_next_pending_def)
  next
    case (Cons p rest)
    obtain sid d where p: "p = (sid, d)" by (rule prod.exhaust)
    let ?i = "i\<lparr>pending_datagrams := rest\<rparr>"
    have dd: "decode_datagram (env_as_ref env) now sid d ?i = (res, i')"
      using assms(4) by (simp add: process_next_pending_def Cons p)
    have hon: "honest msg (held_bytes (env_as_ref env) d)" and inv: "rx_inv (env_as_ref env) msg ?i"
      using ok(1) Cons p
      by (auto simp: rx_ok_def rx_inv_def loop_inv_def next_out_def current_inline_def inbox_ok_def)
    show ?thesis
      by (rule decode_datagram_exact [OF _ _ inv _ _ hon dd assms(5)]) (use ok assms(2,3) in simp_all)
  qed
  with st ok assms(5) show ?thesis by (simp add: solo_ok_def)
qed

lemma pump_solo:
  fixes env :: "('t, 'f, 'r, 'w) rx_env"
  assumes "honest_env env msg okl okr" "solo_ok env msg okl okr i r" "current i = None"
    "pump env i r w = Some (res, i', r', w')" "\<not> is_full res"
  shows "solo_ok env msg okl okr i' r' \<and> current i' = None"
proof -
  obtain r1 w1 where s: "send_due_gaps env i r w = (r1, w1)" by (rule prod.exhaust)
  have "okr r1"
    using s assms(1,2) unfolding honest_env_def rx_ok_def solo_ok_def
    by (auto simp: send_due_gaps_def split: if_split_asm option.split_asm) (metis fst_conv)
  with assms(2) have start: "solo_ok env msg okl okr i r1 \<and> current i = None"
    using assms(3) by (simp add: solo_ok_def rx_ok_def)
  have loop: "pump_loop env i r1 w1 = Some (res, i', r', w')" using assms(4) s by (simp add: pump_def)
  show ?thesis
  proof (rule pump_loop_preserves [where P = "\<lambda>i r. solo_ok env msg okl okr i r \<and> current i = None",
        OF loop start assms(5)])
    fix i i1 :: "('t, 'f) inner" and r r1 g
    assume a: "solo_ok env msg okl okr i r \<and> current i = None" "gather env i r = (g, i1, r1)"
    from gather_ok [OF assms(1) _ a(2)] gather_frame [OF a(2)] a(1)
    show "solo_ok env msg okl okr i1 r1 \<and> current i1 = None"
      by (auto simp: solo_ok_def gap_exact_def gap_span_def)
  next
    fix i i2 :: "('t, 'f) inner" and r now pr
    assume a: "solo_ok env msg okl okr i r \<and> current i = None" "ready i = []"
      "process_next_pending (env_as_ref env) now i = (pr, i2)" "\<not> is_full pr"
    have s2: "solo_ok env msg okl okr i2 r \<and> current i2 = None"
      by (rule process_solo [OF _ _ a(2,3,4)]) (use a(1) in simp_all)
    moreover have "settle_gaps now i2 = i2"
      using s2 by (auto simp: solo_ok_def settle_gaps_def drain_confirmed_gaps_def split: option.splits)
    ultimately show "(solo_ok env msg okl okr i2 r \<and> current i2 = None) \<and>
        (solo_ok env msg okl okr (settle_gaps now i2) r \<and> current (settle_gaps now i2) = None)" by simp
  qed
qed

section \<open>Properties\<close>

lemma from_legs_gap_exact: "from_legs stats_of cfg ls = Inr i \<Longrightarrow> gap_exact i"
  by (auto simp: from_legs_def Let_def gap_exact_def gap_span_def gap_handler_new_def gaps_ok_def ranges_ok_def
      covered_def fresh_ring reset_expected_def split: if_splits sum.splits option.splits)

lemma retire_gap_exact: "gap_exact (retire_current i) = gap_exact i"
  by (auto simp: retire_current_def release_inline_def Let_def gap_exact_def gap_span_def
      split: option.splits ready_item.splits)



section \<open>Reorder overflow\<close>

lemma place_block_overflow:
  assumes "loop_exact u (fst blk) stop i" "fst blk < stop" "loop_inv as_ref msg f buf n i"
    "place_block sid blk (bk, n) i = (Inl e, i')"
  shows "fst blk \<in> gap_span i' \<and> fst blk \<notin> covered (gaps (gap_handler i'))"
proof -
  obtain sq offset len where blk: "blk = (sq, offset, len)" by (rule prod_cases3)
  consider (eq) "sq = expected_next (reassembler i)" | (gt) "expected_next (reassembler i) < sq"
    | (lt) "sq < expected_next (reassembler i)" by fastforce
  then show ?thesis
  proof cases
    case eq
    obtain vs r where "drain_all (advance_expected 1 (reassembler i)) = (vs, r)" by (rule prod.exhaust)
    from place_block_eq [OF eq this] assms(4) show ?thesis by (simp add: blk)
  next
    case gt
    obtain bk' arc where sh: "backing_share bk = (bk', arc)" by (rule prod.exhaust)
    obtain ir r where ins: "reassembler_insert sq (message_view_new arc offset len) (reassembler i) = (ir, r)"
      by (rule prod.exhaust)
    note pb = place_block_gt [OF gt sh ins, of sid n]
    have ir: "ir = Inl e" using pb assms(4) by (cases ir) (simp_all add: blk)
    have i': "i' = i\<lparr>gap_handler := mark_received sq (gap_handler i), reassembler := r\<rparr>"
      using pb assms(4) by (simp add: blk)
    have inv: "ring_inv (reassembler i)" using assms(3) by (simp add: loop_inv_def ring_good_def)
    have r: "r = reassembler i" by (rule ring.store_error [OF inv ins [unfolded ir]])
    have none: "ring_held (reassembler i) sq = None"
      using ins ir by (auto simp: reassembler_insert_def ring_held_def Let_def split: if_splits)
    have gok: "gaps_ok (gap_handler i)" and "stop \<le> next_unseen i" using assms(1) by (auto simp: loop_exact_def)
    then have lt: "sq < next_unseen i" using assms(2) by (simp add: blk)
    have "covered (gaps (mark_received sq (gap_handler i))) = covered (gaps (gap_handler i)) - {sq}"
      using mark_received_spec [OF gok] by blast
    with none gt lt show ?thesis unfolding blk i' r by (simp add: gap_span_def order_less_imp_le)
  next
    case lt
    from place_block_lt [OF lt] assms(4) show ?thesis by (simp add: blk)
  qed
qed

lemma place_blocks_overflow:
  assumes "place_blocks now sid blks (bk, n) i = (Inl e, i')" "loop_exact u sq stop i"
    "loop_inv as_ref msg f buf n i" "\<forall>blk \<in> set blks. block_ok msg buf blk" "backing_bytes as_ref bk = buf"
    "seq_run sq (map fst blks) stop" "unat sq + length blks = unat stop" "arbiter i = None"
  shows "\<exists>s. s \<in> gap_span i' \<and> s \<notin> covered (gaps (gap_handler i'))"
  using assms
proof (induction blks arbitrary: bk n i sq)
  case Nil
  then show ?case by simp
next
  case (Cons blk blks)
  have ar: "arbitrate now sid (fst blk) i = (True, i)" using Cons.prems(8) by (simp add: arbitrate_def)
  obtain pr i2 where pb: "place_block sid blk (bk, n) i = (pr, i2)" by (rule prod.exhaust)
  have sq: "fst blk = sq" and rest: "seq_run (sq + 1) (map fst blks) stop" using Cons.prems(6) by auto
  have ok: "block_ok msg buf blk" "\<forall>blk \<in> set blks. block_ok msg buf blk" using Cons.prems(4) by auto
  have st: "sq < stop" using Cons.prems(7) by (simp add: word_less_nat_alt)
  show ?case
  proof (cases pr)
    case (Inl e')
    with Cons.prems(1) ar pb have "i' = i2" by simp
    with place_block_overflow [of u blk stop i as_ref msg f buf n sid bk e' i2] Cons.prems(2,3) st pb Inl sq
    show ?thesis by auto
  next
    case (Inr p)
    obtain bk' n' where p: "p = (bk', n')" by (rule prod.exhaust)
    have up: "unat (sq + 1) + length blks = unat stop"
      using unat_add1_no_overflow [OF st] Cons.prems(7) by simp
    have inv: "loop_inv as_ref msg f buf n' i2" "backing_bytes as_ref bk' = buf"
      using place_block_inv [OF Cons.prems(3) ok(1) Cons.prems(5) pb] by (auto simp: Inr p)
    have ex: "loop_exact u (sq + 1) stop i2"
      using place_block_exact [of u blk stop i as_ref msg f buf n sid bk] Cons.prems(2,3) ok(1) st pb Inr p sq by auto
    have pl: "place_blocks now sid blks (bk', n') i2 = (Inl e, i')" using Cons.prems(1) ar pb Inr p by simp
    have none: "arbiter i2 = None" using place_block_arbiter [OF pb] Cons.prems(8) by simp
    show ?thesis by (rule Cons.IH [OF pl ex inv(1) ok(2) inv(2) rest up none])
  qed
qed

lemma parse_header_error: "parse_header buf = Inl e \<Longrightarrow> e = PacketTooLarge \<or> e = PacketTooShort"
  by (auto simp: parse_header_def split: if_split_asm option.split_asm)


text \<open>Sequence 2 is buffered behind a missing 1; sequence 4098 falls on the same slot of the ring.\<close>

definition one_block :: "u64 \<Rightarrow> u8 \<Rightarrow> bytes" where
  "one_block sq b = encode_packet (replicate 10 83) sq [[b]]"

lemma one_block_parse:
  "parse_header (one_block sq b) = Inr \<lparr>session_id = replicate 10 83, sequence_no = sq, message_count = 1\<rparr>"
  unfolding one_block_def encode_packet_def
  by (subst parse_header_encoded) (simp_all add: MAX_DOWNSTREAM_DATAGRAM_def)

lemma one_block_blocks:
  "collect_blocks sq (header_blocks \<lparr>session_id = replicate 10 83, sequence_no = sq, message_count = 1\<rparr> (one_block sq b))
     = Inr [(sq, 22, 1)]"
proof -
  have "header_blocks \<lparr>session_id = replicate 10 83, sequence_no = sq, message_count = 1\<rparr> (one_block sq b)
      = block_iter_new (encode_blocks [[b]]) 1"
    unfolding one_block_def encode_packet_def by (subst header_blocks_append) simp_all
  then show ?thesis
    using collect_blocks_encoded [of "block_iter_new (encode_blocks [[b]]) 1" "[[b]]" "[]" sq]
    by (simp add: block_iter_new_def block_sized_def HEADER_LEN_def)
qed

lemma one_block_honest: "msg sq = [b] \<Longrightarrow> unat sq + 1 < 2 ^ 64 - 1 \<Longrightarrow> honest msg (one_block sq b)"
  unfolding one_block_def
  by (rule encode_packet_honest) (simp_all add: encode_packet_def encode_header_def)

definition split_msg :: "u64 \<Rightarrow> bytes" where
  "split_msg sq = (if sq = 2 then [66] else if sq = 4098 then [67] else [])"

definition demo_ahead :: "(bytes list, bytes) inner" where
  "demo_ahead = snd (decode_datagram (\<lambda>d. d) None 0 (Copied (one_block 2 66)) demo_rx)"

lemma demo_ahead_decode:
  "decode_datagram (\<lambda>d. d) None 0 (Copied (one_block 2 66)) demo_rx = (Inr (), demo_ahead)"
  "demo_ahead = demo_rx\<lparr>session := Some (replicate 10 83), next_unseen := 3, gap_handler := \<lparr>gaps = [(1, 2)]\<rparr>,
     ready := [Gap], reassembler := \<lparr>slots = (replicate 4096 \<lparr>slot_seq = 0, slot_payload = None\<rparr>)
       [2 := \<lparr>slot_seq = 2, slot_payload = Some \<lparr>view_datagram = Copied (one_block 2 66), view_offset = 22, view_len = 1\<rparr>\<rparr>],
       ra_capacity = 4096, expected_next = 1\<rparr>\<rparr>"
proof -
  have two: "\<not> (2 :: u64) \<le> 1" by code_simp
  have e: "decode_datagram (\<lambda>d. d) None 0 (Copied (one_block 2 66)) demo_rx = (Inr (), demo_rx\<lparr>session := Some (replicate 10 83),
     next_unseen := 3, gap_handler := \<lparr>gaps = [(1, 2)]\<rparr>,
     ready := [Gap], reassembler := \<lparr>slots = (replicate 4096 \<lparr>slot_seq = 0, slot_payload = None\<rparr>)
       [2 := \<lparr>slot_seq = 2, slot_payload = Some \<lparr>view_datagram = Copied (one_block 2 66), view_offset = 22, view_len = 1\<rparr>\<rparr>],
       ra_capacity = 4096, expected_next = 1\<rparr>\<rparr>)"
    by (simp add: demo_rx_eval decode_eval one_block_parse one_block_blocks Let_def record_missing_range_def bt_pred_lt_def
        absorb.simps bt_succ_ge_def bt_insert_def reassembler_insert_def slot_index_def message_view_new_def two)
  show "decode_datagram (\<lambda>d. d) None 0 (Copied (one_block 2 66)) demo_rx = (Inr (), demo_ahead)"
    unfolding demo_ahead_def by (subst e) (simp add: e)
  show "demo_ahead = demo_rx\<lparr>session := Some (replicate 10 83), next_unseen := 3, gap_handler := \<lparr>gaps = [(1, 2)]\<rparr>,
     ready := [Gap], reassembler := \<lparr>slots = (replicate 4096 \<lparr>slot_seq = 0, slot_payload = None\<rparr>)
       [2 := \<lparr>slot_seq = 2, slot_payload = Some \<lparr>view_datagram = Copied (one_block 2 66), view_offset = 22, view_len = 1\<rparr>\<rparr>],
       ra_capacity = 4096, expected_next = 1\<rparr>\<rparr>"
    by (simp add: demo_ahead_def e)
qed

lemma demo_overflow:
  "fst (decode_datagram (\<lambda>d. d) None 0 (Copied (one_block 4098 67)) (demo_ahead\<lparr>ready := []\<rparr>)) =
     Inl (ReassemblyBufferFull 4096)"
  by (simp add: demo_ahead_decode(2) demo_rx_eval decode_eval one_block_parse one_block_blocks Let_def
      record_missing_range_def bt_pred_lt_def absorb.simps bt_succ_ge_def bt_insert_def reassembler_insert_def slot_index_def)


end
