(* ===== verification/Soup_Wire.thy ===== *)
theory Soup_Wire
  imports Transport_Core
begin

text \<open>
  The SoupBinTCP codec of \<^verbatim>\<open>crates/clients/soupbintcp/src\<close>: packet framing (\<^verbatim>\<open>wire.rs\<close>), the error
  type (\<^verbatim>\<open>error.rs\<close>), the client config (\<^verbatim>\<open>config.rs\<close>) and the ASCII login fields at the end of
  \<^verbatim>\<open>session.rs\<close>, with the operations of \<^verbatim>\<open>str\<close> they call (UTF-8 validation, \<^verbatim>\<open>trim\<close>,
  \<^verbatim>\<open>parse::<u64>\<close>, \<^verbatim>\<open>to_string\<close>) written out.

  A \<^verbatim>\<open>&str\<close> that is read as text is the list of its code points; the config strings, which the
  code only reads through \<^verbatim>\<open>as_bytes\<close>, are their bytes. The text of a protocol violation is a value
  of \<open>violation\<close>, one constructor per message.
\<close>

section \<open>Packets and errors\<close>

datatype packet_type =
    PLoginRequest | PLoginAccepted | PLoginRejected | PSequencedData | PServerHeartbeat
  | PEndOfSession | PDebug | PUnsequencedData | PClientHeartbeat | PLogoutRequest

type_synonym str = "nat list"

datatype violation =
    ZeroLengthPacket
  | LoginAcceptedShort
  | LoginRejectedNoReason
  | UnexpectedDuringLogin packet_type
  | UnexpectedInStreaming packet_type
  | NonAsciiField
  | BadNumericField str
  | InflateFailed
  | InflateNoProgress

datatype soup_error =
    SoupTransport transport_error
  | LoginRejectedError str
  | LoginTimeout duration
  | FrameTooLarge nat nat
  | ProtocolViolation violation
  | UnknownPacketType u8
  | SessionEnded

text \<open>The byte of each type, \<^verbatim>\<open>ty as u8\<close>.\<close>

primrec packet_byte :: "packet_type \<Rightarrow> u8" where
  "packet_byte PLoginRequest = 76"
| "packet_byte PLoginAccepted = 65"
| "packet_byte PLoginRejected = 74"
| "packet_byte PSequencedData = 83"
| "packet_byte PServerHeartbeat = 72"
| "packet_byte PEndOfSession = 90"
| "packet_byte PDebug = 43"
| "packet_byte PUnsequencedData = 85"
| "packet_byte PClientHeartbeat = 82"
| "packet_byte PLogoutRequest = 79"

definition packet_type_of :: "u8 \<Rightarrow> soup_error + packet_type" where
  "packet_type_of b =
     (if b = 76 then Inr PLoginRequest
      else if b = 65 then Inr PLoginAccepted
      else if b = 74 then Inr PLoginRejected
      else if b = 83 then Inr PSequencedData
      else if b = 72 then Inr PServerHeartbeat
      else if b = 90 then Inr PEndOfSession
      else if b = 43 then Inr PDebug
      else if b = 85 then Inr PUnsequencedData
      else if b = 82 then Inr PClientHeartbeat
      else if b = 79 then Inr PLogoutRequest
      else Inl (UnknownPacketType b))"

record packet_frame =
  pf_ty :: packet_type
  pf_payload :: bytes

definition parse_packet :: "bytes \<Rightarrow> soup_error + (packet_frame \<times> nat) option" where
  "parse_packet buf =
     (if length buf < 3 then Inr None
      else let len = unat (u16_from_be_bytes [buf ! 0, buf ! 1]) in
        if len < 1 then Inl (ProtocolViolation ZeroLengthPacket)
        else let total = 2 + len in
          if length buf < total then Inr None
          else case packet_type_of (buf ! 2) of
            Inl e \<Rightarrow> Inl e
          | Inr ty \<Rightarrow> Inr (Some (\<lparr>pf_ty = ty, pf_payload = take (total - 3) (drop 3 buf)\<rparr>, total)))"

section \<open>Configuration\<close>

record soup_config =
  username :: bytes
  password :: bytes
  requested_session :: bytes
  requested_sequence_number :: u64
  login_timeout :: duration
  heartbeat_interval :: duration
  heartbeat_timeout :: duration
  max_frame_size :: nat
  decode_buf_capacity :: nat

definition soup_config_default :: soup_config where
  "soup_config_default =
     \<lparr>username = [], password = [], requested_session = [], requested_sequence_number = 1,
      login_timeout = 30 * 10 ^ 9, heartbeat_interval = 10 ^ 9, heartbeat_timeout = 15 * 10 ^ 9,
      max_frame_size = 64 * 1024, decode_buf_capacity = 64 * 1024\<rparr>"

section \<open>Text\<close>

text \<open>\<^verbatim>\<open>from_utf8\<close>: one scalar value off the front, by the well-formedness table of UTF-8.\<close>

definition continuation :: "nat \<Rightarrow> bool" where
  "continuation b \<longleftrightarrow> 128 \<le> b \<and> b \<le> 191"

definition utf8_char :: "bytes \<Rightarrow> (nat \<times> bytes) option" where
  "utf8_char bs =
     (case bs of [] \<Rightarrow> None | b0 # r0 \<Rightarrow>
      let a = unat b0 in
      if a < 128 then Some (a, r0)
      else if 194 \<le> a \<and> a \<le> 223 then
        (case r0 of
           b1 # r1 \<Rightarrow> (if continuation (unat b1) then Some ((a - 192) * 64 + (unat b1 - 128), r1) else None)
         | _ \<Rightarrow> None)
      else if 224 \<le> a \<and> a \<le> 239 then
        (case r0 of
           b1 # b2 # r2 \<Rightarrow>
             (if (if a = 224 then 160 else 128) \<le> unat b1 \<and> unat b1 \<le> (if a = 237 then 159 else 191)
                 \<and> continuation (unat b2)
              then Some ((a - 224) * 4096 + (unat b1 - 128) * 64 + (unat b2 - 128), r2) else None)
         | _ \<Rightarrow> None)
      else if 240 \<le> a \<and> a \<le> 244 then
        (case r0 of
           b1 # b2 # b3 # r3 \<Rightarrow>
             (if (if a = 240 then 144 else 128) \<le> unat b1 \<and> unat b1 \<le> (if a = 244 then 143 else 191)
                 \<and> continuation (unat b2) \<and> continuation (unat b3)
              then Some ((a - 240) * 262144 + (unat b1 - 128) * 4096 + (unat b2 - 128) * 64 + (unat b3 - 128), r3)
              else None)
         | _ \<Rightarrow> None)
      else None)"

lemma utf8_char_shrinks: "utf8_char bs = Some (c, r) \<Longrightarrow> length r < length bs"
  by (auto simp: utf8_char_def Let_def split: list.split_asm if_split_asm)

function from_utf8 :: "bytes \<Rightarrow> str option" where
  "from_utf8 bs =
     (if bs = [] then Some []
      else case utf8_char bs of
        None \<Rightarrow> None
      | Some (c, r) \<Rightarrow> map_option ((#) c) (from_utf8 r))"
  by pat_completeness auto
termination
  by (relation "measure length") (auto dest: utf8_char_shrinks)

declare from_utf8.simps [simp del]

text \<open>\<^verbatim>\<open>char::is_whitespace\<close>, the Unicode property White\_Space.\<close>

definition is_whitespace :: "nat \<Rightarrow> bool" where
  "is_whitespace c \<longleftrightarrow>
     (9 \<le> c \<and> c \<le> 13) \<or> c = 32 \<or> c = 133 \<or> c = 160 \<or> c = 5760 \<or> (8192 \<le> c \<and> c \<le> 8202)
     \<or> c = 8232 \<or> c = 8233 \<or> c = 8239 \<or> c = 8287 \<or> c = 12288"

definition trim :: "str \<Rightarrow> str" where
  "trim s = rev (dropWhile is_whitespace (rev (dropWhile is_whitespace s)))"

text \<open>\<^verbatim>\<open>str::parse::<u64>\<close>: an optional plus sign, then at least one digit, no overflow.\<close>

definition to_digit :: "nat \<Rightarrow> nat option" where
  "to_digit c = (if 48 \<le> c \<and> c \<le> 57 then Some (c - 48) else None)"

fun parse_digits :: "nat \<Rightarrow> str \<Rightarrow> u64 option" where
  "parse_digits acc [] = Some (of_nat acc)"
| "parse_digits acc (c # cs) =
     (case to_digit c of
        None \<Rightarrow> None
      | Some d \<Rightarrow> if acc * 10 + d < 2 ^ 64 then parse_digits (acc * 10 + d) cs else None)"

definition parse_u64 :: "str \<Rightarrow> u64 option" where
  "parse_u64 s =
     (if s = [] \<or> s = [43] \<or> s = [45] then None
      else if hd s = 43 then parse_digits 0 (tl s)
      else parse_digits 0 s)"

text \<open>\<^verbatim>\<open>u64::to_string\<close>.\<close>

fun decimal :: "nat \<Rightarrow> nat list" where
  "decimal n = (if n < 10 then [48 + n] else decimal (n div 10) @ [48 + n mod 10])"

declare decimal.simps [simp del]

definition u64_to_string :: "u64 \<Rightarrow> bytes" where
  "u64_to_string n = map of_nat (decimal (unat n))"

section \<open>Login fields\<close>

definition ascii_left_justify :: "bytes \<Rightarrow> bytes \<Rightarrow> nat \<Rightarrow> bytes" where
  "ascii_left_justify out s width =
     (let bs = take (min (length s) width) s in out @ bs @ replicate (width - length bs) 32)"

definition ascii_right_justify :: "bytes \<Rightarrow> bytes \<Rightarrow> nat \<Rightarrow> bytes" where
  "ascii_right_justify out s width =
     (let bs = drop (length s - width) s in out @ replicate (width - length bs) 32 @ bs)"

definition login_request :: "soup_config \<Rightarrow> bytes" where
  "login_request cfg =
     (let payload = ascii_left_justify [] (username cfg) 6;
          payload = ascii_left_justify payload (password cfg) 10;
          payload = ascii_left_justify payload (requested_session cfg) 10
      in ascii_right_justify payload (u64_to_string (requested_sequence_number cfg)) 20)"

definition parse_ascii_field :: "bytes \<Rightarrow> soup_error + str" where
  "parse_ascii_field bs =
     (case from_utf8 bs of None \<Rightarrow> Inl (ProtocolViolation NonAsciiField) | Some s \<Rightarrow> Inr (trim s))"

definition parse_ascii_numeric :: "bytes \<Rightarrow> soup_error + u64" where
  "parse_ascii_numeric bs =
     (case parse_ascii_field bs of
        Inl e \<Rightarrow> Inl e
      | Inr s \<Rightarrow>
          if s = [] then Inr 0
          else case parse_u64 s of
            None \<Rightarrow> Inl (ProtocolViolation (BadNumericField s))
          | Some n \<Rightarrow> Inr n)"

definition parse_login_accepted :: "bytes \<Rightarrow> soup_error + bytes \<times> u64" where
  "parse_login_accepted bs =
     (case split_first_chunk 10 bs of
        None \<Rightarrow> Inl (ProtocolViolation LoginAcceptedShort)
      | Some (sess, rest) \<Rightarrow>
          (case get_range 0 20 rest of
             None \<Rightarrow> Inl (ProtocolViolation LoginAcceptedShort)
           | Some sq \<Rightarrow>
               (case parse_ascii_numeric sq of
                  Inl e \<Rightarrow> Inl e
                | Inr n \<Rightarrow> Inr (sess, n))))"

section \<open>Framing lemmas\<close>

text \<open>The bytes of one packet, as \<^verbatim>\<open>Session::queue\<close> appends them.\<close>

definition packet_bytes :: "packet_type \<Rightarrow> bytes \<Rightarrow> bytes" where
  "packet_bytes ty payload = u16_to_be_bytes (of_nat (1 + length payload)) @ packet_byte ty # payload"

lemma packet_type_roundtrip [simp]: "packet_type_of (packet_byte ty) = Inr ty"
  by (cases ty) (simp_all add: packet_type_of_def)

lemma packet_type_of_inj: "packet_type_of b = Inr ty \<Longrightarrow> packet_byte ty = b"
  by (auto simp: packet_type_of_def split: if_split_asm)

lemma two_byte_list: "length bs = 2 \<Longrightarrow> [bs ! 0, bs ! 1] = bs"
  by (cases bs; cases "tl bs") auto

lemma parse_packet_bytes:
  assumes "length payload \<le> 65534"
  shows "parse_packet (packet_bytes ty payload @ rest)
       = Inr (Some (\<lparr>pf_ty = ty, pf_payload = payload\<rparr>, length payload + 3))"
proof -
  let ?l = "u16_to_be_bytes (of_nat (1 + length payload))"
  have le: "length ?l = 2" by (rule length_to_be_bytes)
  have ix: "(?l @ packet_byte ty # payload @ rest) ! 0 = ?l ! 0"
    "(?l @ packet_byte ty # payload @ rest) ! 1 = ?l ! 1"
    "(?l @ packet_byte ty # payload @ rest) ! 2 = packet_byte ty"
    using le by (simp_all only: nth_append) simp_all
  have n: "unat (of_nat (1 + length payload) :: u16) = 1 + length payload"
    using assms by (simp add: unat_of_nat del: of_nat_add of_nat_Suc)
  have d: "drop 3 (?l @ packet_byte ty # payload @ rest) = payload @ rest"
    using le by (simp del: of_nat_add of_nat_Suc)
  show ?thesis
    unfolding parse_packet_def packet_bytes_def append.assoc append_Cons ix two_byte_list [OF le] u16_be_roundtrip n d
    using le by (simp add: Let_def del: of_nat_add of_nat_Suc)
qed

lemma parse_packet_consumed:
  "parse_packet buf = Inr (Some (f, n)) \<Longrightarrow> 3 \<le> n \<and> n \<le> length buf \<and> length (pf_payload f) = n - 3"
  by (auto simp: parse_packet_def Let_def split: if_split_asm sum.split_asm)

lemma three_bytes:
  assumes "3 \<le> length buf"
  obtains b0 b1 b2 r where "buf = b0 # b1 # b2 # r"
  using assms by (cases buf; cases "tl buf"; cases "tl (tl buf)") auto

lemma parse_packet_Cons:
  "parse_packet (b0 # b1 # b2 # r) =
     (let len = unat (u16_from_be_bytes [b0, b1]) in
      if len = 0 then Inl (ProtocolViolation ZeroLengthPacket)
      else if length r + 1 < len then Inr None
      else case packet_type_of b2 of
        Inl e \<Rightarrow> Inl e
      | Inr ty \<Rightarrow> Inr (Some (\<lparr>pf_ty = ty, pf_payload = take (len - 1) r\<rparr>, 2 + len)))"
  by (simp add: parse_packet_def Let_def numeral_2_eq_2 numeral_3_eq_3 split: sum.split)

lemma parse_packet_append:
  assumes "parse_packet buf \<noteq> Inr None"
  shows "parse_packet (buf @ trailing) = parse_packet buf"
proof -
  have "3 \<le> length buf" using assms by (rule contrapos_np) (simp add: parse_packet_def)
  then obtain b0 b1 b2 r where b: "buf = b0 # b1 # b2 # r" by (rule three_bytes)
  show ?thesis
    using assms unfolding b append_Cons parse_packet_Cons Let_def by (simp split: if_split_asm sum.split)
qed

lemma parse_packet_front:
  assumes "parse_packet buf = Inr (Some (f, n))"
  shows "take n buf = packet_bytes (pf_ty f) (pf_payload f)"
proof -
  let ?len = "unat (u16_from_be_bytes [buf ! 0, buf ! 1])"
  have f: "3 \<le> length buf" "1 \<le> ?len" "n = 2 + ?len" "n \<le> length buf"
    "packet_type_of (buf ! 2) = Inr (pf_ty f)" "pf_payload f = take (n - 3) (drop 3 buf)"
    using assms by (auto simp: parse_packet_def Let_def split: if_split_asm sum.split_asm)
  obtain b0 b1 b2 r where b: "buf = b0 # b1 # b2 # r" using f(1) by (rule three_bytes)
  have "u16_to_be_bytes (u16_from_be_bytes [b0, b1]) = [b0, b1]" by (rule u16_to_from_be) simp
  moreover have "of_nat (1 + length (pf_payload f)) = u16_from_be_bytes [b0, b1]"
    using f(2-4,6) by (simp add: b del: of_nat_Suc of_nat_add)
  moreover have "packet_byte (pf_ty f) = b2" using packet_type_of_inj [OF f(5)] by (simp add: b)
  moreover obtain k where "n = Suc (Suc (Suc k))" using f(2,3) by (cases ?len) auto
  ultimately show ?thesis using f(6) by (simp add: packet_bytes_def b del: of_nat_Suc of_nat_add)
qed

section \<open>Numeric fields\<close>

lemma decimal_digits: "c \<in> set (decimal n) \<Longrightarrow> 48 \<le> c \<and> c \<le> 57"
  by (induction n rule: decimal.induct) (subst (asm) decimal.simps, auto split: if_split_asm)

lemma decimal_nonempty: "decimal n \<noteq> []"
  by (subst decimal.simps) simp

lemma length_decimal: "n < 10 ^ k \<Longrightarrow> 0 < k \<Longrightarrow> length (decimal n) \<le> k"
proof (induction n arbitrary: k rule: decimal.induct)
  case (1 n)
  show ?case
  proof (cases "n < 10")
    case True
    then show ?thesis using 1(3) by (simp add: decimal.simps [of n])
  next
    case False
    then obtain m where k: "k = Suc m" "0 < m"
      using 1(2,3) by (cases k; cases "k - 1") auto
    have "n div 10 < 10 ^ m" using 1(2) by (simp add: k(1) div_less_iff_less_mult mult.commute)
    from 1(1) [OF False this k(2)] show ?thesis using False by (simp add: decimal.simps [of n] k(1))
  qed
qed

lemma parse_digits_append:
  "acc < 2 ^ 64 \<Longrightarrow> parse_digits acc (xs @ [c]) = (case parse_digits acc xs of None \<Rightarrow> None | Some v \<Rightarrow>
     (case to_digit c of None \<Rightarrow> None | Some d \<Rightarrow>
        if unat v * 10 + d < 2 ^ 64 then Some (of_nat (unat v * 10 + d)) else None))"
proof (induction xs arbitrary: acc)
  case Nil
  then have "unat (of_nat acc :: u64) = acc" by (simp add: unat_of_nat)
  then show ?case by (cases "to_digit c") simp_all
next
  case (Cons x xs)
  then show ?case by (cases "to_digit x") simp_all
qed

lemma to_digit_of: "d < 10 \<Longrightarrow> to_digit (48 + d) = Some d"
  by (simp add: to_digit_def)

lemma parse_decimal: "n < 2 ^ 64 \<Longrightarrow> parse_digits 0 (decimal n) = Some (of_nat n)"
proof (induction n rule: decimal.induct)
  case (1 n)
  show ?case
  proof (cases "n < 10")
    case True
    then show ?thesis by (simp add: decimal.simps [of n] to_digit_of)
  next
    case False
    have lt: "n div 10 < 2 ^ 64" using 1(2) by linarith
    have val: "unat (of_nat (n div 10) :: u64) * 10 + n mod 10 = n"
      using lt by (simp add: unat_of_nat)
    show ?thesis using False 1(1) [OF False lt] 1(2) val to_digit_of [of "n mod 10"]
      by (simp add: decimal.simps [of n] parse_digits_append)
  qed
qed

lemma from_utf8_ascii: "\<forall>b \<in> set bs. unat b < 128 \<Longrightarrow> from_utf8 bs = Some (map unat bs)"
  by (induction bs) (simp_all add: from_utf8.simps utf8_char_def Let_def)

lemma dropWhile_replicate_prefix: "P x \<Longrightarrow> ys \<noteq> [] \<Longrightarrow> \<not> P (hd ys) \<Longrightarrow> dropWhile P (replicate k x @ ys) = ys"
  by (induction k) (cases ys; simp)+

lemma trim_padded:
  assumes "s \<noteq> []" "\<forall>c \<in> set s. \<not> is_whitespace c"
  shows "trim (replicate k 32 @ s) = s"
proof -
  have "dropWhile is_whitespace (replicate k 32 @ s) = s"
    using assms by (intro dropWhile_replicate_prefix) (auto simp: is_whitespace_def)
  moreover have "dropWhile is_whitespace (rev s) = rev s"
    using assms by (cases "rev s") (auto simp: dropWhile_eq_self_iff)
  ultimately show ?thesis by (simp add: trim_def)
qed

lemma unat_of_decimal: "map unat (map (of_nat :: nat \<Rightarrow> u8) (decimal n)) = decimal n"
proof -
  have "unat (of_nat c :: u8) = c" if "c \<in> set (decimal n)" for c
    using decimal_digits [OF that] by (simp add: unat_of_nat)
  then show ?thesis by (simp add: map_idI)
qed

lemma length_u64_to_string: "length (u64_to_string n) \<le> 20"
proof -
  have "unat n < 2 ^ 64" using unat_less_pow [of n] by simp
  also have "(2 :: nat) ^ 64 < 10 ^ 20" by simp
  finally show ?thesis using length_decimal [of "unat n" 20] by (simp add: u64_to_string_def)
qed

lemma parse_numeric_padded:
  "parse_ascii_numeric (replicate k 32 @ u64_to_string n) = Inr n"
proof -
  let ?d = "decimal (unat n)"
  have ascii: "\<forall>b \<in> set (replicate k 32 @ u64_to_string n). unat b < 128"
  proof -
    have "unat (of_nat c :: u8) < 128" if "c \<in> set ?d" for c
      using decimal_digits [OF that] by (simp add: unat_of_nat)
    then show ?thesis by (auto simp: u64_to_string_def)
  qed
  have chars: "map unat (replicate k 32 @ u64_to_string n) = replicate k 32 @ ?d"
    unfolding u64_to_string_def map_append unat_of_decimal by simp
  have ws: "\<forall>c \<in> set ?d. \<not> is_whitespace c"
    using decimal_digits [of _ "unat n"] by (force simp: is_whitespace_def)
  have hd: "48 \<le> hd ?d" using decimal_digits [of "hd ?d" "unat n"] decimal_nonempty [of "unat n"] by simp
  have "parse_u64 ?d = Some n"
    using hd decimal_nonempty [of "unat n"] parse_decimal [of "unat n"] unat_less_pow [of n] by (auto simp: parse_u64_def)
  then show ?thesis
    using trim_padded [OF decimal_nonempty ws]
    by (simp add: parse_ascii_numeric_def parse_ascii_field_def from_utf8_ascii [OF ascii] chars decimal_nonempty
        del: map_append)
qed

lemma length_justify [simp]:
  "length (ascii_left_justify out s w) = length out + w" "length (ascii_right_justify out s w) = length out + w"
  by (simp_all add: ascii_left_justify_def ascii_right_justify_def Let_def min_def)

lemma left_justify_field: "ascii_left_justify out s w = out @ take w (s @ replicate w 32)"
  by (auto simp: ascii_left_justify_def Let_def min_def)

lemma right_justify_number:
  "ascii_right_justify out (u64_to_string n) 20
     = out @ replicate (20 - length (u64_to_string n)) 32 @ u64_to_string n"
  using length_u64_to_string [of n] by (simp add: ascii_right_justify_def Let_def)

lemma parse_login_accepted_padded:
  assumes "length sess = 10"
  shows "parse_login_accepted (sess @ ascii_right_justify [] (u64_to_string n) 20 @ trailing) = Inr (sess, n)"
proof -
  let ?f = "ascii_right_justify [] (u64_to_string n) 20"
  have "get_range 0 20 (?f @ trailing) = Some ?f" by (simp add: get_range_def)
  moreover have "parse_ascii_numeric ?f = Inr n"
    using parse_numeric_padded by (simp add: right_justify_number)
  ultimately show ?thesis using assms by (simp add: parse_login_accepted_def)
qed

lemma length_padded: "length (take w (s @ replicate w x)) = w"
  by simp

lemma login_field_cuts:
  fixes u p s n :: bytes
  assumes "length u = 6" "length p = 10" "length s = 10" "length n = 20"
  shows "take 26 (u @ p @ s @ n) = u @ p @ s" "take 36 (drop 16 (u @ p @ s @ n)) = s @ n"
  using assms by simp_all

text \<open>
  C28. Login fields round trip. A login request is 46 bytes: the user name in 6, the password and the session
  in 10 each, cut or padded with spaces, then the requested sequence number in 20. Every sequence number
  fits its field, so none is cut: a server that echoes the 20 bytes in its \<^verbatim>\<open>Login Accepted\<close> gives the client
  the number it asked for.
\<close>

theorem login_request_roundtrip:
  "length (login_request cfg) = 46
   \<and> take 26 (login_request cfg) = take 6 (username cfg @ replicate 6 32) @ take 10 (password cfg @ replicate 10 32)
        @ take 10 (requested_session cfg @ replicate 10 32)
   \<and> parse_login_accepted (take 36 (drop 16 (login_request cfg)))
       = Inr (take 10 (requested_session cfg @ replicate 10 32), requested_sequence_number cfg)"
proof -
  let ?u = "take 6 (username cfg @ replicate 6 32)" and ?p = "take 10 (password cfg @ replicate 10 32)"
    and ?s = "take 10 (requested_session cfg @ replicate 10 32)"
    and ?n = "ascii_right_justify [] (u64_to_string (requested_sequence_number cfg)) 20"
  have l: "login_request cfg = ?u @ ?p @ ?s @ ?n"
    unfolding login_request_def Let_def left_justify_field right_justify_number by (simp only: append_Nil append.assoc)
  have len: "length ?u = 6" "length ?p = 10" "length ?s = 10" "length ?n = 20"
    by (simp_all only: length_padded length_justify list.size add_0)
  note cut = login_field_cuts [OF len]
  have "parse_login_accepted (?s @ ?n) = Inr (?s, requested_sequence_number cfg)"
    using parse_login_accepted_padded [OF len(3), of _ "[]"] by (simp only: append_Nil2)
  moreover have "length (?u @ ?p @ ?s @ ?n) = 46" using len by (simp only: length_append)
  ultimately show ?thesis unfolding l cut by blast
qed

end
