(* ===== verification/Soup_Session.thy ===== *)
theory Soup_Session
  imports Soup_Wire
begin

text \<open>
  The session state machine of \<^verbatim>\<open>crates/clients/soupbintcp/src/session.rs\<close> (login, sequence numbers,
  outbound buffer, heartbeat deadlines) and the zlib reader of \<^verbatim>\<open>compressed.rs\<close>.

  The stream transport is a state \<open>'t\<close> with the operations of \<open>stream_io\<close>. \<open>recv_into t n\<close> is one
  \<^verbatim>\<open>StreamRecv::recv_into\<close> into \<open>n\<close> spare bytes and returns the bytes it wrote. \<open>reserve_spare buf n\<close>
  is the spare capacity of a \<^verbatim>\<open>BytesMut\<close> that holds \<open>buf\<close> after \<^verbatim>\<open>reserve(n)\<close>. The inflator of
  \<^verbatim>\<open>flate2\<close> is a state \<open>'z\<close> with the operations of \<open>inflate_ops\<close>: \<open>decompress z input space\<close> returns
  the status, the bytes written and the new state. The flag \<open>compressed\<close> is the cargo feature of that
  name. Logging and metrics are left out.
\<close>

section \<open>Environment\<close>

datatype flate_status = StatusOk | StatusBufError | StatusStreamEnd

record 'z inflate_ops =
  total_in :: "'z \<Rightarrow> u64"
  total_out :: "'z \<Rightarrow> u64"
  decompress :: "'z \<Rightarrow> bytes \<Rightarrow> nat \<Rightarrow> (unit + flate_status) \<times> bytes \<times> 'z"

record ('t, 'z) stream_io =
  compressed :: bool
  recv_into :: "'t \<Rightarrow> nat \<Rightarrow> (transport_error + bytes) \<times> 't"
  try_send :: "'t \<Rightarrow> bytes \<Rightarrow> (transport_error + nat) \<times> 't"
  reserve_spare :: "bytes \<Rightarrow> nat \<Rightarrow> nat"
  inflate_ops :: "'z inflate_ops"

section \<open>Compressed reader\<close>

record 'z compressed_reader =
  inflator :: 'z
  cr_out :: bytes
  produced :: nat

definition compressed_reader_new :: "'z \<Rightarrow> nat \<Rightarrow> 'z compressed_reader" where
  "compressed_reader_new z inflated_capacity =
     \<lparr>inflator = z, cr_out = replicate inflated_capacity 0, produced = 0\<rparr>"

text \<open>\<^verbatim>\<open>usize\<close> is as wide as \<^verbatim>\<open>u64\<close>, so the conversion never fails.\<close>

definition moved :: "u64 \<Rightarrow> u64 \<Rightarrow> nat \<Rightarrow> nat" where
  "moved tot start limit = min (unat (tot - start)) limit"

definition write_out_at :: "nat \<Rightarrow> bytes \<Rightarrow> bytes \<Rightarrow> bytes" where
  "write_out_at k bs xs = take k xs @ bs @ drop (k + length bs) xs"

partial_function (option) feed_loop ::
  "'z inflate_ops \<Rightarrow> bytes \<Rightarrow> u64 \<Rightarrow> u64 \<Rightarrow> nat \<Rightarrow> 'z compressed_reader
     \<Rightarrow> ((soup_error + nat) \<times> 'z compressed_reader) option" where
  "feed_loop ops input start_in start_out consumed r =
     (if \<not> produced r < length (cr_out r) then Some (Inr consumed, r)
      else
        case decompress ops (inflator r) (drop consumed input) (length (cr_out r) - produced r) of
          (res, bs, z) \<Rightarrow>
            (let r1 = r\<lparr>inflator := z, cr_out := write_out_at (produced r) bs (cr_out r)\<rparr> in
             case res of
               Inl _ \<Rightarrow> Some (Inl (ProtocolViolation InflateFailed), r1)
             | Inr status \<Rightarrow>
                 (let consumed' = moved (total_in ops z) start_in (length input);
                      produced' = moved (total_out ops z) start_out (length (cr_out r));
                      r2 = r1\<lparr>produced := produced'\<rparr> in
                  if status = StatusStreamEnd then Some (Inr (length input), r2)
                  else if consumed' = consumed \<and> produced' = produced r then Some (Inr consumed', r2)
                  else feed_loop ops input start_in start_out consumed' r2)))"

definition feed ::
  "'z inflate_ops \<Rightarrow> bytes \<Rightarrow> 'z compressed_reader
     \<Rightarrow> ((soup_error + nat \<times> bytes) \<times> 'z compressed_reader) option" where
  "feed ops input r =
     (let z = inflator r in
      case feed_loop ops input (total_in ops z) (total_out ops z) 0 (r\<lparr>produced := 0\<rparr>) of
        None \<Rightarrow> None
      | Some (Inl e, r') \<Rightarrow> Some (Inl e, r')
      | Some (Inr consumed, r') \<Rightarrow>
          if consumed = 0 \<and> produced r' = 0 \<and> input \<noteq> []
          then Some (Inl (ProtocolViolation InflateNoProgress), r')
          else Some (Inr (consumed, take (produced r') (cr_out r')), r'))"

definition capped :: "'z compressed_reader \<Rightarrow> bool" where
  "capped r \<longleftrightarrow> produced r \<noteq> 0 \<and> produced r = length (cr_out r)"

section \<open>Session state\<close>

datatype client_state = Authenticating | Streaming | Closed

datatype login = LoginOk bytes u64 | LoginRefused u8

datatype soup_event =
    LoginAccepted bytes u64
  | LoginRejected u8
  | HeartbeatReceived
  | HeartbeatSent
  | HeartbeatTimeout
  | SoupEndOfSession

datatype streamed = StreamedData u64 | StreamedEvent soup_event

record soup_frame =
  sf_payload :: bytes
  sf_sequence :: u64

datatype soup_message = MData soup_frame | MEvent soup_event

record 'z session =
  s_state :: client_state
  s_cfg :: soup_config
  decode_buf :: bytes
  last_frame :: bytes
  s_out :: bytes
  assigned_id :: str
  next_expected_sequence :: u64
  last_send :: instant
  last_recv :: instant
  login_deadline :: instant
  inflate :: "'z compressed_reader"
  recv_staging :: bytes

definition session_new :: "'z \<Rightarrow> instant \<Rightarrow> soup_config \<Rightarrow> 'z session" where
  "session_new z now cfg =
     \<lparr>s_state = Authenticating, s_cfg = cfg, decode_buf = [], last_frame = [], s_out = [], assigned_id = [],
      next_expected_sequence = 0, last_send = now, last_recv = now, login_deadline = now,
      inflate = compressed_reader_new z (decode_buf_capacity cfg), recv_staging = []\<rparr>"

definition next_deadline :: "'z session \<Rightarrow> instant" where
  "next_deadline s =
     (if s_state s = Authenticating then login_deadline s
      else let recv_due = last_recv s + heartbeat_timeout (s_cfg s) in
        if s_out s = [] then min recv_due (last_send s + heartbeat_interval (s_cfg s)) else recv_due)"

definition session_frame :: "u64 \<Rightarrow> 'z session \<Rightarrow> soup_frame" where
  "session_frame sq s = \<lparr>sf_payload = last_frame s, sf_sequence = sq\<rparr>"

section \<open>Outbound\<close>

definition queue :: "packet_type \<Rightarrow> bytes \<Rightarrow> 'z session \<Rightarrow> (soup_error + unit) \<times> 'z session" where
  "queue ty payload s =
     (if 1 + length payload < 2 ^ 16 then
        (Inr (), s\<lparr>s_out := s_out s @ u16_to_be_bytes (of_nat (1 + length payload)) @ [packet_byte ty] @ payload\<rparr>)
      else (Inl (FrameTooLarge (length payload) (2 ^ 16 - 1 - 1)), s))"

definition queue_login :: "instant \<Rightarrow> 'z session \<Rightarrow> (soup_error + unit) \<times> 'z session" where
  "queue_login now s =
     (case queue PLoginRequest (login_request (s_cfg s)) s of
        (Inl e, s') \<Rightarrow> (Inl e, s')
      | (Inr _, s') \<Rightarrow> (Inr (), s'\<lparr>login_deadline := now + login_timeout (s_cfg s')\<rparr>))"

definition queue_heartbeat :: "'z session \<Rightarrow> (soup_error + unit) \<times> 'z session" where
  "queue_heartbeat s = queue PClientHeartbeat [] s"

definition close_logout :: "'z session \<Rightarrow> 'z session" where
  "close_logout s = s\<lparr>s_state := Closed\<rparr>"

definition login_timed_out :: "'z session \<Rightarrow> soup_error \<times> 'z session" where
  "login_timed_out s = (LoginTimeout (login_timeout (s_cfg s)), s\<lparr>s_state := Closed, s_out := []\<rparr>)"

definition sent_all :: "instant \<Rightarrow> 'z session \<Rightarrow> 'z session" where
  "sent_all now s = s\<lparr>s_out := [], last_send := now\<rparr>"

text \<open>
  \<^verbatim>\<open>flush\<close>. \<^verbatim>\<open>Buf::advance(n)\<close> panics past the end of the buffer, which is the outer \<open>None\<close>; the loop
  ends because a write of zero bytes leaves it.
\<close>

function flush ::
  "('t, 'z) stream_io \<Rightarrow> instant \<Rightarrow> 't \<Rightarrow> 'z session \<Rightarrow> ((soup_error + unit) \<times> 't \<times> 'z session) option" where
  "flush io now t s =
     (if s_out s = [] then Some (Inr (), t, s)
      else case try_send io t (s_out s) of
        (Inl e, t') \<Rightarrow> Some (Inl (SoupTransport e), t', s)
      | (Inr n, t') \<Rightarrow>
          if n = 0 then Some (Inr (), t', s)
          else if length (s_out s) < n then None
          else let s1 = s\<lparr>s_out := drop n (s_out s)\<rparr>;
                   s2 = (if s_out s1 = [] then s1\<lparr>last_send := now\<rparr> else s1)
               in flush io now t' s2)"
  by pat_completeness auto
termination
  by (relation "measure (\<lambda>(_, _, _, s). length (s_out s))") (auto simp: Let_def)

declare flush.simps [simp del]

definition heartbeat_due :: "instant \<Rightarrow> 'z session \<Rightarrow> bool" where
  "heartbeat_due now s \<longleftrightarrow> s_out s = [] \<and> now - last_send s > heartbeat_interval (s_cfg s)"

definition heartbeat_timed_out :: "instant \<Rightarrow> 'z session \<Rightarrow> bool \<times> 'z session" where
  "heartbeat_timed_out now s =
     (if now - last_recv s \<le> heartbeat_timeout (s_cfg s) then (False, s)
      else (True, s\<lparr>s_state := Closed, s_out := []\<rparr>))"

section \<open>Inbound\<close>

definition staged :: "'z session \<Rightarrow> bool" where
  "staged s \<longleftrightarrow> recv_staging s \<noteq> [] \<or> capped (inflate s)"

definition land :: "('t, 'z) stream_io \<Rightarrow> 't \<Rightarrow> bytes \<Rightarrow> nat \<Rightarrow> (soup_error + nat) \<times> 't \<times> bytes" where
  "land io t buf capacity =
     (case recv_into io t (reserve_spare io buf capacity) of
        (Inl e, t') \<Rightarrow> (Inl (SoupTransport e), t', buf)
      | (Inr bs, t') \<Rightarrow> (Inr (length bs), t', buf @ bs))"

definition inflate_step :: "('t, 'z) stream_io \<Rightarrow> 't \<Rightarrow> 'z session \<Rightarrow> ((soup_error + bool) \<times> 't \<times> 'z session) option" where
  "inflate_step io t s =
     (case feed (inflate_ops io) (recv_staging s) (inflate s) of
        None \<Rightarrow> None
      | Some (Inl e, r) \<Rightarrow> Some (Inl e, t, s\<lparr>inflate := r\<rparr>)
      | Some (Inr (consumed, inflated), r) \<Rightarrow>
          Some (Inr True, t, s\<lparr>inflate := r, decode_buf := decode_buf s @ inflated,
                                recv_staging := drop consumed (recv_staging s)\<rparr>))"

definition ingest ::
  "('t, 'z) stream_io \<Rightarrow> instant \<Rightarrow> 't \<Rightarrow> 'z session \<Rightarrow> ((soup_error + bool) \<times> 't \<times> 'z session) option" where
  "ingest io now t s =
     (let capacity = decode_buf_capacity (s_cfg s) in
      if compressed io then
        (if \<not> staged s then
           (case land io t (recv_staging s) capacity of
              (Inl e, t', buf) \<Rightarrow> Some (Inl e, t', s\<lparr>recv_staging := buf\<rparr>)
            | (Inr n, t', buf) \<Rightarrow>
                if n = 0 then Some (Inr False, t', s\<lparr>recv_staging := buf\<rparr>)
                else inflate_step io t' (s\<lparr>recv_staging := buf, last_recv := now\<rparr>))
         else inflate_step io t s)
      else
        (case land io t (decode_buf s) capacity of
           (Inl e, t', buf) \<Rightarrow> Some (Inl e, t', s\<lparr>decode_buf := buf\<rparr>)
         | (Inr n, t', buf) \<Rightarrow>
             (let s' = s\<lparr>decode_buf := buf\<rparr> in
              Some (Inr (0 < n), t', if 0 < n then s'\<lparr>last_recv := now\<rparr> else s'))))"

definition take_packet :: "'z session \<Rightarrow> (soup_error + (packet_type \<times> bytes) option) \<times> 'z session" where
  "take_packet s =
     (let parsed =
        (case parse_packet (decode_buf s) of
           Inl e \<Rightarrow> (Inl e, s)
         | Inr None \<Rightarrow> (Inr None, s)
         | Inr (Some (frame, consumed)) \<Rightarrow>
             (let packet = take consumed (decode_buf s);
                  payload_len = length (pf_payload frame) in
              (Inr (Some (pf_ty frame, drop (consumed - payload_len) packet)),
               s\<lparr>decode_buf := drop consumed (decode_buf s)\<rparr>)))
      in case split_first_chunk 2 (decode_buf s) of
           None \<Rightarrow> parsed
         | Some (prefix, _) \<Rightarrow>
             (let total = 2 + unat (u16_from_be_bytes prefix) in
              if total > max_frame_size (s_cfg s)
              then (Inl (FrameTooLarge total (max_frame_size (s_cfg s))), s)
              else parsed))"

lemma take_packet_shrinks:
  "take_packet s = (Inr (Some p), s') \<Longrightarrow> length (decode_buf s') < length (decode_buf s)"
  using parse_packet_consumed [of "decode_buf s"]
  by (fastforce simp: take_packet_def Let_def split: sum.split_asm option.split_asm prod.split_asm if_split_asm)

function dispatch_login :: "instant \<Rightarrow> 'z session \<Rightarrow> (soup_error + login option) \<times> 'z session" where
  "dispatch_login now s =
     (case take_packet s of
        (Inl e, s') \<Rightarrow> (Inl e, s')
      | (Inr None, s') \<Rightarrow> (Inr None, s')
      | (Inr (Some (ty, bs)), s') \<Rightarrow>
          (case ty of
             PLoginAccepted \<Rightarrow>
               (case parse_login_accepted bs of
                  Inl e \<Rightarrow> (Inl e, s')
                | Inr (sess, sq) \<Rightarrow>
                    (case parse_ascii_field sess of
                       Inl e \<Rightarrow> (Inl e, s')
                     | Inr name \<Rightarrow>
                         (Inr (Some (LoginOk sess sq)),
                          s'\<lparr>assigned_id := name, next_expected_sequence := sq, last_recv := now,
                             s_state := Streaming\<rparr>)))
           | PLoginRejected \<Rightarrow>
               (case bs of
                  [] \<Rightarrow> (Inl (ProtocolViolation LoginRejectedNoReason), s')
                | reason # _ \<Rightarrow> (Inr (Some (LoginRefused reason)), s'\<lparr>s_state := Closed\<rparr>))
           | PDebug \<Rightarrow> dispatch_login now s'
           | PServerHeartbeat \<Rightarrow> dispatch_login now s'
           | other \<Rightarrow> (Inl (ProtocolViolation (UnexpectedDuringLogin other)), s')))"
  by pat_completeness auto
termination
  by (relation "measure (\<lambda>(_, s). length (decode_buf s))") (auto dest: take_packet_shrinks [OF sym])

declare dispatch_login.simps [simp del]

function dispatch_stream :: "'z session \<Rightarrow> (soup_error + streamed option) \<times> 'z session" where
  "dispatch_stream s =
     (case take_packet s of
        (Inl e, s') \<Rightarrow> (Inl e, s')
      | (Inr None, s') \<Rightarrow> (Inr None, s')
      | (Inr (Some (ty, bs)), s') \<Rightarrow>
          (case ty of
             PSequencedData \<Rightarrow>
               (let sq = next_expected_sequence s' in
                (Inr (Some (StreamedData sq)), s'\<lparr>next_expected_sequence := sq + 1, last_frame := bs\<rparr>))
           | PServerHeartbeat \<Rightarrow> (Inr (Some (StreamedEvent HeartbeatReceived)), s')
           | PEndOfSession \<Rightarrow>
               (Inr (Some (StreamedEvent SoupEndOfSession)), s'\<lparr>s_state := Closed, s_out := []\<rparr>)
           | PDebug \<Rightarrow> dispatch_stream s'
           | other \<Rightarrow> (Inl (ProtocolViolation (UnexpectedInStreaming other)), s')))"
  by pat_completeness auto
termination
  by (relation "measure (\<lambda>s. length (decode_buf s))") (auto dest: take_packet_shrinks [OF sym])

declare dispatch_stream.simps [simp del]

end
