(* ===== verification/Soup_Client.thy ===== *)
theory Soup_Client
  imports Soup_Session
begin

text \<open>
  The two drivers of the SoupBinTCP session: the synchronous one at the end of \<^verbatim>\<open>session.rs\<close>
  (\<^verbatim>\<open>start\<close>, \<^verbatim>\<open>poll\<close>, \<^verbatim>\<open>queue_unsequenced\<close>, \<^verbatim>\<open>queue_logout\<close>) and the asynchronous one of \<^verbatim>\<open>client.rs\<close>
  (\<^verbatim>\<open>connect\<close>, \<^verbatim>\<open>recv\<close>, \<^verbatim>\<open>recv_managed\<close>, \<^verbatim>\<open>send_unsequenced\<close>, \<^verbatim>\<open>logout\<close>, \<^verbatim>\<open>tick_heartbeat\<close>).

  A call returns \<open>Some (result, client)\<close>; \<open>None\<close> is a call that panics or never returns. The
  asynchronous driver also threads a world \<open>'w\<close> that the clock and the readiness future read. One
  \<open>ready_poll\<close> is one poll of that future, \<open>None\<close> while pending; awaiting it is polling it until it is
  ready, and \<^verbatim>\<open>select!\<close> with \<^verbatim>\<open>biased\<close> polls it before the timer on every wake.
\<close>

record ('t, 'z) client =
  cl_transport :: 't
  cl_session :: "'z session"

definition client_new :: "'z \<Rightarrow> instant \<Rightarrow> 't \<Rightarrow> soup_config \<Rightarrow> ('t, 'z) client" where
  "client_new z now t cfg = \<lparr>cl_transport = t, cl_session = session_new z now cfg\<rparr>"

type_synonym ('t, 'z, 'o) call = "((soup_error + 'o) \<times> ('t, 'z) client) option"

text \<open>Session operations on the client that owns the session.\<close>

definition on_session :: "('z session \<Rightarrow> 'r \<times> 'z session) \<Rightarrow> ('t, 'z) client \<Rightarrow> 'r \<times> ('t, 'z) client" where
  "on_session f c = (case f (cl_session c) of (r, s) \<Rightarrow> (r, c\<lparr>cl_session := s\<rparr>))"

definition on_stream ::
  "('t \<Rightarrow> 'z session \<Rightarrow> ('r \<times> 't \<times> 'z session) option) \<Rightarrow> ('t, 'z) client \<Rightarrow> ('r \<times> ('t, 'z) client) option" where
  "on_stream f c =
     (case f (cl_transport c) (cl_session c) of
        None \<Rightarrow> None
      | Some (r, t, s) \<Rightarrow> Some (r, \<lparr>cl_transport = t, cl_session = s\<rparr>))"

section \<open>Synchronous driver\<close>

definition start :: "('t, 'z) stream_io \<Rightarrow> 'z \<Rightarrow> instant \<Rightarrow> instant \<Rightarrow> 't \<Rightarrow> soup_config \<Rightarrow> (soup_error + ('t, 'z) client) option" where
  "start io z created now t cfg =
     (case on_session (queue_login now) (client_new z created t cfg) of
        (Inl e, _) \<Rightarrow> Some (Inl e)
      | (Inr _, c) \<Rightarrow>
          (case on_stream (flush io now) c of
             None \<Rightarrow> None
           | Some (Inl e, _) \<Rightarrow> Some (Inl e)
           | Some (Inr _, c') \<Rightarrow> Some (Inr c')))"

text \<open>The loop of \<^verbatim>\<open>poll_login\<close>, \<^verbatim>\<open>poll_stream\<close> and \<^verbatim>\<open>recv\<close>: dispatch what is buffered, else receive,
  until the transport has nothing.\<close>

partial_function (option) pull ::
  "('c \<Rightarrow> ('e + 'o option) \<times> 'c) \<Rightarrow> ('c \<Rightarrow> (('e + bool) \<times> 'c) option) \<Rightarrow> 'c
     \<Rightarrow> (('e + 'o option) \<times> 'c) option" where
  "pull dispatch refill c =
     (case dispatch c of
        (Inl e, c') \<Rightarrow> Some (Inl e, c')
      | (Inr (Some x), c') \<Rightarrow> Some (Inr (Some x), c')
      | (Inr None, c') \<Rightarrow>
          (case refill c' of
             None \<Rightarrow> None
           | Some (Inl e, c'') \<Rightarrow> Some (Inl e, c'')
           | Some (Inr more_read, c'') \<Rightarrow>
               if more_read then pull dispatch refill c'' else Some (Inr None, c'')))"

definition login_message :: "login \<Rightarrow> soup_message" where
  "login_message l = (case l of LoginOk sess sq \<Rightarrow> MEvent (LoginAccepted sess sq)
                              | LoginRefused reason \<Rightarrow> MEvent (LoginRejected reason))"

definition poll_login :: "('t, 'z) stream_io \<Rightarrow> instant \<Rightarrow> ('t, 'z) client \<Rightarrow> ('t, 'z, soup_message option) call" where
  "poll_login io now c =
     (case pull (on_session (dispatch_login now)) (on_stream (ingest io now)) c of
        None \<Rightarrow> None
      | Some (Inl e, c') \<Rightarrow> Some (Inl e, c')
      | Some (Inr (Some l), c') \<Rightarrow> Some (Inr (Some (login_message l)), c')
      | Some (Inr None, c') \<Rightarrow>
          if now \<ge> login_deadline (cl_session c')
          then (case on_session login_timed_out c' of (e, c'') \<Rightarrow> Some (Inl e, c''))
          else Some (Inr None, c'))"

definition streamed_message :: "streamed \<Rightarrow> ('t, 'z) client \<Rightarrow> soup_message" where
  "streamed_message x c =
     (case x of StreamedData sq \<Rightarrow> MData (session_frame sq (cl_session c)) | StreamedEvent ev \<Rightarrow> MEvent ev)"

definition poll_stream :: "('t, 'z) stream_io \<Rightarrow> instant \<Rightarrow> ('t, 'z) client \<Rightarrow> ('t, 'z, soup_message option) call" where
  "poll_stream io now c =
     (if heartbeat_due now (cl_session c) then
        (case on_session queue_heartbeat c of
           (Inl e, c') \<Rightarrow> Some (Inl e, c')
         | (Inr _, c') \<Rightarrow>
             (case on_stream (flush io now) c' of
                None \<Rightarrow> None
              | Some (Inl e, c'') \<Rightarrow> Some (Inl e, c'')
              | Some (Inr _, c'') \<Rightarrow> Some (Inr (Some (MEvent HeartbeatSent)), c'')))
      else
        (case pull (on_session dispatch_stream) (on_stream (ingest io now)) c of
           None \<Rightarrow> None
         | Some (Inl e, c') \<Rightarrow> Some (Inl e, c')
         | Some (Inr (Some x), c') \<Rightarrow> Some (Inr (Some (streamed_message x c')), c')
         | Some (Inr None, c') \<Rightarrow>
             (case on_session (heartbeat_timed_out now) c' of
                (True, c'') \<Rightarrow> Some (Inr (Some (MEvent HeartbeatTimeout)), c'')
              | (False, c'') \<Rightarrow> Some (Inr None, c''))))"

definition soup_poll :: "('t, 'z) stream_io \<Rightarrow> instant \<Rightarrow> ('t, 'z) client \<Rightarrow> ('t, 'z, soup_message option) call" where
  "soup_poll io now c =
     (case on_stream (flush io now) c of
        None \<Rightarrow> None
      | Some (Inl e, c') \<Rightarrow> Some (Inl e, c')
      | Some (Inr _, c') \<Rightarrow>
          (case s_state (cl_session c') of
             Closed \<Rightarrow> if s_out (cl_session c') = [] then Some (Inl SessionEnded, c') else Some (Inr None, c')
           | Authenticating \<Rightarrow> poll_login io now c'
           | Streaming \<Rightarrow> poll_stream io now c'))"

definition queue_unsequenced :: "bytes \<Rightarrow> ('t, 'z) client \<Rightarrow> (soup_error + unit) \<times> ('t, 'z) client" where
  "queue_unsequenced payload c =
     (if s_state (cl_session c) = Closed then (Inl SessionEnded, c)
      else on_session (queue PUnsequencedData payload) c)"

definition queue_logout :: "('t, 'z) client \<Rightarrow> (soup_error + unit) \<times> ('t, 'z) client" where
  "queue_logout c =
     (if s_state (cl_session c) = Closed then (Inl SessionEnded, c)
      else case on_session (queue PLogoutRequest []) c of
        (Inl e, c') \<Rightarrow> (Inl e, c')
      | (Inr _, c') \<Rightarrow> (Inr (), c'\<lparr>cl_session := close_logout (cl_session c')\<rparr>))"

section \<open>Asynchronous driver\<close>

record ('t, 'z, 'w) async_io = "('t, 'z) stream_io" +
  send_all :: "'t \<Rightarrow> bytes \<Rightarrow> (transport_error + unit) \<times> 't"
  clock :: "'w \<Rightarrow> instant \<times> 'w"
  ready_poll :: "'t \<Rightarrow> 'w \<Rightarrow> (transport_error + unit) option \<times> 't \<times> 'w"

type_synonym ('t, 'z, 'w, 'o) acall = "((soup_error + 'o) \<times> ('t, 'z) client \<times> 'w) option"

definition stream_of :: "('t, 'z, 'w) async_io \<Rightarrow> ('t, 'z) stream_io" where
  "stream_of io = stream_io.truncate io"

definition ensure_open :: "('t, 'z) client \<Rightarrow> soup_error + unit" where
  "ensure_open c = (if s_state (cl_session c) = Closed then Inl SessionEnded else Inr ())"

definition write_out :: "('t, 'z, 'w) async_io \<Rightarrow> ('t, 'z) client \<Rightarrow> 'w \<Rightarrow> (soup_error + unit) \<times> ('t, 'z) client \<times> 'w" where
  "write_out io c w =
     (case send_all io (cl_transport c) (s_out (cl_session c)) of
        (Inl e, t) \<Rightarrow> (Inl (SoupTransport e), c\<lparr>cl_transport := t\<rparr>, w)
      | (Inr _, t) \<Rightarrow>
          (case clock io w of (now, w') \<Rightarrow>
             (Inr (), \<lparr>cl_transport = t, cl_session = sent_all now (cl_session c)\<rparr>, w')))"

partial_function (option) await_ready ::
  "('t, 'z, 'w) async_io \<Rightarrow> 't \<Rightarrow> 'w \<Rightarrow> ((transport_error + unit) \<times> 't \<times> 'w) option" where
  "await_ready io t w =
     (case ready_poll io t w of
        (Some r, t', w') \<Rightarrow> Some (r, t', w')
      | (None, t', w') \<Rightarrow> await_ready io t' w')"

text \<open>Poll readiness; on pending, give up once the clock passed \<open>deadline\<close>, else poll again.\<close>

partial_function (option) ready_until ::
  "('t, 'z, 'w) async_io \<Rightarrow> instant \<Rightarrow> 't \<Rightarrow> 'w \<Rightarrow> ((transport_error + unit) option \<times> 't \<times> 'w) option" where
  "ready_until io deadline t w =
     (case ready_poll io t w of
        (Some r, t', w') \<Rightarrow> Some (Some r, t', w')
      | (None, t', w') \<Rightarrow>
          (case clock io w' of (now, w'') \<Rightarrow>
             if now \<ge> deadline then Some (None, t', w'') else ready_until io deadline t' w''))"

definition ingest_now :: "('t, 'z, 'w) async_io \<Rightarrow> ('t, 'z) client \<Rightarrow> 'w \<Rightarrow> ('t, 'z, 'w, unit) acall" where
  "ingest_now io c w =
     (case clock io w of (now, w') \<Rightarrow>
        (case on_stream (ingest (stream_of io) now) c of
           None \<Rightarrow> None
         | Some (Inl e, c') \<Rightarrow> Some (Inl e, c', w')
         | Some (Inr _, c') \<Rightarrow> Some (Inr (), c', w')))"

definition await_more_bytes :: "('t, 'z, 'w) async_io \<Rightarrow> ('t, 'z) client \<Rightarrow> 'w \<Rightarrow> ('t, 'z, 'w, unit) acall" where
  "await_more_bytes io c w =
     (if compressed io \<and> staged (cl_session c) then ingest_now io c w
      else case await_ready io (cl_transport c) w of
        None \<Rightarrow> None
      | Some (Inl e, t, w') \<Rightarrow> Some (Inl (SoupTransport e), c\<lparr>cl_transport := t\<rparr>, w')
      | Some (Inr _, t, w') \<Rightarrow> ingest_now io (c\<lparr>cl_transport := t\<rparr>) w')"

definition await_more_bytes_with_deadline ::
  "('t, 'z, 'w) async_io \<Rightarrow> instant \<Rightarrow> ('t, 'z) client \<Rightarrow> 'w \<Rightarrow> ('t, 'z, 'w, unit) acall" where
  "await_more_bytes_with_deadline io deadline c w =
     (if compressed io \<and> staged (cl_session c) then ingest_now io c w
      else case ready_until io deadline (cl_transport c) w of
        None \<Rightarrow> None
      | Some (Some (Inl e), t, w') \<Rightarrow> Some (Inl (SoupTransport e), c\<lparr>cl_transport := t\<rparr>, w')
      | Some (Some (Inr _), t, w') \<Rightarrow> ingest_now io (c\<lparr>cl_transport := t\<rparr>) w'
      | Some (None, t, w') \<Rightarrow>
          (case on_session login_timed_out (c\<lparr>cl_transport := t\<rparr>) of (e, c') \<Rightarrow> Some (Inl e, c', w')))"

partial_function (option) login_loop ::
  "('t, 'z, 'w) async_io \<Rightarrow> instant \<Rightarrow> ('t, 'z) client \<Rightarrow> 'w \<Rightarrow> ('t, 'z, 'w, unit) acall" where
  "login_loop io deadline c w =
     (case clock io w of (now, w1) \<Rightarrow>
        (case on_session (dispatch_login now) c of
           (Inl e, c1) \<Rightarrow> Some (Inl e, c1, w1)
         | (Inr (Some (LoginOk _ _)), c1) \<Rightarrow> Some (Inr (), c1, w1)
         | (Inr (Some (LoginRefused reason)), c1) \<Rightarrow> Some (Inl (LoginRejectedError [unat reason]), c1, w1)
         | (Inr None, c1) \<Rightarrow>
             (case clock io w1 of (now', w2) \<Rightarrow>
                if now' \<ge> deadline
                then (case on_session login_timed_out c1 of (e, c2) \<Rightarrow> Some (Inl e, c2, w2))
                else case await_more_bytes_with_deadline io deadline c1 w2 of
                  None \<Rightarrow> None
                | Some (Inl e, c2, w3) \<Rightarrow> Some (Inl e, c2, w3)
                | Some (Inr _, c2, w3) \<Rightarrow> login_loop io deadline c2 w3)))"

definition connect :: "('t, 'z, 'w) async_io \<Rightarrow> 'z \<Rightarrow> 't \<Rightarrow> soup_config \<Rightarrow> 'w \<Rightarrow> ((soup_error + ('t, 'z) client) \<times> 'w) option" where
  "connect io z t cfg w =
     (case clock io w of (created, w1) \<Rightarrow> case clock io w1 of (now, w2) \<Rightarrow>
        (case on_session (queue_login now) (client_new z created t cfg) of
           (Inl e, _) \<Rightarrow> Some (Inl e, w2)
         | (Inr _, c) \<Rightarrow>
             (case write_out io c w2 of
                (Inl e, _, w3) \<Rightarrow> Some (Inl e, w3)
              | (Inr _, c1, w3) \<Rightarrow>
                  (case login_loop io (login_deadline (cl_session c1)) c1 w3 of
                     None \<Rightarrow> None
                   | Some (Inl e, _, w4) \<Rightarrow> Some (Inl e, w4)
                   | Some (Inr _, c2, w4) \<Rightarrow> Some (Inr c2, w4)))))"

text \<open>\<^verbatim>\<open>recv\<close> never leaves its loop for want of bytes: its refill awaits and then reports more.\<close>

definition await_refill :: "('t, 'z, 'w) async_io \<Rightarrow> ('t, 'z) client \<times> 'w \<Rightarrow> ((soup_error + bool) \<times> ('t, 'z) client \<times> 'w) option" where
  "await_refill io cw =
     (case await_more_bytes io (fst cw) (snd cw) of
        None \<Rightarrow> None
      | Some (Inl e, c', w') \<Rightarrow> Some (Inl e, c', w')
      | Some (Inr _, c', w') \<Rightarrow> Some (Inr True, c', w'))"

definition on_client :: "('z session \<Rightarrow> 'r \<times> 'z session) \<Rightarrow> ('t, 'z) client \<times> 'w \<Rightarrow> 'r \<times> ('t, 'z) client \<times> 'w" where
  "on_client f cw = (case on_session f (fst cw) of (r, c') \<Rightarrow> (r, c', snd cw))"

definition soup_recv :: "('t, 'z, 'w) async_io \<Rightarrow> ('t, 'z) client \<Rightarrow> 'w \<Rightarrow> ('t, 'z, 'w, soup_message) acall" where
  "soup_recv io c w =
     (case ensure_open c of
        Inl e \<Rightarrow> Some (Inl e, c, w)
      | Inr _ \<Rightarrow>
          (case pull (on_client dispatch_stream) (await_refill io) (c, w) of
             None \<Rightarrow> None
           | Some (Inl e, c', w') \<Rightarrow> Some (Inl e, c', w')
           | Some (Inr (Some x), c', w') \<Rightarrow> Some (Inr (streamed_message x c'), c', w')
           | Some (Inr None, c', w') \<Rightarrow> None))"

definition tick_heartbeat :: "('t, 'z, 'w) async_io \<Rightarrow> ('t, 'z) client \<Rightarrow> 'w \<Rightarrow> (soup_error + soup_event option) \<times> ('t, 'z) client \<times> 'w" where
  "tick_heartbeat io c w =
     (case ensure_open c of
        Inl e \<Rightarrow> (Inl e, c, w)
      | Inr _ \<Rightarrow>
          (case clock io w of (now, w1) \<Rightarrow>
             (case on_session (heartbeat_timed_out now) c of
                (True, c1) \<Rightarrow> (Inr (Some HeartbeatTimeout), c1, w1)
              | (False, c1) \<Rightarrow>
                  if heartbeat_due now (cl_session c1) then
                    (case on_session queue_heartbeat c1 of
                       (Inl e, c2) \<Rightarrow> (Inl e, c2, w1)
                     | (Inr _, c2) \<Rightarrow>
                         (case write_out io c2 w1 of
                            (Inl e, c3, w2) \<Rightarrow> (Inl e, c3, w2)
                          | (Inr _, c3, w2) \<Rightarrow> (Inr (Some HeartbeatSent), c3, w2)))
                  else (Inr None, c1, w1))))"

text \<open>The two arms of the \<^verbatim>\<open>select!\<close>: more bytes (the outer \<open>Some\<close>), or the deadline first (\<open>None\<close>).\<close>

definition select_bytes ::
  "('t, 'z, 'w) async_io \<Rightarrow> instant \<Rightarrow> ('t, 'z) client \<Rightarrow> 'w \<Rightarrow> ((soup_error + unit) option \<times> ('t, 'z) client \<times> 'w) option" where
  "select_bytes io deadline c w =
     (if compressed io \<and> staged (cl_session c) then map_option (\<lambda>(r, c', w'). (Some r, c', w')) (ingest_now io c w)
      else case ready_until io deadline (cl_transport c) w of
        None \<Rightarrow> None
      | Some (Some (Inl e), t, w') \<Rightarrow> Some (Some (Inl (SoupTransport e)), c\<lparr>cl_transport := t\<rparr>, w')
      | Some (Some (Inr _), t, w') \<Rightarrow>
          map_option (\<lambda>(r, c', w'). (Some r, c', w')) (ingest_now io (c\<lparr>cl_transport := t\<rparr>) w')
      | Some (None, t, w') \<Rightarrow> Some (None, c\<lparr>cl_transport := t\<rparr>, w'))"

partial_function (option) recv_managed_loop ::
  "('t, 'z, 'w) async_io \<Rightarrow> ('t, 'z) client \<Rightarrow> 'w \<Rightarrow> ('t, 'z, 'w, soup_message) acall" where
  "recv_managed_loop io c w =
     (case on_session dispatch_stream c of
        (Inl e, c1) \<Rightarrow> Some (Inl e, c1, w)
      | (Inr (Some x), c1) \<Rightarrow> Some (Inr (streamed_message x c1), c1, w)
      | (Inr None, c1) \<Rightarrow>
          (case select_bytes io (next_deadline (cl_session c1)) c1 w of
             None \<Rightarrow> None
           | Some (Some (Inl e), c2, w2) \<Rightarrow> Some (Inl e, c2, w2)
           | Some (Some (Inr _), c2, w2) \<Rightarrow> recv_managed_loop io c2 w2
           | Some (None, c2, w2) \<Rightarrow>
               (case tick_heartbeat io c2 w2 of
                  (Inl e, c3, w3) \<Rightarrow> Some (Inl e, c3, w3)
                | (Inr ev, c3, w3) \<Rightarrow>
                    if ev = Some HeartbeatTimeout then Some (Inr (MEvent HeartbeatTimeout), c3, w3)
                    else recv_managed_loop io c3 w3)))"

definition recv_managed :: "('t, 'z, 'w) async_io \<Rightarrow> ('t, 'z) client \<Rightarrow> 'w \<Rightarrow> ('t, 'z, 'w, soup_message) acall" where
  "recv_managed io c w =
     (case ensure_open c of Inl e \<Rightarrow> Some (Inl e, c, w) | Inr _ \<Rightarrow> recv_managed_loop io c w)"

definition send_unsequenced :: "('t, 'z, 'w) async_io \<Rightarrow> bytes \<Rightarrow> ('t, 'z) client \<Rightarrow> 'w \<Rightarrow> (soup_error + unit) \<times> ('t, 'z) client \<times> 'w" where
  "send_unsequenced io payload c w =
     (case ensure_open c of
        Inl e \<Rightarrow> (Inl e, c, w)
      | Inr _ \<Rightarrow>
          (case on_session (queue PUnsequencedData payload) c of
             (Inl e, c') \<Rightarrow> (Inl e, c', w)
           | (Inr _, c') \<Rightarrow> write_out io c' w))"

definition logout :: "('t, 'z, 'w) async_io \<Rightarrow> ('t, 'z) client \<Rightarrow> 'w \<Rightarrow> (soup_error + unit) \<times> ('t, 'z) client \<times> 'w" where
  "logout io c w =
     (if s_state (cl_session c) = Closed then (Inr (), c, w)
      else case on_session (queue PLogoutRequest []) c of
        (Inl e, c') \<Rightarrow> (Inl e, c', w)
      | (Inr _, c') \<Rightarrow>
          (case write_out io c' w of
             (Inl e, c'', w') \<Rightarrow> (Inl e, c'', w')
           | (Inr _, c'', w') \<Rightarrow> (Inr (), c''\<lparr>cl_session := close_logout (cl_session c'')\<rparr>, w')))"

end
