(* ===== verification/Soup_Framing.thy ===== *)
theory Soup_Framing
  imports Soup_Client
begin

text \<open>
  Facts about the inbound framing: \<open>take_packet\<close> as a function of the buffered bytes, its stability
  under bytes that arrive later, and the packet sequence of a byte stream however it is cut into reads.
\<close>

section \<open>One packet\<close>

text \<open>What \<open>take_packet\<close> does to the buffer, apart from the session around it.\<close>

definition next_packet :: "nat \<Rightarrow> bytes \<Rightarrow> soup_error + ((packet_type \<times> bytes) \<times> bytes) option" where
  "next_packet limit buf =
     (if 2 \<le> length buf \<and> limit < 2 + unat (u16_from_be_bytes (take 2 buf))
      then Inl (FrameTooLarge (2 + unat (u16_from_be_bytes (take 2 buf))) limit)
      else case parse_packet buf of
        Inl e \<Rightarrow> Inl e
      | Inr None \<Rightarrow> Inr None
      | Inr (Some (f, n)) \<Rightarrow> Inr (Some ((pf_ty f, pf_payload f), drop n buf)))"

lemma take_packet_eq:
  "take_packet s =
     (case next_packet (max_frame_size (s_cfg s)) (decode_buf s) of
        Inl e \<Rightarrow> (Inl e, s)
      | Inr None \<Rightarrow> (Inr None, s)
      | Inr (Some (p, rest)) \<Rightarrow> (Inr (Some p), s\<lparr>decode_buf := rest\<rparr>))"
proof (cases "parse_packet (decode_buf s)")
  case (Inl e)
  then show ?thesis by (simp add: take_packet_def next_packet_def split_first_chunk_def Let_def)
next
  case (Inr o')
  show ?thesis
  proof (cases o')
    case None
    with Inr show ?thesis by (simp add: take_packet_def next_packet_def split_first_chunk_def Let_def)
  next
    case (Some fn)
    obtain f n where fn: "fn = (f, n)" by (rule prod.exhaust)
    have p: "parse_packet (decode_buf s) = Inr (Some (f, n))" using Inr Some fn by simp
    note c = parse_packet_consumed [OF p]
    have "drop (n - length (pf_payload f)) (take n (decode_buf s)) = pf_payload f"
    proof -
      have "drop 3 (take n (decode_buf s)) = drop 3 (packet_bytes (pf_ty f) (pf_payload f))"
        by (simp only: parse_packet_front [OF p])
      also have "\<dots> = pf_payload f" by (simp add: packet_bytes_def numeral_3_eq_3 drop_Cons')
      finally have "drop 3 (take n (decode_buf s)) = pf_payload f" .
      moreover have "n - length (pf_payload f) = 3" using c by simp
      ultimately show ?thesis by simp
    qed
    then show ?thesis using p by (simp add: take_packet_def next_packet_def split_first_chunk_def Let_def)
  qed
qed

lemma next_packet_shrinks: "next_packet limit buf = Inr (Some (p, rest)) \<Longrightarrow> length rest < length buf"
  using parse_packet_consumed [of buf]
  by (fastforce simp: next_packet_def split: if_split_asm sum.split_asm option.split_asm prod.split_asm)

lemma next_packet_error_append:
  assumes "next_packet limit buf = Inl e"
  shows "next_packet limit (buf @ m) = Inl e"
proof (cases "2 \<le> length buf \<and> limit < 2 + unat (u16_from_be_bytes (take 2 buf))")
  case True
  then show ?thesis using assms by (auto simp: next_packet_def)
next
  case False
  then have p: "parse_packet buf = Inl e"
    using assms by (auto simp: next_packet_def split: sum.split_asm option.split_asm)
  then have "parse_packet (buf @ m) = Inl e" using parse_packet_append [of buf m] by simp
  moreover have "2 \<le> length buf" using p by (auto simp: parse_packet_def split: if_split_asm)
  ultimately show ?thesis using False by (simp add: next_packet_def)
qed

lemma next_packet_found_append:
  assumes "next_packet limit buf = Inr (Some (p, rest))"
  shows "next_packet limit (buf @ m) = Inr (Some (p, rest @ m))"
proof -
  obtain f n where p: "parse_packet buf = Inr (Some (f, n))" "p = (pf_ty f, pf_payload f)" "rest = drop n buf"
    and g: "\<not> (2 \<le> length buf \<and> limit < 2 + unat (u16_from_be_bytes (take 2 buf)))"
    using assms by (auto simp: next_packet_def split: if_split_asm sum.split_asm option.split_asm)
  have "parse_packet (buf @ m) = Inr (Some (f, n))" using parse_packet_append [of buf m] p(1) by simp
  moreover have "3 \<le> n \<and> n \<le> length buf" using parse_packet_consumed [OF p(1)] by simp
  ultimately show ?thesis using p(2,3) g by (simp add: next_packet_def)
qed

lemma next_packet_bytes:
  assumes "length payload \<le> 65534" "length payload + 3 \<le> limit"
  shows "next_packet limit (packet_bytes ty payload @ rest) = Inr (Some ((ty, payload), rest))"
proof -
  have n: "unat (of_nat (1 + length payload) :: u16) = 1 + length payload"
    using assms(1) by (simp add: unat_of_nat del: of_nat_add of_nat_Suc)
  have t: "take 2 (packet_bytes ty payload @ rest) = u16_to_be_bytes (of_nat (1 + length payload))"
    by (simp add: packet_bytes_def)
  have l: "length (packet_bytes ty payload) = length payload + 3" by (simp add: packet_bytes_def)
  show ?thesis
    unfolding next_packet_def t u16_be_roundtrip n parse_packet_bytes [OF assms(1)]
    using assms(2) l by simp
qed

section \<open>Bytes that arrive later\<close>

lemma take_packet_cases:
  obtains (error) e where "next_packet (max_frame_size (s_cfg s)) (decode_buf s) = Inl e" "take_packet s = (Inl e, s)"
  | (partial) "next_packet (max_frame_size (s_cfg s)) (decode_buf s) = Inr None" "take_packet s = (Inr None, s)"
  | (found) ty bs rest where "next_packet (max_frame_size (s_cfg s)) (decode_buf s) = Inr (Some ((ty, bs), rest))"
      "take_packet s = (Inr (Some (ty, bs)), s\<lparr>decode_buf := rest\<rparr>)"
  using take_packet_eq [of s]
  by (auto split: sum.split_asm option.split_asm)

text \<open>\<open>landed m s\<close>: the session with \<open>m\<close> landed behind what it has buffered.\<close>

definition landed :: "bytes \<Rightarrow> 'z session \<Rightarrow> 'z session" where
  "landed m s = s\<lparr>decode_buf := decode_buf s @ m\<rparr>"

lemma landed_simps [simp]:
  "decode_buf (landed m s) = decode_buf s @ m" "s_cfg (landed m s) = s_cfg s" "s_state (landed m s) = s_state s"
  "next_expected_sequence (landed m s) = next_expected_sequence s"
  "landed m (s\<lparr>decode_buf := b\<rparr>) = s\<lparr>decode_buf := b @ m\<rparr>" "landed [] s = s"
  "landed m (landed n s) = landed (n @ m) s"
  by (simp_all add: landed_def)

lemma landed_update [simp]:
  "landed m (s\<lparr>s_state := st\<rparr>) = (landed m s)\<lparr>s_state := st\<rparr>" "landed m (s\<lparr>s_out := bs\<rparr>) = (landed m s)\<lparr>s_out := bs\<rparr>"
  "landed m (s\<lparr>next_expected_sequence := n\<rparr>) = (landed m s)\<lparr>next_expected_sequence := n\<rparr>"
  "landed m (s\<lparr>last_frame := bs\<rparr>) = (landed m s)\<lparr>last_frame := bs\<rparr>"
  "landed m (s\<lparr>assigned_id := a\<rparr>) = (landed m s)\<lparr>assigned_id := a\<rparr>"
  "landed m (s\<lparr>last_recv := i\<rparr>) = (landed m s)\<lparr>last_recv := i\<rparr>"
  by (simp_all add: landed_def)

lemma take_packet_landed:
  "take_packet s = (r, s') \<Longrightarrow> r \<noteq> Inr None \<Longrightarrow> take_packet (landed m s) = (r, landed m s')"
proof (cases s rule: take_packet_cases)
  case (error e)
  assume "take_packet s = (r, s')" "r \<noteq> Inr None"
  with error(2) have rs: "r = Inl e" "s' = s" by simp_all
  show ?thesis unfolding rs
    by (subst take_packet_eq) (simp add: next_packet_error_append [OF error(1)])
next
  case partial
  assume "take_packet s = (r, s')" "r \<noteq> Inr None"
  with partial(2) show ?thesis by simp
next
  case (found ty bs rest)
  assume "take_packet s = (r, s')" "r \<noteq> Inr None"
  with found(2) have rs: "r = Inr (Some (ty, bs))" "s' = s\<lparr>decode_buf := rest\<rparr>" by simp_all
  show ?thesis unfolding rs
    by (subst take_packet_eq) (simp add: next_packet_found_append [OF found(1)], simp add: landed_def)
qed

section \<open>The packets of a stream\<close>

text \<open>All whole packets buffered, then the error that stops them or nothing, and the session left.\<close>

function take_all :: "'z session \<Rightarrow> (packet_type \<times> bytes) list \<times> soup_error option \<times> 'z session" where
  "take_all s =
     (case take_packet s of
        (Inl e, s') \<Rightarrow> ([], Some e, s')
      | (Inr None, s') \<Rightarrow> ([], None, s')
      | (Inr (Some p), s') \<Rightarrow> (case take_all s' of (ps, e, s'') \<Rightarrow> (p # ps, e, s'')))"
  by pat_completeness auto
termination
  by (relation "measure (\<lambda>s. length (decode_buf s))") (auto dest: take_packet_shrinks [OF sym])

declare take_all.simps [simp del]

lemma take_all_next:
  "take_all s =
     (case next_packet (max_frame_size (s_cfg s)) (decode_buf s) of
        Inl e \<Rightarrow> ([], Some e, s)
      | Inr None \<Rightarrow> ([], None, s)
      | Inr (Some (p, rest)) \<Rightarrow>
          (case take_all (s\<lparr>decode_buf := rest\<rparr>) of (ps, e, s') \<Rightarrow> (p # ps, e, s')))"
  by (subst take_all.simps) (simp add: take_packet_eq split: sum.split option.split)

lemma take_all_landed:
  "take_all (landed b s) =
     (case take_all s of
        (ps, Some e, s') \<Rightarrow> (ps, Some e, landed b s')
      | (ps, None, s') \<Rightarrow> (case take_all (landed b s') of (qs, e, s'') \<Rightarrow> (ps @ qs, e, s'')))"
proof (induction s rule: take_all.induct)
  case (1 s)
  show ?case
  proof (cases s rule: take_packet_cases)
    case (error e)
    then show ?thesis using take_packet_landed [OF error(2), of b]
      by (simp add: take_all.simps [of s] take_all.simps [of "landed b s"])
  next
    case partial
    then show ?thesis by (simp add: take_all.simps [of s] split: prod.split)
  next
    case (found ty bs rest)
    note ih = 1 [OF found(2) [symmetric] refl refl]
    show ?thesis using take_packet_landed [OF found(2), of b] found(2) ih
      by (simp add: take_all.simps [of s] take_all.simps [of "landed b s"] del: landed_simps split: prod.split option.split)
  qed
qed

text \<open>
  C22. The packets a session takes do not depend on how the server's bytes are cut into reads: taking
  every whole packet after the bytes \<open>a\<close>, then again after \<open>b\<close>, gives the packets, the error and the
  session that taking them once after \<open>a @ b\<close> gives. An error found in \<open>a\<close> is found with \<open>b\<close> behind it.
\<close>

theorem framing_chunk_invariant:
  "take_all (s\<lparr>decode_buf := decode_buf s @ a @ b\<rparr>) =
     (case take_all (s\<lparr>decode_buf := decode_buf s @ a\<rparr>) of
        (ps, Some e, s') \<Rightarrow> (ps, Some e, s'\<lparr>decode_buf := decode_buf s' @ b\<rparr>)
      | (ps, None, s') \<Rightarrow>
          (case take_all (s'\<lparr>decode_buf := decode_buf s' @ b\<rparr>) of (qs, e, s'') \<Rightarrow> (ps @ qs, e, s'')))"
  using take_all_landed [of b "s\<lparr>decode_buf := decode_buf s @ a\<rparr>", unfolded landed_def]
  by simp

section \<open>Round trip\<close>

text \<open>Queue a list of packets, first one first.\<close>

fun queue_all :: "(packet_type \<times> bytes) list \<Rightarrow> 'z session \<Rightarrow> (soup_error + unit) \<times> 'z session" where
  "queue_all [] s = (Inr (), s)"
| "queue_all ((ty, payload) # ps) s =
     (case queue ty payload s of (Inl e, s') \<Rightarrow> (Inl e, s') | (Inr _, s') \<Rightarrow> queue_all ps s')"

definition stream_bytes :: "(packet_type \<times> bytes) list \<Rightarrow> bytes" where
  "stream_bytes ps = concat (map (\<lambda>(ty, payload). packet_bytes ty payload) ps)"

lemma stream_bytes_simps [simp]:
  "stream_bytes [] = []" "stream_bytes ((ty, payload) # ps) = packet_bytes ty payload @ stream_bytes ps"
  "stream_bytes (ps @ qs) = stream_bytes ps @ stream_bytes qs"
  by (simp_all add: stream_bytes_def)

lemma queue_ok:
  "queue ty payload s = (Inr (), s') \<Longrightarrow>
     length payload \<le> 65534 \<and> s' = s\<lparr>s_out := s_out s @ packet_bytes ty payload\<rparr>"
  by (auto simp: queue_def packet_bytes_def split: if_split_asm)

lemma queue_all_ok:
  "queue_all ps s = (Inr (), s') \<Longrightarrow>
     (\<forall>(ty, payload) \<in> set ps. length payload \<le> 65534) \<and> s' = s\<lparr>s_out := s_out s @ stream_bytes ps\<rparr>"
proof (induction ps arbitrary: s)
  case Nil
  then show ?case by simp
next
  case (Cons p ps)
  obtain ty payload where p: "p = (ty, payload)" by (rule prod.exhaust)
  obtain r s1 where q: "queue ty payload s = (r, s1)" by (rule prod.exhaust)
  with Cons.prems p have r: "r = Inr ()" "queue_all ps s1 = (Inr (), s')" by (cases r; simp)+
  from queue_ok [OF q [unfolded r(1)]] Cons.IH [OF r(2)] p show ?case by simp
qed

lemma take_all_stream:
  "\<forall>(ty, payload) \<in> set ps. length payload \<le> 65534 \<and> length payload + 3 \<le> max_frame_size (s_cfg s) \<Longrightarrow>
   take_all (s\<lparr>decode_buf := stream_bytes ps @ rest\<rparr>) =
     (case take_all (s\<lparr>decode_buf := rest\<rparr>) of (qs, e, s') \<Rightarrow> (ps @ qs, e, s'))"
proof (induction ps)
  case Nil
  then show ?case by (simp split: prod.split)
next
  case (Cons p ps)
  obtain ty payload where p: "p = (ty, payload)" by (rule prod.exhaust)
  have "next_packet (max_frame_size (s_cfg s)) (packet_bytes ty payload @ stream_bytes ps @ rest)
      = Inr (Some ((ty, payload), stream_bytes ps @ rest))"
    using Cons.prems p by (intro next_packet_bytes) auto
  then show ?case using Cons p
    by (simp add: take_all_next [of "s\<lparr>decode_buf := packet_bytes ty payload @ _\<rparr>"] split: prod.split)
qed

text \<open>
  C23. Round trip of the framing: packets that \<^verbatim>\<open>queue\<close> accepted on one session and whose bytes land in
  the decode buffer of another are taken off it, in order, with their types and payloads and nothing left
  over, as long as each fits the receiver's \<^verbatim>\<open>max_frame_size\<close>.
\<close>

theorem framing_roundtrip:
  assumes "queue_all ps s = (Inr (), s')" "s_out s = []"
    and "\<forall>(ty, payload) \<in> set ps. length payload + 3 \<le> max_frame_size (s_cfg r)"
  shows "take_all (r\<lparr>decode_buf := s_out s'\<rparr>) = (ps, None, r\<lparr>decode_buf := []\<rparr>)"
proof -
  note q = queue_all_ok [OF assms(1)]
  have "take_all (r\<lparr>decode_buf := []\<rparr>) = ([], None, r\<lparr>decode_buf := []\<rparr>)"
    by (simp add: take_all_next [of "r\<lparr>decode_buf := []\<rparr>"] next_packet_def parse_packet_def)
  then show ?thesis using take_all_stream [of ps r "[]"] q assms(2,3) by fastforce
qed

definition demo_session :: "unit session" where
  "demo_session = session_new () 0 soup_config_default"

theorem framing_roundtrip_witness:
  "take_all (demo_session\<lparr>decode_buf := s_out (snd (queue_all [(PUnsequencedData, [1, 2]), (PLogoutRequest, [])] demo_session))\<rparr>)
     = ([(PUnsequencedData, [1, 2]), (PLogoutRequest, [])], None, demo_session\<lparr>decode_buf := []\<rparr>)"
proof -
  let ?ps = "[(PUnsequencedData, [1, 2 :: u8]), (PLogoutRequest, [])]"
  have "fst (queue_all ?ps demo_session) = Inr ()"
    by (simp add: queue_def demo_session_def session_new_def)
  then have q: "queue_all ?ps demo_session = (Inr (), snd (queue_all ?ps demo_session))"
    by (metis prod.collapse)
  show ?thesis
    by (rule framing_roundtrip [OF q])
      (simp_all add: demo_session_def session_new_def soup_config_default_def)
qed

section \<open>Dispatch over a longer buffer\<close>

lemma dispatch_stream_landed:
  "dispatch_stream s = (r, s') \<Longrightarrow> r \<noteq> Inr None \<Longrightarrow> dispatch_stream (landed m s) = (r, landed m s')"
proof (induction s rule: dispatch_stream.induct)
  case (1 s)
  show ?case
  proof (cases s rule: take_packet_cases)
    case (error e)
    then have rs: "r = Inl e" "s' = s" using 1(2) by (simp_all add: dispatch_stream.simps [of s])
    show ?thesis unfolding rs using take_packet_landed [OF error(2), of m]
      by (simp add: dispatch_stream.simps [of "landed m s"])
  next
    case partial
    then show ?thesis using 1(2,3) by (simp add: dispatch_stream.simps [of s])
  next
    case (found ty bs rest)
    note ext = take_packet_landed [OF found(2), of m]
    show ?thesis using 1(1) [OF found(2) [symmetric] refl refl refl] 1(2,3) ext found(2)
      by (cases ty) (auto simp: dispatch_stream.simps [of s] dispatch_stream.simps [of "landed m s"] Let_def)
  qed
qed

lemma dispatch_stream_partial:
  "dispatch_stream s = (Inr None, s') \<Longrightarrow>
     dispatch_stream (landed m s) = dispatch_stream (landed m s') \<and> dispatch_stream s' = (Inr None, s')
     \<and> (\<exists>b. s' = s\<lparr>decode_buf := b\<rparr>)"
proof (induction s rule: dispatch_stream.induct)
  case (1 s)
  show ?case
  proof (cases s rule: take_packet_cases)
    case (error e)
    then show ?thesis using 1(2) by (simp add: dispatch_stream.simps [of s])
  next
    case partial
    then have "s' = s" using 1(2) by (simp add: dispatch_stream.simps [of s])
    with 1(2) show ?thesis by (auto intro: exI [of _ "decode_buf s"])
  next
    case (found ty bs rest)
    note ext = take_packet_landed [OF found(2), of m]
    have ty: "ty = PDebug" using 1(2) found(2)
      by (cases ty) (simp_all add: dispatch_stream.simps [of s] Let_def)
    then have d: "dispatch_stream (s\<lparr>decode_buf := rest\<rparr>) = (Inr None, s')"
      using 1(2) found(2) by (simp add: dispatch_stream.simps [of s])
    have "dispatch_stream (landed m s) = dispatch_stream (landed m (s\<lparr>decode_buf := rest\<rparr>))"
      using ext ty by (simp add: dispatch_stream.simps [of "landed m s"])
    with 1(1) [OF found(2) [symmetric] refl refl refl ty d] show ?thesis by auto
  qed
qed

lemma dispatch_login_landed:
  "dispatch_login now s = (r, s') \<Longrightarrow> r \<noteq> Inr None \<Longrightarrow> dispatch_login now (landed m s) = (r, landed m s')"
proof (induction now s rule: dispatch_login.induct)
  case (1 now s)
  show ?case
  proof (cases s rule: take_packet_cases)
    case (error e)
    then have rs: "r = Inl e" "s' = s" using 1(3) by (simp_all add: dispatch_login.simps [of now s])
    show ?thesis unfolding rs using take_packet_landed [OF error(2), of m]
      by (simp add: dispatch_login.simps [of now "landed m s"])
  next
    case partial
    then show ?thesis using 1(3,4) by (simp add: dispatch_login.simps [of now s])
  next
    case (found ty bs rest)
    note ext = take_packet_landed [OF found(2), of m]
    show ?thesis using 1(1,2) [OF found(2) [symmetric] refl refl refl] 1(3,4) ext found(2)
      by (cases ty) (auto simp: dispatch_login.simps [of now s] dispatch_login.simps [of now "landed m s"]
          split: sum.split_asm list.split_asm)
  qed
qed

lemma dispatch_login_partial:
  "dispatch_login now s = (Inr None, s') \<Longrightarrow>
     dispatch_login now (landed m s) = dispatch_login now (landed m s') \<and> dispatch_login now s' = (Inr None, s')
     \<and> (\<exists>b. s' = s\<lparr>decode_buf := b\<rparr>)"
proof (induction now s rule: dispatch_login.induct)
  case (1 now s)
  show ?case
  proof (cases s rule: take_packet_cases)
    case (error e)
    then show ?thesis using 1(3) by (simp add: dispatch_login.simps [of now s])
  next
    case partial
    then have "s' = s" using 1(3) by (simp add: dispatch_login.simps [of now s])
    with 1(3) show ?thesis by (auto intro: exI [of _ "decode_buf s"])
  next
    case (found ty bs rest)
    note ext = take_packet_landed [OF found(2), of m]
    have ty: "ty = PDebug \<or> ty = PServerHeartbeat" using 1(3) found(2)
      by (cases ty) (auto simp: dispatch_login.simps [of now s] split: sum.split_asm list.split_asm)
    then have d: "dispatch_login now (s\<lparr>decode_buf := rest\<rparr>) = (Inr None, s')"
      using 1(3) found(2) by (auto simp: dispatch_login.simps [of now s])
    have "dispatch_login now (landed m s) = dispatch_login now (landed m (s\<lparr>decode_buf := rest\<rparr>))"
      using ext ty by (auto simp: dispatch_login.simps [of now "landed m s"])
    with 1(1,2) [OF found(2) [symmetric] refl refl refl _ d] ty show ?thesis by auto
  qed
qed

end
