(* ===== verification/Soup_Delivery.thy ===== *)
theory Soup_Delivery
  imports Soup_Framing
begin

text \<open>
  What the two SoupBinTCP drivers deliver. \<open>stream_contract\<close> states what \<^verbatim>\<open>StreamRecv\<close> and
  \<^verbatim>\<open>StreamTrySend\<close> document, with \<open>input t\<close> the bytes the transport has still to hand out. The locale
  \<open>pulled_stream\<close> is the interface between the receive loops and the session: a dispatcher that is stable
  under bytes that arrive later, a refill that only moves bytes from the transport to the buffer. It is
  interpreted for the streaming loop of \<^verbatim>\<open>poll\<close>, for its login loop and for the asynchronous \<^verbatim>\<open>recv\<close>.
\<close>

section \<open>The stream transport\<close>

definition stream_contract :: "('t, 'z, 'm) stream_io_scheme \<Rightarrow> ('t \<Rightarrow> bytes) \<Rightarrow> bool" where
  "stream_contract io input \<longleftrightarrow>
     (\<forall>t n bs t'. recv_into io t n = (Inr bs, t') \<longrightarrow> input t = bs @ input t' \<and> length bs \<le> n)
     \<and> (\<forall>t n e t'. recv_into io t n = (Inl e, t') \<longrightarrow> input t' = input t)
     \<and> (\<forall>t buf r t'. try_send io t buf = (r, t') \<longrightarrow> input t' = input t)
     \<and> (\<forall>t buf n t'. try_send io t buf = (Inr n, t') \<longrightarrow> n \<le> length buf)"

lemma stream_contract_recv:
  "stream_contract io input \<Longrightarrow> recv_into io t n = (Inr bs, t') \<Longrightarrow> input t = bs @ input t'"
  by (auto simp: stream_contract_def)

lemma stream_contract_recv_error:
  "stream_contract io input \<Longrightarrow> recv_into io t n = (Inl e, t') \<Longrightarrow> input t' = input t"
  by (auto simp: stream_contract_def)

lemma stream_contract_send:
  "stream_contract io input \<Longrightarrow> try_send io t buf = (r, t') \<Longrightarrow> input t' = input t"
  by (auto simp: stream_contract_def)

lemma stream_contract_sent:
  "stream_contract io input \<Longrightarrow> try_send io t buf = (Inr n, t') \<Longrightarrow> n \<le> length buf"
  unfolding stream_contract_def by blast

section \<open>Dispatch loops\<close>

lemmas pull_induct = pull.raw_induct [rotated]

text \<open>The loop repeats idle dispatches and refills; only its last step can be another dispatch.\<close>

lemma pull_last:
  fixes dispatch :: "'c \<Rightarrow> ('e + 'o option) \<times> 'c"
  assumes "pull dispatch refill c = Some (r, c')"
    and refl: "\<And>a. R a a" and trans: "\<And>x y z. R x y \<Longrightarrow> R y z \<Longrightarrow> R x z"
    and "\<And>a b. dispatch a = (Inr None, b) \<Longrightarrow> R a b" "\<And>a b x. refill a = Some (x, b) \<Longrightarrow> R a b"
  shows "\<exists>c1. R c c1 \<and> (dispatch c1 = (r, c') \<and> r \<noteq> Inr None \<or> c' = c1 \<and> (r = Inr None \<or> (\<exists>e b. r = Inl e \<and> refill b = Some (Inl e, c'))))"
proof -
  let ?Q = "\<lambda>c r c'. \<exists>c1. R c c1 \<and> (dispatch c1 = (r, c') \<and> r \<noteq> Inr None \<or> c' = c1 \<and> (r = Inr None \<or> (\<exists>e b. r = Inl e \<and> refill b = Some (Inl e, c'))))"
  let ?P = "\<lambda>d f c (r :: 'e + 'o option, c'). d = dispatch \<and> f = refill \<longrightarrow> ?Q c r c'"
  have "?P dispatch refill c (r, c')"
  proof (rule pull_induct [where P = ?P, OF assms(1)])
    fix pl :: "('c \<Rightarrow> ('e + 'o option) \<times> 'c) \<Rightarrow> ('c \<Rightarrow> (('e + bool) \<times> 'c) option) \<Rightarrow> 'c \<Rightarrow> (('e + 'o option) \<times> 'c) option"
    fix d f c y
    assume ih: "\<And>d f c y. pl d f c = Some y \<Longrightarrow> ?P d f c y"
    assume step: "(case d c of
        (Inl e, c') \<Rightarrow> Some (Inl e, c')
      | (Inr None, c') \<Rightarrow>
          (case f c' of
             None \<Rightarrow> None
           | Some (Inl e, c'') \<Rightarrow> Some (Inl e, c'')
           | Some (Inr more_read, c'') \<Rightarrow> if more_read then pl d f c'' else Some (Inr None, c''))
      | (Inr (Some x), c') \<Rightarrow> Some (Inr (Some x), c')) = Some y"
    obtain r c' where y: "y = (r, c')" by (rule prod.exhaust)
    have "?Q c r c'" if df: "d = dispatch" "f = refill"
    proof (cases "fst (dispatch c) = Inr None")
      case False
      then have "dispatch c = (r, c') \<and> r \<noteq> Inr None"
        using step df y by (cases "dispatch c"; cases "fst (dispatch c)") (auto split: option.split_asm)
      then show ?thesis using refl by blast
    next
      case True
      obtain c1 where d: "dispatch c = (Inr None, c1)" using True by (metis prod.collapse)
      obtain b c2 where f: "refill c1 = Some (b, c2)"
        using step df y d by (auto split: option.split_asm)
      note r12 = trans [OF assms(4) [OF d] assms(5) [OF f]]
      show ?thesis
      proof (cases b)
        case (Inl e)
        then have "r = Inl e" "c' = c2" using step df y d f by simp_all
        then show ?thesis using r12 f Inl by blast
      next
        case (Inr again)
        show ?thesis
        proof (cases again)
          case True
          then have "pl dispatch refill c2 = Some (r, c')" using step df y d f Inr by simp
          from ih [OF this] have "?Q c2 r c'" by simp
          then show ?thesis using r12 trans by blast
        next
          case False
          then have "r = Inr None" "c' = c2" using step df y d f Inr by simp_all
          then show ?thesis using r12 by blast
        qed
      qed
    qed
    then show "?P d f c y" by (simp add: y)
  qed
  then show ?thesis by simp
qed

locale pulled_stream =
  fixes dispatch :: "'c \<Rightarrow> ('e + 'o option) \<times> 'c"
    and refill :: "'c \<Rightarrow> (('e + bool) \<times> 'c) option"
    and whole :: "'c \<Rightarrow> 's"
    and spec :: "'s \<Rightarrow> ('e + 'o option) \<times> 's"
    and ok :: bool
  assumes dispatch_found: "dispatch c = (r, c') \<Longrightarrow> r \<noteq> Inr None \<Longrightarrow> spec (whole c) = (r, whole c')"
    and dispatch_partial: "dispatch c = (Inr None, c') \<Longrightarrow> spec (whole c) = spec (whole c') \<and> dispatch c' = (Inr None, c')"
    and refill_whole: "ok \<Longrightarrow> refill c = Some (rf, c') \<Longrightarrow> whole c' = whole c"
    and refill_idle: "ok \<Longrightarrow> refill c = Some (Inr False, c') \<Longrightarrow> dispatch c = (Inr None, c) \<Longrightarrow> dispatch c' = (Inr None, c')"
begin

lemma pull_spec:
  assumes "pull dispatch refill c = Some (r, c')" "ok"
  shows "(r \<noteq> Inr None \<and> spec (whole c) = (r, whole c'))
       \<or> (spec (whole c) = spec (whole c') \<and> (r = Inr None \<and> dispatch c' = (Inr None, c')
            \<or> (\<exists>e b. r = Inl e \<and> refill b = Some (Inl e, c'))))"
proof -
  let ?P = "\<lambda>d f c (r, c'). d = dispatch \<and> f = refill \<longrightarrow>
     (r \<noteq> Inr None \<and> spec (whole c) = (r, whole c'))
       \<or> (spec (whole c) = spec (whole c') \<and> (r = Inr None \<and> dispatch c' = (Inr None, c')
            \<or> (\<exists>e b. r = Inl e \<and> refill b = Some (Inl e, c'))))"
  have "?P dispatch refill c (r, c')"
  proof (rule pull_induct [where P = ?P, OF assms(1)])
    fix pl :: "('c \<Rightarrow> ('e + 'o option) \<times> 'c) \<Rightarrow> ('c \<Rightarrow> (('e + bool) \<times> 'c) option) \<Rightarrow> 'c \<Rightarrow> (('e + 'o option) \<times> 'c) option"
    fix d f c y
    assume ih: "\<And>d f c y. pl d f c = Some y \<Longrightarrow> ?P d f c y"
    assume step: "(case d c of
        (Inl e, c') \<Rightarrow> Some (Inl e, c')
      | (Inr None, c') \<Rightarrow>
          (case f c' of
             None \<Rightarrow> None
           | Some (Inl e, c'') \<Rightarrow> Some (Inl e, c'')
           | Some (Inr more_read, c'') \<Rightarrow> if more_read then pl d f c'' else Some (Inr None, c''))
      | (Inr (Some x), c') \<Rightarrow> Some (Inr (Some x), c')) = Some y"
    obtain r c' where y: "y = (r, c')" by (rule prod.exhaust)
    have "(r \<noteq> Inr None \<and> spec (whole c) = (r, whole c'))
       \<or> (spec (whole c) = spec (whole c') \<and> (r = Inr None \<and> dispatch c' = (Inr None, c')
            \<or> (\<exists>e b. r = Inl e \<and> refill b = Some (Inl e, c'))))" if df: "d = dispatch" "f = refill"
    proof -
      obtain rd c1 where d: "dispatch c = (rd, c1)" by (rule prod.exhaust)
      show ?thesis
      proof (cases "rd = Inr None")
        case False
        then have "r = rd" "c' = c1" using step d y df by (auto split: sum.split_asm option.split_asm)
        then show ?thesis using dispatch_found [OF d False] False by simp
      next
        case True
        note part = dispatch_partial [OF d [unfolded True]]
        obtain rf c2 where f: "refill c1 = Some (rf, c2)"
          using step d True df y by (auto split: option.split_asm)
        note w = refill_whole [OF assms(2) f]
        show ?thesis
        proof (cases rf)
          case (Inl e)
          then have "r = Inl e" "c' = c2" using step d True f y df by simp_all
          then show ?thesis using part w f Inl by auto
        next
          case (Inr b)
          show ?thesis
          proof (cases b)
            case True
            then have "pl dispatch refill c2 = Some (r, c')" using step d \<open>rd = Inr None\<close> f Inr y df by simp
            from ih [OF this] show ?thesis using part w by auto
          next
            case False
            then have "r = Inr None" "c' = c2" using step d True f Inr y df by simp_all
            moreover have "dispatch c2 = (Inr None, c2)" using refill_idle [OF assms(2), of c1 c2] f Inr False part by simp
            ultimately show ?thesis using part w by simp
          qed
        qed
      qed
    qed
    then show "?P d f c y" by (simp add: y)
  qed
  then show ?thesis by simp
qed

lemma pull_found: "pull dispatch refill c = Some (Inr (Some x), c') \<Longrightarrow> ok \<Longrightarrow> spec (whole c) = (Inr (Some x), whole c')"
  using pull_spec [of c "Inr (Some x)" c'] by auto

lemma pull_idle:
  "pull dispatch refill c = Some (Inr None, c') \<Longrightarrow> ok \<Longrightarrow>
     spec (whole c) = spec (whole c') \<and> dispatch c' = (Inr None, c')"
  using pull_spec [of c "Inr None" c'] by auto

lemma pull_failed:
  "pull dispatch refill c = Some (Inl e, c') \<Longrightarrow> ok \<Longrightarrow>
     spec (whole c) = (Inl e, whole c') \<or> spec (whole c) = spec (whole c') \<and> (\<exists>b. refill b = Some (Inl e, c'))"
  using pull_spec [of c "Inl e" c'] by auto

end

section \<open>The loops of the drivers\<close>

text \<open>The session as if everything the server sent had landed already; when bytes arrived does not
  matter to the dispatcher.\<close>

definition whole :: "('t \<Rightarrow> bytes) \<Rightarrow> ('t, 'z) client \<Rightarrow> 'z session" where
  "whole input c = (landed (input (cl_transport c)) (cl_session c))\<lparr>last_recv := 0\<rparr>"

definition spec_login :: "instant \<Rightarrow> 'z session \<Rightarrow> (soup_error + login option) \<times> 'z session" where
  "spec_login now s = (case dispatch_login now s of (r, s') \<Rightarrow> (r, s'\<lparr>last_recv := 0\<rparr>))"

lemma landed_last_recv: "(landed m s)\<lparr>last_recv := i\<rparr> = landed m (s\<lparr>last_recv := i\<rparr>)"
  by (simp add: landed_def)

lemma take_packet_last_recv:
  "take_packet (s\<lparr>last_recv := i\<rparr>) = (case take_packet s of (r, s') \<Rightarrow> (r, s'\<lparr>last_recv := i\<rparr>))"
  by (simp add: take_packet_eq split: sum.split option.split)

lemma dispatch_stream_last_recv:
  "dispatch_stream (s\<lparr>last_recv := i\<rparr>) = (case dispatch_stream s of (r, s') \<Rightarrow> (r, s'\<lparr>last_recv := i\<rparr>))"
proof (induction s rule: dispatch_stream.induct)
  case (1 s)
  show ?case
  proof (cases s rule: take_packet_cases)
    case (found ty bs rest)
    show ?thesis using 1 [OF found(2) [symmetric] refl refl refl] found(2) take_packet_last_recv [of i s]
      by (cases ty) (simp_all add: dispatch_stream.simps [of s] dispatch_stream.simps [of "s\<lparr>last_recv := i\<rparr>"] Let_def)
  qed (use take_packet_last_recv [of i s] in \<open>simp_all add: dispatch_stream.simps [of s] dispatch_stream.simps [of "s\<lparr>last_recv := i\<rparr>"]\<close>)
qed

lemma spec_login_last_recv: "spec_login now (s\<lparr>last_recv := i\<rparr>) = spec_login now s"
proof (induction now s rule: dispatch_login.induct)
  case (1 now s)
  show ?case
  proof (cases s rule: take_packet_cases)
    case (found ty bs rest)
    show ?thesis using 1 [OF found(2) [symmetric] refl refl refl] found(2) take_packet_last_recv [of i s]
      by (cases ty) (simp_all add: spec_login_def dispatch_login.simps [of now s]
          dispatch_login.simps [of now "s\<lparr>last_recv := i\<rparr>"] split: sum.split prod.split list.split)
  qed (use take_packet_last_recv [of i s] in \<open>simp_all add: spec_login_def dispatch_login.simps [of now s]
      dispatch_login.simps [of now "s\<lparr>last_recv := i\<rparr>"]\<close>)
qed

text \<open>Uncompressed: one \<^verbatim>\<open>ingest\<close> only moves bytes from the transport to the buffer.\<close>

lemma ingest_plain:
  assumes "ingest io now t s = Some (r, t', s')" "\<not> compressed io" "stream_contract io input"
  shows "\<exists>bs. input t = bs @ input t' \<and> (s' = landed bs s \<or> s' = (landed bs s)\<lparr>last_recv := now\<rparr>)
       \<and> (r = Inr False \<longrightarrow> s' = s) \<and> (r = Inr True \<longrightarrow> bs \<noteq> [])"
proof -
  obtain rr t1 where q: "recv_into io t (reserve_spare io (decode_buf s) (decode_buf_capacity (s_cfg s))) = (rr, t1)"
    by (rule prod.exhaust)
  show ?thesis
  proof (cases rr)
    case (Inl e)
    then show ?thesis
      using assms(1,2) q stream_contract_recv_error [OF assms(3) q [unfolded Inl]]
      by (auto simp: ingest_def land_def landed_def Let_def intro!: exI [of _ "[]"])
  next
    case (Inr bs)
    then show ?thesis
      using assms(1,2) q stream_contract_recv [OF assms(3) q [unfolded Inr]]
      by (cases "bs = []") (auto simp: ingest_def land_def landed_def Let_def intro!: exI [of _ bs])
  qed
qed

lemma on_stream_Some:
  "on_stream f c = Some (r, c') \<longleftrightarrow>
     f (cl_transport c) (cl_session c) = Some (r, cl_transport c', cl_session c')"
  by (cases "f (cl_transport c) (cl_session c)"; cases c') (auto simp: on_stream_def)

lemma ingest_whole:
  assumes "on_stream (ingest io now) c = Some (r, c')" "\<not> compressed io" "stream_contract io input"
  shows "whole input c' = whole input c"
proof -
  obtain bs where i: "input (cl_transport c) = bs @ input (cl_transport c')"
    "cl_session c' = landed bs (cl_session c) \<or> cl_session c' = (landed bs (cl_session c))\<lparr>last_recv := now\<rparr>"
    using ingest_plain [OF assms(1) [unfolded on_stream_Some] assms(2,3)] by blast
  from i(2) show ?thesis by (elim disjE) (simp_all add: whole_def i(1))
qed

lemma ingest_idle:
  assumes "on_stream (ingest io now) c = Some (Inr False, c')" "\<not> compressed io"
  shows "cl_session c' = cl_session c"
  using assms by (cases "recv_into io (cl_transport c) (reserve_spare io (decode_buf (cl_session c)) (decode_buf_capacity (s_cfg (cl_session c))))";
      cases "fst (recv_into io (cl_transport c) (reserve_spare io (decode_buf (cl_session c)) (decode_buf_capacity (s_cfg (cl_session c)))))")
    (auto simp: on_stream_Some ingest_def land_def Let_def)

lemma on_session_eq: "on_session f c = (r, c') \<longleftrightarrow> f (cl_session c) = (r, cl_session c') \<and> cl_transport c' = cl_transport c"
  by (cases "f (cl_session c)"; cases c'; cases c) (auto simp: on_session_def)

interpretation streaming: pulled_stream "on_session dispatch_stream" "on_stream (ingest io now)" "whole input"
  dispatch_stream "\<not> compressed io \<and> stream_contract io input"
  for io :: "('t, 'z) stream_io" and now and input :: "'t \<Rightarrow> bytes"
proof
  fix c c' :: "('t, 'z) client" and r rf
  show "on_session dispatch_stream c = (r, c') \<Longrightarrow> r \<noteq> Inr None \<Longrightarrow>
      dispatch_stream (whole input c) = (r, whole input c')"
    using dispatch_stream_landed [of "cl_session c" r "cl_session c'"]
    by (simp add: on_session_eq whole_def dispatch_stream_last_recv)
  show "on_session dispatch_stream c = (Inr None, c') \<Longrightarrow>
      dispatch_stream (whole input c) = dispatch_stream (whole input c')
      \<and> on_session dispatch_stream c' = (Inr None, c')"
    using dispatch_stream_partial [of "cl_session c" "cl_session c'" "input (cl_transport c)"]
    by (simp add: on_session_eq whole_def dispatch_stream_last_recv)
  show "\<not> compressed io \<and> stream_contract io input \<Longrightarrow> on_stream (ingest io now) c = Some (rf, c') \<Longrightarrow>
      whole input c' = whole input c"
    using ingest_whole by blast
  show "\<not> compressed io \<and> stream_contract io input \<Longrightarrow> on_stream (ingest io now) c = Some (Inr False, c') \<Longrightarrow>
      on_session dispatch_stream c = (Inr None, c) \<Longrightarrow> on_session dispatch_stream c' = (Inr None, c')"
    using ingest_idle [of io now c c'] by (simp add: on_session_eq)
qed

interpretation logging_in: pulled_stream "on_session (dispatch_login now)" "on_stream (ingest io now)" "whole input"
  "spec_login now" "\<not> compressed io \<and> stream_contract io input"
  for io :: "('t, 'z) stream_io" and now and input :: "'t \<Rightarrow> bytes"
proof
  fix c c' :: "('t, 'z) client" and r rf
  show "on_session (dispatch_login now) c = (r, c') \<Longrightarrow> r \<noteq> Inr None \<Longrightarrow>
      spec_login now (whole input c) = (r, whole input c')"
    using dispatch_login_landed [of now "cl_session c" r "cl_session c'"]
    by (simp add: on_session_eq whole_def spec_login_last_recv) (simp add: spec_login_def)
  show "on_session (dispatch_login now) c = (Inr None, c') \<Longrightarrow>
      spec_login now (whole input c) = spec_login now (whole input c')
      \<and> on_session (dispatch_login now) c' = (Inr None, c')"
    using dispatch_login_partial [of now "cl_session c" "cl_session c'" "input (cl_transport c)"]
    by (simp add: on_session_eq whole_def spec_login_last_recv) (simp add: spec_login_def)
  show "\<not> compressed io \<and> stream_contract io input \<Longrightarrow> on_stream (ingest io now) c = Some (rf, c') \<Longrightarrow>
      whole input c' = whole input c"
    using ingest_whole by blast
  show "\<not> compressed io \<and> stream_contract io input \<Longrightarrow> on_stream (ingest io now) c = Some (Inr False, c') \<Longrightarrow>
      on_session (dispatch_login now) c = (Inr None, c) \<Longrightarrow> on_session (dispatch_login now) c' = (Inr None, c')"
    using ingest_idle [of io now c c'] by (simp add: on_session_eq)
qed

subsection \<open>The asynchronous loop\<close>

text \<open>The readiness future reads nothing off the stream.\<close>

definition async_contract :: "('t, 'z, 'w) async_io \<Rightarrow> ('t \<Rightarrow> bytes) \<Rightarrow> bool" where
  "async_contract io input \<longleftrightarrow>
     stream_contract io input \<and> (\<forall>t w r t' w'. ready_poll io t w = (r, t', w') \<longrightarrow> input t' = input t)"

lemma stream_of_simps [simp]:
  "recv_into (stream_of io) = recv_into io" "try_send (stream_of io) = try_send io"
  "compressed (stream_of io) = compressed io" "reserve_spare (stream_of io) = reserve_spare io"
  "inflate_ops (stream_of io) = inflate_ops io"
  by (simp_all add: stream_of_def stream_io.truncate_def)

lemma stream_contract_of [simp]: "stream_contract (stream_of io) input = stream_contract io input"
  by (simp add: stream_contract_def)

lemmas await_ready_induct = await_ready.raw_induct [rotated]

lemma await_ready_input:
  assumes "await_ready io t w = Some (r, t', w')" "async_contract io input"
  shows "input t' = input t"
proof -
  let ?P = "\<lambda>i t w (r :: transport_error + unit, t', w' :: 'b). i = io \<longrightarrow> input t' = input t"
  have "?P io t w (r, t', w')"
  proof (rule await_ready_induct [where P = ?P, OF assms(1)])
    fix aw :: "('a, 'c, 'b) async_io \<Rightarrow> 'a \<Rightarrow> 'b \<Rightarrow> ((transport_error + unit) \<times> 'a \<times> 'b) option"
    fix i :: "('a, 'c, 'b) async_io" and t w y
    assume ih: "\<And>i t w y. aw i t w = Some y \<Longrightarrow> ?P i t w y"
      and step: "(case ready_poll i t w of (None, t', w') \<Rightarrow> aw i t' w' | (Some r, t', w') \<Rightarrow> Some (r, t', w')) = Some y"
    obtain p t1 w1 where q: "ready_poll i t w = (p, t1, w1)" by (rule prod_cases3)
    have "i = io \<Longrightarrow> input t1 = input t" using assms(2) q unfolding async_contract_def by blast
    then show "?P i t w y" using step q ih [of i t1 w1 y] by (cases p) (auto split: prod.split)
  qed
  then show ?thesis by simp
qed

lemma on_client_eq:
  "on_client f cw = (r, cw') \<longleftrightarrow> on_session f (fst cw) = (r, fst cw') \<and> snd cw' = snd cw"
  by (cases cw'; cases "on_session f (fst cw)") (auto simp: on_client_def)

interpretation awaiting: pulled_stream "on_client dispatch_stream" "await_refill io" "\<lambda>cw. whole input (fst cw)"
  dispatch_stream "\<not> compressed io \<and> async_contract io input"
  for io :: "('t, 'z, 'w) async_io" and input :: "'t \<Rightarrow> bytes"
proof
  fix cw cw' :: "('t, 'z) client \<times> 'w" and r rf
  show "on_client dispatch_stream cw = (r, cw') \<Longrightarrow> r \<noteq> Inr None \<Longrightarrow>
      dispatch_stream (whole input (fst cw)) = (r, whole input (fst cw'))"
    using streaming.dispatch_found [of "fst cw" r "fst cw'"] by (simp add: on_client_eq)
  show "on_client dispatch_stream cw = (Inr None, cw') \<Longrightarrow>
      dispatch_stream (whole input (fst cw)) = dispatch_stream (whole input (fst cw'))
      \<and> on_client dispatch_stream cw' = (Inr None, cw')"
    using streaming.dispatch_partial [of "fst cw" "fst cw'"] by (simp add: on_client_eq)
  show "\<not> compressed io \<and> async_contract io input \<Longrightarrow> await_refill io cw = Some (rf, cw') \<Longrightarrow>
      whole input (fst cw') = whole input (fst cw)"
  proof -
    assume ok: "\<not> compressed io \<and> async_contract io input" and rf: "await_refill io cw = Some (rf, cw')"
    obtain ra t1 w1 where aw: "await_ready io (cl_transport (fst cw)) (snd cw) = Some (ra, t1, w1)"
      using rf ok by (auto simp: await_refill_def await_more_bytes_def split: option.split_asm)
    have same: "input t1 = input (cl_transport (fst cw))" using await_ready_input [OF aw] ok by blast
    show ?thesis
    proof (cases ra)
      case (Inl e)
      then show ?thesis using rf ok aw same by (auto simp: await_refill_def await_more_bytes_def whole_def)
    next
      case (Inr u)
      let ?c = "(fst cw)\<lparr>cl_transport := t1\<rparr>"
      obtain now w2 where cl: "clock io w1 = (now, w2)" by (rule prod.exhaust)
      obtain ri c2 where ig: "on_stream (ingest (stream_of io) now) ?c = Some (ri, c2)"
        using rf ok aw Inr cl
        by (auto simp: await_refill_def await_more_bytes_def ingest_now_def split: option.split_asm)
      have "fst cw' = c2" using rf ok aw Inr cl ig
        by (cases ri) (auto simp: await_refill_def await_more_bytes_def ingest_now_def)
      moreover have "whole input c2 = whole input ?c"
        using ingest_whole [OF ig] ok by (simp add: async_contract_def)
      ultimately show ?thesis using same by (simp add: whole_def)
    qed
  qed
  show "\<not> compressed io \<and> async_contract io input \<Longrightarrow> await_refill io cw = Some (Inr False, cw') \<Longrightarrow>
      on_client dispatch_stream cw = (Inr None, cw) \<Longrightarrow> on_client dispatch_stream cw' = (Inr None, cw')"
    by (auto simp: await_refill_def split: option.split_asm sum.split_asm)
qed

section \<open>Polling refines dispatching the whole stream\<close>

lemma session_out_same: "\<exists>bs i. s = s\<lparr>s_out := bs, last_send := i\<rparr>"
  by (intro exI [of _ "s_out s"] exI [of _ "last_send s"]) simp

lemma flush_inbound:
  "flush io now t s = Some (r, t', s') \<Longrightarrow> stream_contract io input \<Longrightarrow>
     input t' = input t \<and> (\<exists>bs i. s' = s\<lparr>s_out := bs, last_send := i\<rparr>)"
proof (induction io now t s rule: flush.induct)
  case (1 io now t s)
  show ?case
  proof (cases "s_out s = []")
    case True
    then have "t' = t" "s' = s" using 1(2) by (simp_all add: flush.simps [of io now t s])
    then show ?thesis by (simp add: session_out_same)
  next
    case False
    obtain rr t1 where q: "try_send io t (s_out s) = (rr, t1)" by (rule prod.exhaust)
    note same = stream_contract_send [OF 1(3) q]
    show ?thesis
    proof (cases rr)
      case (Inl e)
      then have "t' = t1" "s' = s" using 1(2) q False by (simp_all add: flush.simps [of io now t s])
      then show ?thesis using same by (simp add: session_out_same)
    next
      case (Inr n)
      let ?s1 = "s\<lparr>s_out := drop n (s_out s)\<rparr>"
      let ?s2 = "if s_out ?s1 = [] then ?s1\<lparr>last_send := now\<rparr> else ?s1"
      show ?thesis
      proof (cases "n = 0")
        case True
        then have "t' = t1" "s' = s" using 1(2) q False Inr by (simp_all add: flush.simps [of io now t s])
        then show ?thesis using same by (simp add: session_out_same)
      next
        case pos: False
        have len: "\<not> length (s_out s) < n" and rec: "flush io now t1 ?s2 = Some (r, t', s')"
          using 1(2) q False Inr pos by (auto simp: flush.simps [of io now t s] Let_def split: if_split_asm)
        from 1(1) [OF False q [symmetric] Inr pos len refl refl rec 1(3)] same show ?thesis
          by (auto split: if_split_asm)
      qed
    qed
  qed
qed

lemma dispatch_stream_out:
  "dispatch_stream (s\<lparr>s_out := bs, last_send := i\<rparr>) =
     (case dispatch_stream s of (r, s') \<Rightarrow>
        (r, s'\<lparr>s_out := (if r = Inr (Some (StreamedEvent SoupEndOfSession)) then [] else bs), last_send := i\<rparr>))"
proof (induction s rule: dispatch_stream.induct)
  case (1 s)
  let ?t = "s\<lparr>s_out := bs, last_send := i\<rparr>"
  have tp: "take_packet ?t = (case take_packet s of (r, s') \<Rightarrow> (r, s'\<lparr>s_out := bs, last_send := i\<rparr>))"
    by (simp add: take_packet_eq split: sum.split option.split)
  show ?case
  proof (cases s rule: take_packet_cases)
    case (found ty b rest)
    show ?thesis using 1 [OF found(2) [symmetric] refl refl refl] found(2) tp
      by (cases ty) (simp_all add: dispatch_stream.simps [of s] dispatch_stream.simps [of ?t] Let_def)
  qed (use tp in \<open>simp_all add: dispatch_stream.simps [of s] dispatch_stream.simps [of ?t]\<close>)
qed

text \<open>The payloads of the sequenced packets of a byte stream, up to the packet that ends the session or
  breaks the protocol.\<close>

function sequenced :: "nat \<Rightarrow> bytes \<Rightarrow> bytes list" where
  "sequenced limit buf =
     (case next_packet limit buf of
        Inr (Some ((ty, bs), rest)) \<Rightarrow>
          (case ty of
             PSequencedData \<Rightarrow> bs # sequenced limit rest
           | PServerHeartbeat \<Rightarrow> sequenced limit rest
           | PDebug \<Rightarrow> sequenced limit rest
           | _ \<Rightarrow> [])
      | _ \<Rightarrow> [])"
  by pat_completeness auto
termination
  by (relation "measure (\<lambda>(_, buf). length buf)") (auto dest: next_packet_shrinks)

declare sequenced.simps [simp del]

abbreviation "limit_of s \<equiv> max_frame_size (s_cfg s)"

lemma dispatch_stream_sequenced:
  "dispatch_stream s = (r, s') \<Longrightarrow> s_cfg s' = s_cfg s \<and>
     (case r of
        Inl e \<Rightarrow> sequenced (limit_of s) (decode_buf s) = []
      | Inr None \<Rightarrow> sequenced (limit_of s) (decode_buf s) = sequenced (limit_of s) (decode_buf s')
          \<and> next_expected_sequence s' = next_expected_sequence s \<and> s_state s' = s_state s
      | Inr (Some (StreamedData q)) \<Rightarrow>
          q = next_expected_sequence s \<and> next_expected_sequence s' = q + 1 \<and> s_state s' = s_state s
          \<and> sequenced (limit_of s) (decode_buf s) = last_frame s' # sequenced (limit_of s) (decode_buf s')
      | Inr (Some (StreamedEvent ev)) \<Rightarrow>
          if ev = SoupEndOfSession then s_state s' = Closed \<and> sequenced (limit_of s) (decode_buf s) = []
          else next_expected_sequence s' = next_expected_sequence s \<and> s_state s' = s_state s
            \<and> sequenced (limit_of s) (decode_buf s) = sequenced (limit_of s) (decode_buf s'))"
proof (induction s rule: dispatch_stream.induct)
  case (1 s)
  let ?b = "decode_buf s"
  show ?case
  proof (cases s rule: take_packet_cases)
    case (error e)
    then have "r = Inl e" "s' = s" using 1(2) by (simp_all add: dispatch_stream.simps [of s])
    then show ?thesis using error(1) by (simp add: sequenced.simps [of _ ?b])
  next
    case partial
    then have "r = Inr None" "s' = s" using 1(2) by (simp_all add: dispatch_stream.simps [of s])
    then show ?thesis by simp
  next
    case (found ty bs rest)
    note ih = 1(1) [OF found(2) [symmetric] refl refl refl]
    show ?thesis
    proof (cases "ty = PDebug")
      case True
      then have "dispatch_stream (s\<lparr>decode_buf := rest\<rparr>) = (r, s')"
        using 1(2) found(2) by (simp add: dispatch_stream.simps [of s])
      moreover have "sequenced (limit_of s) ?b = sequenced (limit_of s) rest"
        using found(1) True by (simp add: sequenced.simps [of _ ?b])
      ultimately show ?thesis using ih [OF True]
        by (simp cong del: sum.case_cong_weak option.case_cong_weak streamed.case_cong_weak if_weak_cong)
    next
      case False
      then show ?thesis using 1(2) found
        by (cases ty) (auto simp: dispatch_stream.simps [of s] sequenced.simps [of _ ?b] Let_def)
    qed
  qed
qed

text \<open>What is still to come, as a function of the client.\<close>

definition to_come :: "('t \<Rightarrow> bytes) \<Rightarrow> ('t, 'z) client \<Rightarrow> bytes list" where
  "to_come input c =
     sequenced (limit_of (cl_session c)) (decode_buf (cl_session c) @ input (cl_transport c))"

lemma whole_simps [simp]:
  "decode_buf (whole input c) = decode_buf (cl_session c) @ input (cl_transport c)"
  "s_cfg (whole input c) = s_cfg (cl_session c)" "s_state (whole input c) = s_state (cl_session c)"
  "last_frame (whole input c) = last_frame (cl_session c)"
  "next_expected_sequence (whole input c) = next_expected_sequence (cl_session c)"
  by (simp_all add: whole_def landed_def)

text \<open>Idle polling changes the buffer and the time of the last bytes, nothing else of the session.\<close>

definition same_session :: "('t, 'z) client \<Rightarrow> ('t, 'z) client \<Rightarrow> bool" where
  "same_session c c' \<longleftrightarrow> (\<exists>b i. cl_session c' = (cl_session c)\<lparr>decode_buf := b, last_recv := i\<rparr>)"

lemma same_session_trans: "same_session a b \<Longrightarrow> same_session b d \<Longrightarrow> same_session a d"
proof -
  assume "same_session a b" "same_session b d"
  then obtain b1 i1 b2 i2 where "cl_session b = (cl_session a)\<lparr>decode_buf := b1, last_recv := i1\<rparr>"
    and d: "cl_session d = (cl_session b)\<lparr>decode_buf := b2, last_recv := i2\<rparr>"
    unfolding same_session_def by blast
  then have "cl_session d = (cl_session a)\<lparr>decode_buf := b2, last_recv := i2\<rparr>" by simp
  then show ?thesis unfolding same_session_def by blast
qed

lemma same_session_buf: "cl_session c' = (cl_session c)\<lparr>decode_buf := b\<rparr> \<Longrightarrow> same_session c c'"
  unfolding same_session_def by (intro exI [of _ b] exI [of _ "last_recv (cl_session c)"]) simp

lemma same_session_refl: "same_session c c"
  by (rule same_session_buf [where b = "decode_buf (cl_session c)"]) simp

lemma session_buf_same: "s\<lparr>decode_buf := b\<rparr> = s\<lparr>decode_buf := b, last_recv := last_recv s\<rparr>"
  by simp

lemma ingest_same_session:
  assumes "on_stream (ingest io now) c = Some (r, c')" "\<not> compressed io" "stream_contract io input"
  shows "same_session c c'"
proof -
  obtain bs where "cl_session c' = landed bs (cl_session c) \<or> cl_session c' = (landed bs (cl_session c))\<lparr>last_recv := now\<rparr>"
    using ingest_plain [OF assms(1) [unfolded on_stream_Some] assms(2,3)] by blast
  then show ?thesis
    unfolding same_session_def landed_def
    by (elim disjE) (metis (no_types) session_buf_same, blast)
qed

lemma pull_same_session:
  assumes "\<not> compressed io" "stream_contract io input"
  shows "pull (on_session dispatch_stream) (on_stream (ingest io now)) c = Some (Inr None, c') \<Longrightarrow> same_session c c'"
    and "pull (on_session (dispatch_login now)) (on_stream (ingest io now)) c = Some (Inr None, c') \<Longrightarrow> same_session c c'"
proof -
  have a: "on_session dispatch_stream a = (Inr None, b) \<Longrightarrow> same_session a b" for a b :: "('a, 'b) client"
    using dispatch_stream_partial [of "cl_session a" "cl_session b"] by (auto simp: on_session_eq intro: same_session_buf)
  have b: "on_session (dispatch_login now) a = (Inr None, b) \<Longrightarrow> same_session a b" for a b :: "('a, 'b) client"
    using dispatch_login_partial [of now "cl_session a" "cl_session b"] by (auto simp: on_session_eq intro: same_session_buf)
  note f = ingest_same_session [OF _ assms]
  show "same_session c c'" if "pull (on_session dispatch_stream) (on_stream (ingest io now)) c = Some (Inr None, c')"
  proof -
    have "\<exists>c1. same_session c c1 \<and> (on_session dispatch_stream c1 = (Inr None, c') \<and> Inr None \<noteq> (Inr None :: soup_error + streamed option)
        \<or> c' = c1 \<and> (Inr None = (Inr None :: soup_error + streamed option)
          \<or> (\<exists>e b. Inr None = (Inl e :: soup_error + streamed option) \<and> on_stream (ingest io now) b = Some (Inl e, c'))))"
      by (rule pull_last [where R = same_session, OF that same_session_refl])
        (use same_session_trans a f in \<open>blast+\<close>)
    then show ?thesis by simp
  qed
  show "same_session c c'" if "pull (on_session (dispatch_login now)) (on_stream (ingest io now)) c = Some (Inr None, c')"
  proof -
    have "\<exists>c1. same_session c c1 \<and> (on_session (dispatch_login now) c1 = (Inr None, c') \<and> Inr None \<noteq> (Inr None :: soup_error + login option)
        \<or> c' = c1 \<and> (Inr None = (Inr None :: soup_error + login option)
          \<or> (\<exists>e b. Inr None = (Inl e :: soup_error + login option) \<and> on_stream (ingest io now) b = Some (Inl e, c'))))"
      by (rule pull_last [where R = same_session, OF that same_session_refl])
        (use same_session_trans b f in \<open>blast+\<close>)
    then show ?thesis by simp
  qed
qed

lemma pull_streaming:
  assumes "pull (on_session dispatch_stream) (on_stream (ingest io now)) c = Some (Inr x, c')"
    and "\<not> compressed io" "stream_contract io input" "s_state (cl_session c) = Streaming"
  shows "s_cfg (cl_session c') = s_cfg (cl_session c)
    \<and> (case x of
         Some (StreamedData q) \<Rightarrow> q = next_expected_sequence (cl_session c)
           \<and> next_expected_sequence (cl_session c') = q + 1 \<and> s_state (cl_session c') = Streaming
           \<and> to_come input c = last_frame (cl_session c') # to_come input c'
       | _ \<Rightarrow> s_state (cl_session c') = Closed
           \<or> s_state (cl_session c') = Streaming \<and> to_come input c' = to_come input c
             \<and> next_expected_sequence (cl_session c') = next_expected_sequence (cl_session c))"
proof (cases x)
  case None
  have idle: "pull (on_session dispatch_stream) (on_stream (ingest io now)) c = Some (Inr None, c')"
    using assms(1) None by simp
  have w: "dispatch_stream (whole input c) = dispatch_stream (whole input c')"
    using streaming.pull_idle [OF idle] assms(2,3) by blast
  from pull_same_session(1) [OF assms(2,3) idle]
  have same: "s_cfg (cl_session c') = s_cfg (cl_session c)" "s_state (cl_session c') = s_state (cl_session c)"
    "next_expected_sequence (cl_session c') = next_expected_sequence (cl_session c)"
    by (auto simp: same_session_def)
  obtain r s2 where d: "dispatch_stream (whole input c) = (r, s2)" by (rule prod.exhaust)
  have "to_come input c' = to_come input c"
    using dispatch_stream_sequenced [OF d] dispatch_stream_sequenced [OF d [unfolded w]] same(1)
    by (auto simp: to_come_def split: sum.split_asm option.split_asm streamed.split_asm if_split_asm)
  then show ?thesis using None same assms(4) by simp
next
  case (Some y)
  then have "dispatch_stream (whole input c) = (Inr (Some y), whole input c')"
    using streaming.pull_found assms(1-3) by blast
  from dispatch_stream_sequenced [OF this] assms(4) Some show ?thesis
    by (cases y) (auto simp: to_come_def split: if_split_asm)
qed

lemma flush_client:
  assumes "on_stream (flush io now) c = Some (r, c')" "stream_contract io input"
  shows "whole input c' = (whole input c)\<lparr>s_out := s_out (cl_session c'), last_send := last_send (cl_session c')\<rparr>"
    and "s_state (cl_session c') = s_state (cl_session c)" "last_recv (cl_session c') = last_recv (cl_session c)"
    and "login_deadline (cl_session c') = login_deadline (cl_session c)"
    and "decode_buf (cl_session c') = decode_buf (cl_session c)" "s_cfg (cl_session c') = s_cfg (cl_session c)"
    and "next_expected_sequence (cl_session c') = next_expected_sequence (cl_session c)"
    and "to_come input c' = to_come input c"
proof -
  obtain bs i where f: "input (cl_transport c') = input (cl_transport c)"
    "cl_session c' = (cl_session c)\<lparr>s_out := bs, last_send := i\<rparr>"
    using flush_inbound [OF assms(1) [unfolded on_stream_Some] assms(2)] by blast
  then show "whole input c' = (whole input c)\<lparr>s_out := s_out (cl_session c'), last_send := last_send (cl_session c')\<rparr>"
    by (simp add: whole_def landed_def)
  show "s_state (cl_session c') = s_state (cl_session c)" "last_recv (cl_session c') = last_recv (cl_session c)"
    "login_deadline (cl_session c') = login_deadline (cl_session c)"
    "decode_buf (cl_session c') = decode_buf (cl_session c)" "s_cfg (cl_session c') = s_cfg (cl_session c)"
    "next_expected_sequence (cl_session c') = next_expected_sequence (cl_session c)"
    "to_come input c' = to_come input c"
    using f by (simp_all add: to_come_def)
qed

text \<open>One successful poll of a streaming client: at most the next payload to come, under its number.\<close>

lemma poll_streaming:
  assumes "soup_poll io now c = Some (Inr m, c')"
    and io: "\<not> compressed io" "stream_contract io input" and st: "s_state (cl_session c) = Streaming"
  shows "(\<exists>f. m = Some (MData f) \<and> sf_sequence f = next_expected_sequence (cl_session c)
             \<and> next_expected_sequence (cl_session c') = next_expected_sequence (cl_session c) + 1
             \<and> s_state (cl_session c') = Streaming \<and> to_come input c = sf_payload f # to_come input c')
       \<or> (\<forall>f. m \<noteq> Some (MData f)) \<and> (s_state (cl_session c') = Closed
             \<or> s_state (cl_session c') = Streaming \<and> to_come input c' = to_come input c
               \<and> next_expected_sequence (cl_session c') = next_expected_sequence (cl_session c))"
proof -
  obtain c1 where f: "on_stream (flush io now) c = Some (Inr (), c1)"
    using assms(1) by (auto simp: soup_poll_def split: option.split_asm sum.split_asm)
  note fl = flush_client [OF f io(2)]
  have ps: "poll_stream io now c1 = Some (Inr m, c')" using assms(1) f fl(2) st by (simp add: soup_poll_def)
  show ?thesis
  proof (cases "heartbeat_due now (cl_session c1)")
    case True
    obtain c2 c3 where q: "on_session queue_heartbeat c1 = (Inr (), c2)"
      and f2: "on_stream (flush io now) c2 = Some (Inr (), c3)" "c' = c3" "m = Some (MEvent HeartbeatSent)"
      using ps True by (auto simp: poll_stream_def split: option.split_asm sum.split_asm prod.split_asm)
    have "cl_session c2 = (cl_session c1)\<lparr>s_out := s_out (cl_session c2)\<rparr>" "cl_transport c2 = cl_transport c1"
      using q queue_ok [of PClientHeartbeat "[]" "cl_session c1" "cl_session c2"]
      by (auto simp: on_session_eq queue_heartbeat_def)
    then have "to_come input c2 = to_come input c1" "s_state (cl_session c2) = s_state (cl_session c1)"
      "next_expected_sequence (cl_session c2) = next_expected_sequence (cl_session c1)"
      unfolding to_come_def by (metis (no_types, lifting) session.select_convs session.surjective session.update_convs(5))+
    then show ?thesis using fl flush_client [OF f2(1) io(2)] f2(2,3) st by simp
  next
    case False
    obtain x c2 where p: "pull (on_session dispatch_stream) (on_stream (ingest io now)) c1 = Some (Inr x, c2)"
      using ps False by (auto simp: poll_stream_def split: option.split_asm sum.split_asm)
    note pl = pull_streaming [OF p io]
    show ?thesis
    proof (cases x)
      case None
      then have "c' = c2 \<and> m = None \<or> s_state (cl_session c') = Closed \<and> m = Some (MEvent HeartbeatTimeout)"
        using ps False p by (auto simp: poll_stream_def heartbeat_timed_out_def on_session_def split: if_split_asm)
      then show ?thesis using pl None fl st by auto
    next
      case (Some y)
      then have "c' = c2" "m = Some (streamed_message y c2)" using ps False p by (auto simp: poll_stream_def)
      then show ?thesis using pl Some fl st
        by (cases y) (auto simp: streamed_message_def session_frame_def)
    qed
  qed
qed

lemma poll_closed:
  assumes "soup_poll io now c = Some (Inr m, c')" "stream_contract io input" "s_state (cl_session c) = Closed"
  shows "m = None \<and> s_state (cl_session c') = Closed"
proof -
  obtain c1 where f: "on_stream (flush io now) c = Some (Inr (), c1)"
    using assms(1) by (auto simp: soup_poll_def split: option.split_asm sum.split_asm)
  show ?thesis using assms(1,3) f flush_client(2) [OF f assms(2)] by (auto simp: soup_poll_def split: if_split_asm)
qed

section \<open>Runs of a client\<close>

text \<open>
  A run of the synchronous client from \<open>c0\<close>: successful polls and queue calls in any order.
  \<open>ps\<close> are the packets queued so far (a heartbeat sent by \<^verbatim>\<open>poll\<close> included), \<open>ms\<close> the messages handed out.
\<close>

inductive soup_trace ::
  "('t, 'z) stream_io \<Rightarrow> ('t, 'z) client \<Rightarrow> (packet_type \<times> bytes) list \<Rightarrow> soup_message list \<Rightarrow> ('t, 'z) client \<Rightarrow> bool"
  for io :: "('t, 'z) stream_io" and c0 :: "('t, 'z) client" where
  trace_start: "soup_trace io c0 [] [] c0"
| trace_idle: "soup_trace io c0 ps ms c \<Longrightarrow> soup_poll io now c = Some (Inr None, c') \<Longrightarrow> soup_trace io c0 ps ms c'"
| trace_message: "soup_trace io c0 ps ms c \<Longrightarrow> soup_poll io now c = Some (Inr (Some m), c') \<Longrightarrow>
    soup_trace io c0 (ps @ (if m = MEvent HeartbeatSent then [(PClientHeartbeat, [])] else [])) (ms @ [m]) c'"
| trace_send: "soup_trace io c0 ps ms c \<Longrightarrow> queue_unsequenced payload c = (Inr (), c') \<Longrightarrow>
    soup_trace io c0 (ps @ [(PUnsequencedData, payload)]) ms c'"
| trace_logout: "soup_trace io c0 ps ms c \<Longrightarrow> queue_logout c = (Inr (), c') \<Longrightarrow>
    soup_trace io c0 (ps @ [(PLogoutRequest, [])]) ms c'"

fun data_of :: "soup_message list \<Rightarrow> soup_frame list" where
  "data_of [] = []"
| "data_of (MData f # ms) = f # data_of ms"
| "data_of (MEvent _ # ms) = data_of ms"

lemma data_of_snoc: "data_of (ms @ [m]) = data_of ms @ (case m of MData f \<Rightarrow> [f] | MEvent _ \<Rightarrow> [])"
  by (induction ms rule: data_of.induct) (cases m; simp)+

lemma queue_unsequenced_ok:
  "queue_unsequenced payload c = (Inr (), c') \<Longrightarrow> s_state (cl_session c) \<noteq> Closed \<and>
     c' = c\<lparr>cl_session := (cl_session c)\<lparr>s_out := s_out (cl_session c) @ packet_bytes PUnsequencedData payload\<rparr>\<rparr>"
  by (auto simp: queue_unsequenced_def on_session_def queue_def packet_bytes_def split: if_split_asm)

lemma queue_logout_ok:
  "queue_logout c = (Inr (), c') \<Longrightarrow> s_state (cl_session c) \<noteq> Closed \<and>
     c' = c\<lparr>cl_session := (cl_session c)\<lparr>s_out := s_out (cl_session c) @ packet_bytes PLogoutRequest [], s_state := Closed\<rparr>\<rparr>"
  by (auto simp: queue_logout_def on_session_def queue_def packet_bytes_def close_logout_def split: if_split_asm)


text \<open>A transport that holds the bytes to hand out and accepts every write.\<close>

definition demo_ops :: "unit inflate_ops" where
  "demo_ops = \<lparr>total_in = (\<lambda>_. 0), total_out = (\<lambda>_. 0), decompress = (\<lambda>z input n. (Inr StatusOk, [], z))\<rparr>"

definition demo_io :: "(bytes, unit) stream_io" where
  "demo_io = \<lparr>compressed = False, recv_into = (\<lambda>t n. (Inr (take n t), drop n t)),
     try_send = (\<lambda>t buf. (Inr (length buf), t)), reserve_spare = (\<lambda>buf n. n), inflate_ops = demo_ops\<rparr>"

definition demo_streaming :: "unit session" where
  "demo_streaming = demo_session\<lparr>s_state := Streaming, next_expected_sequence := 5\<rparr>"

definition demo_client :: "(bytes, unit) client" where
  "demo_client = \<lparr>cl_transport = packet_bytes PSequencedData [7] @ packet_bytes PSequencedData [8],
     cl_session = demo_streaming\<rparr>"

definition demo_after :: "(bytes, unit) client" where
  "demo_after = \<lparr>cl_transport = [], cl_session = demo_streaming\<lparr>decode_buf := packet_bytes PSequencedData [8],
     last_frame := [7], next_expected_sequence := 6\<rparr>\<rparr>"

lemma demo_io_contract: "stream_contract demo_io (\<lambda>t. t)" "\<not> compressed demo_io"
  by (auto simp: stream_contract_def demo_io_def)

lemma demo_session_simps [simp]:
  "s_cfg demo_session = soup_config_default" "s_out demo_session = []" "decode_buf demo_session = []"
  "last_send demo_session = 0" "last_recv demo_session = 0"
  by (simp_all add: demo_session_def session_new_def)

lemma dispatch_empty [simp]: "decode_buf s = [] \<Longrightarrow> dispatch_stream s = (Inr None, s)"
  by (subst dispatch_stream.simps) (simp add: take_packet_eq next_packet_def parse_packet_def)

definition demo_landed :: "(bytes, unit) client" where
  "demo_landed = \<lparr>cl_transport = [], cl_session = demo_streaming\<lparr>decode_buf :=
     packet_bytes PSequencedData [7] @ packet_bytes PSequencedData [8]\<rparr>\<rparr>"

lemma demo_streaming_simps [simp]:
  "s_out demo_streaming = []" "s_state demo_streaming = Streaming" "decode_buf demo_streaming = []"
  "s_cfg demo_streaming = soup_config_default" "last_recv demo_streaming = 0" "last_send demo_streaming = 0"
  by (simp_all add: demo_streaming_def)

lemma demo_ingest: "on_stream (ingest demo_io 0) demo_client = Some (Inr True, demo_landed)"
proof -
  have "length (packet_bytes PSequencedData [b]) = 4" for b by (simp add: packet_bytes_def)
  then show ?thesis
    by (simp add: on_stream_def ingest_def land_def demo_io_def demo_client_def demo_landed_def soup_config_default_def Let_def)
qed

lemma demo_dispatch: "on_session dispatch_stream demo_landed = (Inr (Some (StreamedData 5)), demo_after)"
proof -
  have "next_packet (max_frame_size soup_config_default) (packet_bytes PSequencedData [7] @ packet_bytes PSequencedData [8])
      = Inr (Some ((PSequencedData, [7]), packet_bytes PSequencedData [8]))"
    by (rule next_packet_bytes) (simp_all add: soup_config_default_def)
  then show ?thesis
    by (simp add: on_session_def dispatch_stream.simps take_packet_eq demo_landed_def demo_after_def Let_def)
      (simp add: demo_streaming_def)
qed

lemma demo_client_idle: "on_session dispatch_stream demo_client = (Inr None, demo_client)"
  by (simp add: on_session_def demo_client_def)

lemma demo_poll_data:
  "soup_poll demo_io 0 demo_client = Some (Inr (Some (MData \<lparr>sf_payload = [7], sf_sequence = 5\<rparr>)), demo_after)"
proof -
  have "pull (on_session dispatch_stream) (on_stream (ingest demo_io 0)) demo_client
      = Some (Inr (Some (StreamedData 5)), demo_after)"
    by (subst pull.simps, simp add: demo_client_idle demo_ingest) (subst pull.simps, simp add: demo_dispatch)
  then show ?thesis
    by (simp add: soup_poll_def on_stream_def flush.simps poll_stream_def heartbeat_due_def demo_client_def
        streamed_message_def session_frame_def) (simp add: demo_after_def demo_streaming_def)
qed


end
