(* ===== verification/Soup_Outbound.thy ===== *)
theory Soup_Outbound
  imports Soup_Drivers
begin

text \<open>
  The outbound side of the SoupBinTCP client and its clock: bytes reach the transport in the order they
  were queued, \<^verbatim>\<open>next_deadline\<close> is the moment an idle client has something to do, login ends in one of its
  outcomes, a closed session stays closed.
\<close>

section \<open>Outbound order\<close>

text \<open>\<open>written t\<close> is what the transport accepted so far; \<^verbatim>\<open>try_send\<close> accepts a prefix.\<close>

definition send_contract :: "('t, 'z) stream_io \<Rightarrow> ('t \<Rightarrow> bytes) \<Rightarrow> bool" where
  "send_contract io written \<longleftrightarrow>
     (\<forall>t buf n t'. try_send io t buf = (Inr n, t') \<longrightarrow> n \<le> length buf \<and> written t' = written t @ take n buf)
     \<and> (\<forall>t buf e t'. try_send io t buf = (Inl e, t') \<longrightarrow> written t' = written t)
     \<and> (\<forall>t n r t'. recv_into io t n = (r, t') \<longrightarrow> written t' = written t)"

definition out_stream :: "('t \<Rightarrow> bytes) \<Rightarrow> ('t, 'z) client \<Rightarrow> bytes" where
  "out_stream written c = written (cl_transport c) @ s_out (cl_session c)"

lemma flush_out_stream:
  "flush io now t s = Some (r, t', s') \<Longrightarrow> send_contract io written \<Longrightarrow>
     written t' @ s_out s' = written t @ s_out s \<and> s_state s' = s_state s"
proof (induction io now t s rule: flush.induct)
  case (1 io now t s)
  obtain rr t1 where q: "try_send io t (s_out s) = (rr, t1)" by (rule prod.exhaust)
  show ?case
  proof (cases "s_out s = [] \<or> (\<exists>e. rr = Inl e) \<or> rr = Inr 0")
    case True
    have "written t1 = written t \<and> t' = t1 \<and> s' = s \<or> t' = t \<and> s' = s"
    proof (cases "s_out s = []")
      case True
      then show ?thesis using 1(2) by (simp add: flush.simps [of io now t s])
    next
      case False
      have "written t1 = written t" using True False q 1(3) unfolding send_contract_def by (auto dest: spec)
      then show ?thesis using True False q 1(2) by (auto simp: flush.simps [of io now t s])
    qed
    then show ?thesis by auto
  next
    case False
    then obtain n where n: "rr = Inr n" "n \<noteq> 0" by (cases rr) auto
    have w: "n \<le> length (s_out s)" "written t1 = written t @ take n (s_out s)"
      using q n(1) 1(3) unfolding send_contract_def by blast+
    let ?s1 = "s\<lparr>s_out := drop n (s_out s)\<rparr>"
    let ?s2 = "if s_out ?s1 = [] then ?s1\<lparr>last_send := now\<rparr> else ?s1"
    have rec: "flush io now t1 ?s2 = Some (r, t', s')"
      using 1(2) q n w(1) False by (simp add: flush.simps [of io now t s] Let_def)
    have "\<not> length (s_out s) < n" "s_out s \<noteq> []" using w(1) False by auto
    from 1(1) [OF this(2) q [symmetric] n(1) n(2) this(1) refl refl rec 1(3)] w(2) show ?thesis
      by (simp split: if_split_asm)
  qed
qed

lemma flush_out_client:
  "on_stream (flush io now) c = Some (r, c') \<Longrightarrow> send_contract io written \<Longrightarrow>
     out_stream written c' = out_stream written c \<and> s_state (cl_session c') = s_state (cl_session c)"
  using flush_out_stream [of io now "cl_transport c" "cl_session c" r "cl_transport c'" "cl_session c'"]
  by (simp add: on_stream_Some out_stream_def)

text \<open>Receiving and dispatching queue nothing; they may close the session and drop what is queued.\<close>

definition out_kept :: "('t \<Rightarrow> bytes) \<Rightarrow> ('t, 'z) client \<Rightarrow> ('t, 'z) client \<Rightarrow> bool" where
  "out_kept written c c' \<longleftrightarrow> written (cl_transport c') = written (cl_transport c)
     \<and> (s_out (cl_session c') = s_out (cl_session c) \<or> s_state (cl_session c') = Closed \<and> s_out (cl_session c') = [])"

lemma dispatch_stream_kept: "dispatch_stream s = (r, s') \<Longrightarrow> s_out s' = s_out s \<or> s_state s' = Closed \<and> s_out s' = []"
proof (induction s rule: dispatch_stream.induct)
  case (1 s)
  show ?case
  proof (cases s rule: take_packet_cases)
    case (found ty bs rest)
    show ?thesis using 1(1) [OF found(2) [symmetric] refl refl refl] 1(2) found(2)
      by (cases ty) (auto simp: dispatch_stream.simps [of s] Let_def)
  qed (use 1(2) in \<open>auto simp: dispatch_stream.simps [of s]\<close>)
qed

lemma dispatch_login_kept: "dispatch_login now s = (r, s') \<Longrightarrow> s_out s' = s_out s"
proof (induction now s rule: dispatch_login.induct)
  case (1 now s)
  show ?case
  proof (cases s rule: take_packet_cases)
    case (found ty bs rest)
    show ?thesis using 1(1,2) [OF found(2) [symmetric] refl refl refl] 1(3) found(2)
      by (cases ty) (auto simp: dispatch_login.simps [of now s] split: sum.split_asm list.split_asm)
  qed (use 1(3) in \<open>auto simp: dispatch_login.simps [of now s]\<close>)
qed

lemma ingest_kept:
  assumes "on_stream (ingest io now) c = Some (r, c')" "\<not> compressed io" "send_contract io written"
  shows "written (cl_transport c') = written (cl_transport c) \<and> s_out (cl_session c') = s_out (cl_session c)"
proof -
  let ?n = "reserve_spare io (decode_buf (cl_session c)) (decode_buf_capacity (s_cfg (cl_session c)))"
  obtain rr t1 where q: "recv_into io (cl_transport c) ?n = (rr, t1)" by (rule prod.exhaust)
  have "written t1 = written (cl_transport c)" using q assms(3) unfolding send_contract_def by blast
  moreover have "cl_transport c' = t1 \<and> s_out (cl_session c') = s_out (cl_session c)"
    using assms(1,2) q
    by (cases rr) (auto simp: on_stream_def ingest_def land_def Let_def split: if_split_asm)
  ultimately show ?thesis by auto
qed

lemma pull_kept:
  assumes "pull (on_session f) (on_stream (ingest io now)) c = Some (r, c')" "\<not> compressed io" "send_contract io written"
    and idle: "\<And>s s'. f s = (Inr None, s') \<Longrightarrow> s_out s' = s_out s"
    and f: "\<And>s r s'. f s = (r, s') \<Longrightarrow> s_out s' = s_out s \<or> s_state s' = Closed \<and> s_out s' = []"
  shows "out_kept written c c'"
proof -
  let ?R = "\<lambda>c c'. written (cl_transport c') = written (cl_transport c) \<and> s_out (cl_session c') = s_out (cl_session c)"
  have "\<exists>c1. ?R c c1 \<and> (on_session f c1 = (r, c') \<and> r \<noteq> Inr None \<or> c' = c1 \<and> (r = Inr None \<or> (\<exists>e b. r = Inl e \<and> on_stream (ingest io now) b = Some (Inl e, c'))))"
    by (rule pull_last [where R = ?R, OF assms(1)])
      (use idle ingest_kept [OF _ assms(2,3)] in \<open>auto simp: on_session_eq\<close>)
  then show ?thesis using f by (fastforce simp: out_kept_def on_session_eq)
qed

lemma out_kept_stream:
  "out_kept written c c' \<Longrightarrow> \<exists>cut. out_stream written c' @ cut = out_stream written c \<and> (cut \<noteq> [] \<longrightarrow> s_state (cl_session c') = Closed)"
  by (auto simp: out_kept_def out_stream_def)

lemma dispatch_stream_event:
  "dispatch_stream s = (Inr (Some (StreamedEvent ev)), s') \<Longrightarrow> ev = HeartbeatReceived \<or> ev = SoupEndOfSession"
proof (induction s rule: dispatch_stream.induct)
  case (1 s)
  show ?case
  proof (cases s rule: take_packet_cases)
    case (found ty bs rest)
    show ?thesis using 1(1) [OF found(2) [symmetric] refl refl refl] 1(2) found(2)
      by (cases ty) (auto simp: dispatch_stream.simps [of s] Let_def)
  qed (use 1(2) in \<open>auto simp: dispatch_stream.simps [of s]\<close>)
qed

lemma pull_event:
  assumes "pull (on_session dispatch_stream) (on_stream (ingest io now)) c = Some (Inr (Some (StreamedEvent ev)), c')"
  shows "ev = HeartbeatReceived \<or> ev = SoupEndOfSession"
proof -
  have "\<exists>c1. True \<and> (on_session dispatch_stream c1 = (Inr (Some (StreamedEvent ev)), c') \<and> Inr (Some (StreamedEvent ev)) \<noteq> (Inr None :: soup_error + streamed option)
      \<or> c' = c1 \<and> (Inr (Some (StreamedEvent ev)) = (Inr None :: soup_error + streamed option)
        \<or> (\<exists>e b. Inr (Some (StreamedEvent ev)) = (Inl e :: soup_error + streamed option) \<and> on_stream (ingest io now) b = Some (Inl e, c'))))"
    by (rule pull_last [where R = "\<lambda>_ _. True", OF assms]) simp_all
  then show ?thesis using dispatch_stream_event by (auto simp: on_session_eq)
qed

lemma poll_stream_out:
  assumes "poll_stream io now c = Some (Inr m, c')" "\<not> compressed io" "send_contract io written"
  shows "\<exists>cut. out_stream written c' @ cut = out_stream written c
           @ (if m = Some (MEvent HeartbeatSent) then packet_bytes PClientHeartbeat [] else [])
         \<and> (cut \<noteq> [] \<longrightarrow> s_state (cl_session c') = Closed)"
proof (cases "heartbeat_due now (cl_session c)")
  case True
  obtain c2 where q: "on_session queue_heartbeat c = (Inr (), c2)"
    and f: "on_stream (flush io now) c2 = Some (Inr (), c')" "m = Some (MEvent HeartbeatSent)"
    using assms(1) True by (auto simp: poll_stream_def split: option.split_asm sum.split_asm prod.split_asm)
  have "out_stream written c2 = out_stream written c @ packet_bytes PClientHeartbeat []"
    using q queue_ok [of PClientHeartbeat "[]" "cl_session c" "cl_session c2"]
    by (simp add: on_session_eq queue_heartbeat_def out_stream_def)
  with flush_out_client [OF f(1) assms(3)] f(2) show ?thesis by auto
next
  case False
  obtain x c2 where p: "pull (on_session dispatch_stream) (on_stream (ingest io now)) c = Some (Inr x, c2)"
    using assms(1) False by (auto simp: poll_stream_def split: option.split_asm sum.split_asm)
  have "out_kept written c c2"
    by (rule pull_kept [OF p assms(2,3)])
      (use dispatch_stream_partial dispatch_stream_kept in \<open>fastforce+\<close>)
  then have "out_kept written c c' \<and> m \<noteq> Some (MEvent HeartbeatSent)"
    using assms(1) False p pull_event [of io now c _ c2]
    by (cases x) (auto simp: poll_stream_def out_kept_def heartbeat_timed_out_def on_session_def streamed_message_def
        split: if_split_asm streamed.split_asm)
  then show ?thesis using out_kept_stream by auto
qed

lemma poll_out:
  assumes "soup_poll io now c = Some (Inr m, c')" "\<not> compressed io" "send_contract io written"
  shows "\<exists>cut. out_stream written c' @ cut = out_stream written c
           @ (if m = Some (MEvent HeartbeatSent) then packet_bytes PClientHeartbeat [] else [])
         \<and> (cut \<noteq> [] \<longrightarrow> s_state (cl_session c') = Closed)"
    and "s_state (cl_session c) = Closed \<Longrightarrow> m = None \<and> s_state (cl_session c') = Closed \<and> out_stream written c' = out_stream written c"
proof -
  obtain c1 where f: "on_stream (flush io now) c = Some (Inr (), c1)"
    using assms(1) by (auto simp: soup_poll_def split: option.split_asm sum.split_asm)
  note fl = flush_out_client [OF f assms(3)]
  show closed: "m = None \<and> s_state (cl_session c') = Closed \<and> out_stream written c' = out_stream written c"
    if "s_state (cl_session c) = Closed"
    using that assms(1) f fl by (auto simp: soup_poll_def split: if_split_asm)
  show "\<exists>cut. out_stream written c' @ cut = out_stream written c
           @ (if m = Some (MEvent HeartbeatSent) then packet_bytes PClientHeartbeat [] else [])
         \<and> (cut \<noteq> [] \<longrightarrow> s_state (cl_session c') = Closed)"
  proof (cases "s_state (cl_session c)")
    case Closed
    from closed [OF this] show ?thesis by auto
  next
    case Streaming
    then have "poll_stream io now c1 = Some (Inr m, c')" using assms(1) f fl by (simp add: soup_poll_def)
    from poll_stream_out [OF this assms(2,3)] fl show ?thesis by simp
  next
    case Authenticating
    then have l: "poll_login io now c1 = Some (Inr m, c')" using assms(1) f fl by (simp add: soup_poll_def)
    then obtain x where p: "pull (on_session (dispatch_login now)) (on_stream (ingest io now)) c1 = Some (Inr x, c')"
      and "m \<noteq> Some (MEvent HeartbeatSent)"
      by (auto simp: poll_login_def login_message_def split: option.split_asm sum.split_asm if_split_asm login.split_asm prod.split_asm)
    moreover have "out_kept written c1 c'"
      by (rule pull_kept [OF p assms(2,3)]) (use dispatch_login_kept in \<open>blast+\<close>)
    ultimately show ?thesis using out_kept_stream [of written c1 c'] fl by auto
  qed
qed


text \<open>A transport that remembers what it was given and takes three bytes at a time.\<close>

definition slow_io :: "(bytes, unit) stream_io" where
  "slow_io = \<lparr>compressed = False, recv_into = (\<lambda>t n. (Inr [], t)),
     try_send = (\<lambda>t buf. (Inr (min 3 (length buf)), t @ take (min 3 (length buf)) buf)), reserve_spare = (\<lambda>buf n. n), inflate_ops = demo_ops\<rparr>"

lemma slow_io_contract: "\<not> compressed slow_io" "send_contract slow_io (\<lambda>t. t)"
  by (auto simp: slow_io_def send_contract_def)


end
