(* ===== verification/Soup_Lifecycle.thy ===== *)
theory Soup_Lifecycle
  imports Soup_Outbound
begin

text \<open>
  The lifecycle of a SoupBinTCP session as the synchronous driver runs it: an abstract automaton over
  \<open>client_state\<close> that every \<^verbatim>\<open>poll\<close> follows, what a login answer means, and the deadline a parked caller
  waits for.
\<close>

section \<open>The automaton\<close>

fun next_state :: "client_state \<Rightarrow> soup_error + soup_message option \<Rightarrow> client_state" where
  "next_state Authenticating (Inr (Some (MEvent (LoginAccepted _ _)))) = Streaming"
| "next_state Authenticating (Inr (Some (MEvent (LoginRejected _)))) = Closed"
| "next_state Authenticating (Inl (LoginTimeout _)) = Closed"
| "next_state Streaming (Inr (Some (MEvent SoupEndOfSession))) = Closed"
| "next_state Streaming (Inr (Some (MEvent HeartbeatTimeout))) = Closed"
| "next_state st _ = st"

lemma flush_state: "flush io now t s = Some (r, t', s') \<Longrightarrow> s_state s' = s_state s \<and> decode_buf s' = decode_buf s
    \<and> (\<forall>e. r = Inl e \<longrightarrow> (\<exists>x. e = SoupTransport x))"
proof (induction io now t s rule: flush.induct)
  case (1 io now t s)
  obtain rr t1 where q: "try_send io t (s_out s) = (rr, t1)" by (rule prod.exhaust)
  show ?case
  proof (cases "s_out s = [] \<or> (\<exists>e. rr = Inl e) \<or> rr = Inr 0")
    case True
    then show ?thesis using 1(2) q by (auto simp: flush.simps [of io now t s] split: if_split_asm)
  next
    case False
    then obtain n where n: "rr = Inr n" "n \<noteq> 0" by (cases rr) auto
    let ?s1 = "s\<lparr>s_out := drop n (s_out s)\<rparr>"
    let ?s2 = "if s_out ?s1 = [] then ?s1\<lparr>last_send := now\<rparr> else ?s1"
    have len: "\<not> length (s_out s) < n" "s_out s \<noteq> []" and rec: "flush io now t1 ?s2 = Some (r, t', s')"
      using 1(2) q n False by (auto simp: flush.simps [of io now t s] Let_def split: if_split_asm)
    from 1(1) [OF len(2) q [symmetric] n(1) n(2) len(1) refl refl rec] show ?thesis
      by (simp split: if_split_asm)
  qed
qed

lemma flush_client_state:
  "on_stream (flush io now) c = Some (r, c') \<Longrightarrow> s_state (cl_session c') = s_state (cl_session c)
     \<and> decode_buf (cl_session c') = decode_buf (cl_session c) \<and> (\<forall>e. r = Inl e \<longrightarrow> (\<exists>x. e = SoupTransport x))"
  by (auto simp: on_stream_Some dest: flush_state)

text \<open>Errors of the inbound path.\<close>

definition inbound_error :: "soup_error \<Rightarrow> bool" where
  "inbound_error e \<longleftrightarrow> (\<forall>d. e \<noteq> LoginTimeout d)"

lemma inbound_error_simps [simp]:
  "inbound_error (ProtocolViolation v)" "inbound_error (SoupTransport x)" "inbound_error (FrameTooLarge m n)"
  "inbound_error (UnknownPacketType b)" "\<not> inbound_error (LoginTimeout d)"
  by (simp_all add: inbound_error_def)

lemma feed_loop_error:
  assumes "feed_loop ops input si so consumed r = Some (Inl e, r')"
  shows "e = ProtocolViolation InflateFailed"
proof -
  let ?P = "\<lambda>_ _ _ _ _ _ (res :: soup_error + nat, _). \<forall>e. res = Inl e \<longrightarrow> e = ProtocolViolation InflateFailed"
  have "?P ops input si so consumed r (Inl e, r')"
    by (rule feed_loop.raw_induct [where P = ?P, OF _ assms])
      (auto simp: Let_def split: prod.split_asm sum.split_asm if_split_asm)
  then show ?thesis by simp
qed

lemma ingest_state:
  assumes "on_stream (ingest io now) c = Some (r, c')"
  shows "s_state (cl_session c') = s_state (cl_session c) \<and> (\<forall>e. r = Inl e \<longrightarrow> inbound_error e)"
proof -
  have step: "s_state s' = s_state s \<and> (\<forall>e. r = Inl e \<longrightarrow> inbound_error e)"
    if "inflate_step io t s = Some (r, t', s')" for t s r t' s'
    using that
    by (auto simp: inflate_step_def feed_def Let_def dest: feed_loop_error
        split: option.split_asm sum.split_asm if_split_asm prod.split_asm)
  have land: "r = Inl e \<Longrightarrow> inbound_error e" if "land io t buf n = (r, t', buf')" for t buf n r t' buf' e
    using that by (auto simp: land_def split: prod.split_asm sum.split_asm)
  show ?thesis
    using assms
    by (auto simp: on_stream_def ingest_def Let_def dest: step land
        split: prod.split_asm sum.split_asm if_split_asm option.split_asm)
qed

lemma take_packet_error: "take_packet s = (Inl e, s') \<Longrightarrow> inbound_error e \<and> s_state s' = s_state s"
  by (auto simp: take_packet_def parse_packet_def packet_type_of_def Let_def
      split: option.split_asm sum.split_asm if_split_asm prod.split_asm)

lemma dispatch_stream_state:
  "dispatch_stream s = (r, s') \<Longrightarrow>
     (case r of Inl e \<Rightarrow> inbound_error e \<and> s_state s' = s_state s
      | Inr None \<Rightarrow> s_state s' = s_state s
      | Inr (Some (StreamedData q)) \<Rightarrow> s_state s' = s_state s
      | Inr (Some (StreamedEvent ev)) \<Rightarrow> ev = HeartbeatReceived \<and> s_state s' = s_state s
          \<or> ev = SoupEndOfSession \<and> s_state s' = Closed)"
proof (induction s rule: dispatch_stream.induct)
  case (1 s)
  show ?case
  proof (cases s rule: take_packet_cases)
    case (found ty bs rest)
    show ?thesis
    proof (cases "ty = PDebug")
      case True
      then have "dispatch_stream (s\<lparr>decode_buf := rest\<rparr>) = (r, s')"
        using 1(2) found(2) by (simp add: dispatch_stream.simps [of s])
      from 1(1) [OF found(2) [symmetric] refl refl refl True this] show ?thesis
        by (simp cong del: sum.case_cong_weak option.case_cong_weak streamed.case_cong_weak)
    next
      case False
      then show ?thesis using 1(2) found(2) by (cases ty) (auto simp: dispatch_stream.simps [of s] Let_def)
    qed
  next
    case (error e)
    then have "r = Inl e" "s' = s" using 1(2) by (simp_all add: dispatch_stream.simps [of s])
    then show ?thesis using take_packet_error [OF error(2)] by simp
  next
    case partial
    then have "r = Inr None" "s' = s" using 1(2) by (simp_all add: dispatch_stream.simps [of s])
    then show ?thesis by simp
  qed
qed

lemma parse_login_accepted_error: "parse_login_accepted bs = Inl e \<Longrightarrow> inbound_error e"
  by (auto simp: parse_login_accepted_def parse_ascii_numeric_def parse_ascii_field_def
      split: option.split_asm sum.split_asm if_split_asm)

lemma parse_ascii_field_error: "parse_ascii_field bs = Inl e \<Longrightarrow> inbound_error e"
  by (auto simp: parse_ascii_field_def split: option.split_asm)

lemma dispatch_login_state:
  "dispatch_login now s = (r, s') \<Longrightarrow>
     (case r of Inl e \<Rightarrow> inbound_error e \<and> s_state s' = s_state s
      | Inr None \<Rightarrow> s_state s' = s_state s
      | Inr (Some (LoginOk sess sq)) \<Rightarrow> s_state s' = Streaming \<and> next_expected_sequence s' = sq
      | Inr (Some (LoginRefused reason)) \<Rightarrow> s_state s' = Closed)"
proof (induction now s rule: dispatch_login.induct)
  case (1 now s)
  show ?case
  proof (cases s rule: take_packet_cases)
    case (found ty bs rest)
    show ?thesis
    proof (cases "ty = PDebug \<or> ty = PServerHeartbeat")
      case True
      then have "dispatch_login now (s\<lparr>decode_buf := rest\<rparr>) = (r, s')"
        using 1(3) found(2) by (auto simp: dispatch_login.simps [of now s])
      with 1(1,2) [OF found(2) [symmetric] refl refl refl] True show ?thesis
        by (elim disjE) (simp_all cong del: sum.case_cong_weak option.case_cong_weak login.case_cong_weak)
    next
      case False
      then show ?thesis using 1(3) found(2) parse_login_accepted_error [of bs] parse_ascii_field_error
        by (cases ty) (auto simp: dispatch_login.simps [of now s] split: sum.split_asm list.split_asm)
    qed
  next
    case (error e)
    then have "r = Inl e" "s' = s" using 1(3) by (simp_all add: dispatch_login.simps [of now s])
    then show ?thesis using take_packet_error [OF error(2)] by simp
  next
    case partial
    then have "r = Inr None" "s' = s" using 1(3) by (simp_all add: dispatch_login.simps [of now s])
    then show ?thesis by simp
  qed
qed

lemma pull_result:
  assumes "pull (on_session f) (on_stream (ingest io now)) c = Some (r, c')"
    and "\<And>s s'. f s = (Inr None, s') \<Longrightarrow> s_state s' = s_state s"
  shows "(\<exists>s. f s = (r, cl_session c') \<and> r \<noteq> Inr None \<and> s_state s = s_state (cl_session c))
       \<or> s_state (cl_session c') = s_state (cl_session c) \<and> (r = Inr None \<or> (\<exists>e. r = Inl e \<and> inbound_error e))"
proof -
  let ?R = "\<lambda>a b. s_state (cl_session b) = s_state (cl_session a)"
  have "\<exists>c1. ?R c c1 \<and> (on_session f c1 = (r, c') \<and> r \<noteq> Inr None
      \<or> c' = c1 \<and> (r = Inr None \<or> (\<exists>e b. r = Inl e \<and> on_stream (ingest io now) b = Some (Inl e, c'))))"
    by (rule pull_last [where R = ?R, OF assms(1)])
      (use assms(2) ingest_state [of io now] in \<open>force simp: on_session_eq\<close>)+
  then show ?thesis using ingest_state [of io now _ _ c'] by (fastforce simp: on_session_eq)
qed

lemma poll_login_state:
  assumes "poll_login io now c = Some (r, c')" "s_state (cl_session c) = Authenticating"
  shows "s_state (cl_session c') = next_state Authenticating r"
proof -
  obtain x c1 where p: "pull (on_session (dispatch_login now)) (on_stream (ingest io now)) c = Some (x, c1)"
    using assms(1) by (auto simp: poll_login_def split: option.split_asm)
  have idle: "dispatch_login now s = (Inr None, s') \<Longrightarrow> s_state s' = s_state s" for s s' :: "'b session"
    using dispatch_login_state [of now s "Inr None" s'] by simp
  note res = pull_result [OF p idle]
  show ?thesis
  proof (cases x)
    case (Inl e)
    then have "r = Inl e" "c' = c1" using assms(1) p by (simp_all add: poll_login_def)
    moreover have "inbound_error e \<and> s_state (cl_session c1) = Authenticating"
      using res assms(2) Inl dispatch_login_state [of now _ x "cl_session c1"] by auto
    ultimately show ?thesis by (cases e) auto
  next
    case (Inr y)
    show ?thesis
    proof (cases y)
      case None
      then have "s_state (cl_session c1) = Authenticating" using res Inr assms(2) by simp
      then show ?thesis using assms(1) p Inr None
        by (auto simp: poll_login_def on_session_def login_timed_out_def split: if_split_asm)
    next
      case (Some l)
      then have "r = Inr (Some (login_message l))" "c' = c1" using assms(1) p Inr by (auto simp: poll_login_def)
      moreover obtain s where "dispatch_login now s = (Inr (Some l), cl_session c1)" using res Inr Some by auto
      ultimately show ?thesis using dispatch_login_state [of now s "Inr (Some l)" "cl_session c1"]
        by (cases l) (simp_all add: login_message_def)
    qed
  qed
qed

lemma poll_stream_state:
  assumes "poll_stream io now c = Some (r, c')" "s_state (cl_session c) = Streaming"
  shows "s_state (cl_session c') = next_state Streaming r"
proof (cases "heartbeat_due now (cl_session c)")
  case True
  obtain rq c1 where q: "on_session queue_heartbeat c = (rq, c1)" by (rule prod.exhaust)
  have "rq = Inr ()" "s_state (cl_session c1) = Streaming"
    using q assms(2) by (auto simp: on_session_def queue_heartbeat_def queue_def)
  then show ?thesis using assms(1) True q flush_client_state [of io now c1]
    by (auto simp: poll_stream_def split: option.split_asm sum.split_asm)
next
  case False
  obtain x c1 where p: "pull (on_session dispatch_stream) (on_stream (ingest io now)) c = Some (x, c1)"
    using assms(1) False by (auto simp: poll_stream_def split: option.split_asm)
  have idle: "dispatch_stream s = (Inr None, s') \<Longrightarrow> s_state s' = s_state s" for s s' :: "'b session"
    using dispatch_stream_state [of s "Inr None" s'] by simp
  note res = pull_result [OF p idle]
  show ?thesis
  proof (cases x)
    case (Inl e)
    then have "r = Inl e" "c' = c1" using assms(1) p False by (simp_all add: poll_stream_def)
    moreover have "s_state (cl_session c1) = Streaming"
      using res assms(2) Inl dispatch_stream_state [of _ x "cl_session c1"] by auto
    ultimately show ?thesis by simp
  next
    case (Inr y)
    show ?thesis
    proof (cases y)
      case None
      then have "s_state (cl_session c1) = Streaming" using res Inr assms(2) by simp
      then show ?thesis using assms(1) p Inr None False
        by (auto simp: poll_stream_def on_session_def heartbeat_timed_out_def split: if_split_asm)
    next
      case (Some z)
      then have "r = Inr (Some (streamed_message z c1))" "c' = c1" using assms(1) p Inr False by (auto simp: poll_stream_def)
      moreover obtain s where "dispatch_stream s = (Inr (Some z), cl_session c1)" "s_state s = Streaming"
        using res Inr Some assms(2) by auto
      ultimately show ?thesis using dispatch_stream_state [of s "Inr (Some z)" "cl_session c1"]
        by (cases z) (auto simp: streamed_message_def)
    qed
  qed
qed

text \<open>
  C25. Every \<^verbatim>\<open>poll\<close> moves the session along one automaton, whatever the transport does: an accepted login
  starts streaming, a rejected or timed-out login closes, the server's end of session and a heartbeat timeout
  close, and nothing else changes the state. A closed session hands out nothing: it drops no buffered bytes,
  reports the end of the session once its writes are out, and stays closed.
\<close>

theorem poll_lifecycle:
  assumes "soup_poll io now c = Some (r, c')"
  shows "s_state (cl_session c') = next_state (s_state (cl_session c)) r
    \<and> (s_state (cl_session c) = Closed \<longrightarrow> decode_buf (cl_session c') = decode_buf (cl_session c)
         \<and> (r = Inl SessionEnded \<and> s_out (cl_session c') = [] \<or> r = Inr None \<and> s_out (cl_session c') \<noteq> []
            \<or> (\<exists>x. r = Inl (SoupTransport x))))"
proof -
  obtain rf c1 where f: "on_stream (flush io now) c = Some (rf, c1)"
    using assms by (auto simp: soup_poll_def split: option.split_asm)
  note fl = flush_client_state [OF f]
  show ?thesis
  proof (cases rf)
    case (Inl e)
    then have "r = Inl e" "c' = c1" using assms f by (simp_all add: soup_poll_def)
    then show ?thesis using fl Inl by (cases "s_state (cl_session c)") auto
  next
    case (Inr u)
    show ?thesis
    proof (cases "s_state (cl_session c)")
      case Authenticating
      then have "poll_login io now c1 = Some (r, c')" using assms f fl Inr by (simp add: soup_poll_def)
      from poll_login_state [OF this] fl Authenticating show ?thesis by simp
    next
      case Streaming
      then have "poll_stream io now c1 = Some (r, c')" using assms f fl Inr by (simp add: soup_poll_def)
      from poll_stream_state [OF this] fl Streaming show ?thesis by simp
    next
      case Closed
      then show ?thesis using assms f fl Inr by (auto simp: soup_poll_def split: if_split_asm)
    qed
  qed
qed

theorem poll_lifecycle_witness:
  "s_state (cl_session demo_after)
     = next_state (s_state (cl_session demo_client)) (Inr (Some (MData \<lparr>sf_payload = [7], sf_sequence = 5\<rparr>)))"
  using poll_lifecycle [OF demo_poll_data] by simp

section \<open>Login\<close>

text \<open>The first packet of a byte stream that answers a login, and the bytes behind it.\<close>

function first_answer :: "nat \<Rightarrow> bytes \<Rightarrow> (packet_type \<times> bytes \<times> bytes) option" where
  "first_answer limit buf =
     (case next_packet limit buf of
        Inr (Some ((ty, bs), rest)) \<Rightarrow>
          if ty = PDebug \<or> ty = PServerHeartbeat then first_answer limit rest else Some (ty, bs, rest)
      | _ \<Rightarrow> None)"
  by pat_completeness auto
termination
  by (relation "measure (\<lambda>(_, buf). length buf)") (auto dest: next_packet_shrinks)

declare first_answer.simps [simp del]

lemma dispatch_login_accepted:
  "dispatch_login now s = (Inr (Some (LoginOk sess sq)), s') \<Longrightarrow>
     \<exists>bs name. first_answer (limit_of s) (decode_buf s) = Some (PLoginAccepted, bs, decode_buf s')
       \<and> parse_login_accepted bs = Inr (sess, sq) \<and> parse_ascii_field sess = Inr name \<and> assigned_id s' = name
       \<and> next_expected_sequence s' = sq"
proof (induction now s rule: dispatch_login.induct)
  case (1 now s)
  let ?b = "decode_buf s"
  show ?case
  proof (cases s rule: take_packet_cases)
    case (found ty bs rest)
    show ?thesis
    proof (cases "ty = PDebug \<or> ty = PServerHeartbeat")
      case True
      then have "dispatch_login now (s\<lparr>decode_buf := rest\<rparr>) = (Inr (Some (LoginOk sess sq)), s')"
        using 1(3) found(2) by (auto simp: dispatch_login.simps [of now s])
      moreover have "first_answer (limit_of s) ?b = first_answer (limit_of s) rest"
        using True found(1) by (simp add: first_answer.simps [of _ ?b])
      ultimately show ?thesis using 1(1,2) [OF found(2) [symmetric] refl refl refl] True by auto
    next
      case False
      then show ?thesis using 1(3) found
        by (cases ty) (auto simp: dispatch_login.simps [of now s] first_answer.simps [of _ ?b] split: sum.split_asm list.split_asm)
    qed
  qed (use 1(3) in \<open>simp_all add: dispatch_login.simps [of now s]\<close>)
qed

lemma pull_accepted_state:
  assumes "pull (on_session (dispatch_login now)) (on_stream (ingest io now)) c = Some (Inr (Some (LoginOk sess sq)), c')"
  shows "s_state (cl_session c') = Streaming"
proof -
  have idle: "dispatch_login now s = (Inr None, s') \<Longrightarrow> s_state s' = s_state s" for s s' :: "'b session"
    using dispatch_login_state [of now s "Inr None" s'] by simp
  obtain s where "dispatch_login now s = (Inr (Some (LoginOk sess sq)), cl_session c')"
    using pull_result [OF assms idle] by auto
  from dispatch_login_state [OF this] show ?thesis by simp
qed


text \<open>A server that accepts the login and assigns the next sequence number 5.\<close>

definition demo_accept :: bytes where
  "demo_accept = replicate 10 83 @ ascii_right_justify [] (u64_to_string 5) 20 @ []"

definition demo_login :: "(bytes, unit) client" where
  "demo_login = \<lparr>cl_transport = packet_bytes PLoginAccepted demo_accept, cl_session = demo_session\<rparr>"

definition demo_logged_in :: "(bytes, unit) client" where
  "demo_logged_in = \<lparr>cl_transport = [], cl_session = demo_session\<lparr>s_state := Streaming, next_expected_sequence := 5,
     assigned_id := replicate 10 83\<rparr>\<rparr>"

lemma demo_login_dispatch:
  "dispatch_login 0 (demo_session\<lparr>decode_buf := packet_bytes PLoginAccepted demo_accept\<rparr>)
     = (Inr (Some (LoginOk (replicate 10 83) 5)), cl_session demo_logged_in)"
proof -
  have len: "length demo_accept = 30" by (simp add: demo_accept_def)
  have np: "next_packet (max_frame_size soup_config_default) (packet_bytes PLoginAccepted demo_accept)
      = Inr (Some ((PLoginAccepted, demo_accept), []))"
    using next_packet_bytes [of demo_accept "max_frame_size soup_config_default" PLoginAccepted "[]"] len
    by (simp add: soup_config_default_def)
  have pl: "parse_login_accepted demo_accept = Inr (replicate 10 83, 5)"
    unfolding demo_accept_def by (rule parse_login_accepted_padded) simp
  have "trim (map unat (replicate 10 (83 :: u8))) = replicate 10 83"
    using trim_padded [of "replicate 10 83" 0] by (simp add: is_whitespace_def)
  then have pf: "parse_ascii_field (replicate 10 83) = Inr (replicate 10 83)"
    by (simp add: parse_ascii_field_def from_utf8_ascii)
  show ?thesis
    by (simp add: dispatch_login.simps take_packet_eq np pl pf demo_logged_in_def demo_session_def session_new_def)
qed

lemma demo_login_poll:
  "soup_poll demo_io 0 demo_login = Some (Inr (Some (MEvent (LoginAccepted (replicate 10 83) 5))), demo_logged_in)"
proof -
  have st: "s_state demo_session = Authenticating" by (simp add: demo_session_def session_new_def)
  have len: "length (packet_bytes PLoginAccepted demo_accept) = 33"
    by (simp add: packet_bytes_def demo_accept_def)
  let ?c1 = "\<lparr>cl_transport = [], cl_session = demo_session\<lparr>decode_buf := packet_bytes PLoginAccepted demo_accept\<rparr>\<rparr> :: (bytes, unit) client"
  have idle: "on_session (dispatch_login 0) demo_login = (Inr None, demo_login)"
    by (simp add: on_session_def demo_login_def dispatch_login.simps [of 0 demo_session] take_packet_eq next_packet_def parse_packet_def)
  have ing: "on_stream (ingest demo_io 0) demo_login = Some (Inr True, ?c1)"
    using len by (simp add: on_stream_def ingest_def land_def demo_io_def demo_login_def soup_config_default_def Let_def)
  have acc: "on_session (dispatch_login 0) ?c1 = (Inr (Some (LoginOk (replicate 10 83) 5)), demo_logged_in)"
    by (simp add: on_session_def demo_login_dispatch) (simp add: demo_logged_in_def)
  have "pull (on_session (dispatch_login 0)) (on_stream (ingest demo_io 0)) demo_login
      = Some (Inr (Some (LoginOk (replicate 10 83) 5)), demo_logged_in)"
    by (subst pull.simps, simp add: idle ing) (subst pull.simps, simp add: acc)
  then show ?thesis
    by (simp add: soup_poll_def on_stream_def flush.simps demo_login_def st poll_login_def login_message_def)
qed


section \<open>Deadlines\<close>

text \<open>A transport with nothing to read.\<close>

definition quiet :: "('t, 'z) stream_io \<Rightarrow> bool" where
  "quiet io \<longleftrightarrow> (\<forall>t n. recv_into io t n = (Inr [], t))"

lemma pull_quiet:
  assumes "quiet io" "\<not> compressed io" "f (cl_session c) = (Inr None, cl_session c)"
  shows "pull (on_session f) (on_stream (ingest io now)) c = Some (Inr None, c)"
proof -
  have "on_stream (ingest io now) c = Some (Inr False, c)"
    using assms(1,2) by (simp add: on_stream_def ingest_def land_def quiet_def Let_def)
  then show ?thesis by (subst pull.simps) (simp add: assms(3) on_session_def)
qed

text \<open>The deadline has not passed, as each state reads it.\<close>

definition on_time :: "instant \<Rightarrow> 'z session \<Rightarrow> bool" where
  "on_time now s \<longleftrightarrow> (if s_state s = Authenticating then now < next_deadline s else now \<le> next_deadline s)"



end
