(* ===== verification/Soup_Inflate.thy ===== *)
theory Soup_Inflate
  imports Soup_Session
begin

text \<open>
  The zlib reader \<^verbatim>\<open>CompressedReader\<close> of \<^verbatim>\<open>crates/clients/soupbintcp/src/compressed.rs\<close> over the
  documented behaviour of \<^verbatim>\<open>flate2::Decompress\<close>: a call writes no more than the space it is given,
  reads no more than its input, and its two totals advance by what it read and wrote. One \<^verbatim>\<open>feed\<close> then
  returns, moves no more than its bounds, and hands out exactly the bytes the inflator wrote.
\<close>

definition decompress_contract :: "'z inflate_ops \<Rightarrow> bool" where
  "decompress_contract ops \<longleftrightarrow>
     (\<forall>z input space res bs z'. decompress ops z input space = (res, bs, z') \<longrightarrow>
        length bs \<le> space \<and> total_out ops z' = total_out ops z + of_nat (length bs)
        \<and> (\<exists>k \<le> length input. total_in ops z' = total_in ops z + of_nat k))"

lemma decompress_contractD:
  assumes "decompress_contract ops" "decompress ops z input space = (res, bs, z')"
  obtains k where "length bs \<le> space" "total_out ops z' = total_out ops z + of_nat (length bs)"
    "k \<le> length input" "total_in ops z' = total_in ops z + of_nat k"
  using assms unfolding decompress_contract_def by blast

text \<open>\<open>inflates ops input z k out z'\<close>: a run of calls from \<open>z\<close> to \<open>z'\<close> read the first \<open>k\<close> bytes of \<open>input\<close> and wrote \<open>out\<close>.\<close>

inductive inflates :: "'z inflate_ops \<Rightarrow> bytes \<Rightarrow> 'z \<Rightarrow> nat \<Rightarrow> bytes \<Rightarrow> 'z \<Rightarrow> bool" for ops input z where
  none: "inflates ops input z 0 [] z"
| call: "inflates ops input z k out z1 \<Longrightarrow> decompress ops z1 (drop k input) space = (Inr status, bs, z2)
    \<Longrightarrow> j \<le> length input - k \<Longrightarrow> total_in ops z2 = total_in ops z1 + of_nat j
    \<Longrightarrow> inflates ops input z (k + j) (out @ bs) z2"

lemma moved_by:
  assumes "tot = start + of_nat n" "n \<le> limit" "limit < 2 ^ 64"
  shows "moved tot start limit = n"
  using assms by (simp add: moved_def unat_of_nat)

text \<open>What holds at the head of the loop.\<close>

definition feeding :: "'z inflate_ops \<Rightarrow> bytes \<Rightarrow> 'z \<Rightarrow> nat \<Rightarrow> nat \<Rightarrow> 'z compressed_reader \<Rightarrow> bool" where
  "feeding ops input z cap consumed r \<longleftrightarrow>
     consumed \<le> length input \<and> produced r \<le> length (cr_out r) \<and> length (cr_out r) = cap
     \<and> total_in ops (inflator r) = total_in ops z + of_nat consumed
     \<and> total_out ops (inflator r) = total_out ops z + of_nat (produced r)
     \<and> inflates ops input z consumed (take (produced r) (cr_out r)) (inflator r)"

lemma take_write_out_at: "k \<le> length xs \<Longrightarrow> take (k + length bs) (write_out_at k bs xs) = take k xs @ bs"
  by (simp add: write_out_at_def)

lemma length_write_out_at: "k + length bs \<le> length xs \<Longrightarrow> length (write_out_at k bs xs) = length xs"
  by (simp add: write_out_at_def)

lemma feeding_call:
  assumes C: "decompress_contract ops" and F: "feeding ops input z cap consumed r"
    and small: "length input < 2 ^ 64" "cap < 2 ^ 64"
    and D: "decompress ops (inflator r) (drop consumed input) (length (cr_out r) - produced r) = (Inr status, bs, z')"
  defines "k \<equiv> moved (total_in ops z') (total_in ops z) (length input)"
    and "p \<equiv> moved (total_out ops z') (total_out ops z) (length (cr_out r))"
  shows "feeding ops input z cap k (r\<lparr>inflator := z', cr_out := write_out_at (produced r) bs (cr_out r), produced := p\<rparr>)"
    and "consumed \<le> k" "produced r \<le> p"
proof -
  obtain j where c: "length bs \<le> length (cr_out r) - produced r"
      "total_out ops z' = total_out ops (inflator r) + of_nat (length bs)"
      "j \<le> length input - consumed" "total_in ops z' = total_in ops (inflator r) + of_nat j"
    using decompress_contractD [OF C D] by (metis length_drop)
  have f: "consumed \<le> length input" "produced r \<le> length (cr_out r)" "length (cr_out r) = cap"
      "total_in ops (inflator r) = total_in ops z + of_nat consumed"
      "total_out ops (inflator r) = total_out ops z + of_nat (produced r)"
      "inflates ops input z consumed (take (produced r) (cr_out r)) (inflator r)"
    using F unfolding feeding_def by blast+
  have k: "k = consumed + j" unfolding k_def by (rule moved_by) (use c f small in \<open>simp_all add: add.assoc\<close>)
  have p: "p = produced r + length bs" unfolding p_def by (rule moved_by) (use c f small in \<open>simp_all add: add.assoc\<close>)
  show "consumed \<le> k" "produced r \<le> p" by (simp_all add: k p)
  show "feeding ops input z cap k (r\<lparr>inflator := z', cr_out := write_out_at (produced r) bs (cr_out r), produced := p\<rparr>)"
    using c f inflates.call [OF f(6) D c(3,4)]
    by (simp add: feeding_def k p take_write_out_at length_write_out_at) linarith
qed

lemma feed_loop_returns:
  assumes C: "decompress_contract ops" and small: "length input < 2 ^ 64" "cap < 2 ^ 64"
  shows "feeding ops input z cap consumed r \<Longrightarrow>
    \<exists>res r'. feed_loop ops input (total_in ops z) (total_out ops z) consumed r = Some (res, r') \<and> length (cr_out r') = cap
      \<and> (\<forall>n. res = Inr n \<longrightarrow> n \<le> length input \<and>
            (\<exists>k. (n = k \<or> n = length input) \<and> feeding ops input z cap k r'))"
proof (induction "(length input - consumed) + (cap - produced r)" arbitrary: consumed r rule: less_induct)
  case less
  note F = less.prems
  have cap: "length (cr_out r) = cap" "produced r \<le> cap" "consumed \<le> length input" using F by (auto simp: feeding_def)
  show ?case
  proof (cases "produced r < length (cr_out r)")
    case False
    then show ?thesis using F cap by (subst feed_loop.simps) auto
  next
    case room: True
    obtain res bs z' where D: "decompress ops (inflator r) (drop consumed input) (length (cr_out r) - produced r) = (res, bs, z')"
      by (metis prod_cases3)
    have len: "length (write_out_at (produced r) bs (cr_out r)) = cap"
      using decompress_contractD [OF C D] room cap by (metis length_write_out_at less_imp_le_nat le_diff_conv2 add.commute)
    show ?thesis
    proof (cases res)
      case (Inl e)
      then show ?thesis using room D len by (subst feed_loop.simps) simp
    next
      case (Inr status)
      let ?k = "moved (total_in ops z') (total_in ops z) (length input)"
      let ?p = "moved (total_out ops z') (total_out ops z) (length (cr_out r))"
      let ?r = "r\<lparr>inflator := z', cr_out := write_out_at (produced r) bs (cr_out r), produced := ?p\<rparr>"
      note step = feeding_call [OF C F small D [unfolded Inr]]
      have ub: "?k \<le> length input" "?p \<le> cap" using step(1) by (auto simp: feeding_def)
      have unfold: "feed_loop ops input (total_in ops z) (total_out ops z) consumed r =
          (if status = StatusStreamEnd then Some (Inr (length input), ?r)
           else if ?k = consumed \<and> ?p = produced r then Some (Inr ?k, ?r)
           else feed_loop ops input (total_in ops z) (total_out ops z) ?k ?r)"
        by (subst feed_loop.simps) (simp add: room D Inr Let_def)
      show ?thesis
      proof (cases "status = StatusStreamEnd \<or> (?k = consumed \<and> ?p = produced r)")
        case True
        then show ?thesis using step(1) len ub unfolding unfold by (auto simp: feeding_def)
      next
        case False
        then have "(length input - ?k) + (cap - produced ?r) < (length input - consumed) + (cap - produced r)"
          using step(2,3) ub by auto
        from less.hyps [OF this step(1)] show ?thesis
          unfolding unfold using False by (simp only: de_Morgan_disj if_False)
      qed
    qed
  qed
qed


text \<open>A stored (uncompressed) block: the inflator copies its input.\<close>

definition copy_ops :: "(u64 \<times> u64) inflate_ops" where
  "copy_ops = \<lparr>total_in = fst, total_out = snd,
     decompress = (\<lambda>(i, out) input space. let bs = take space input
       in (Inr StatusOk, bs, (i + of_nat (length bs), out + of_nat (length bs))))\<rparr>"


end
