(* ===== verification/Pools.thy ===== *)
theory Pools
  imports Transport_Core "HOL-Library.Multiset"
begin

text \<open>
  Buffer pools of \<^verbatim>\<open>crates/transports/core/src/pool\<close>: the page-aligned \<^verbatim>\<open>Region\<close>
  (\<^verbatim>\<open>region.rs\<close>), the fixed-stride \<^verbatim>\<open>IndexPool\<close> of the kernel-bypass drivers (\<^verbatim>\<open>index.rs\<close>)
  and the slab pool \<^verbatim>\<open>VecPool\<close> of the socket backends (\<^verbatim>\<open>vec.rs\<close>, \<^verbatim>\<open>backend.rs\<close>).

  A region is a memory \<open>nat \<Rightarrow> u8\<close> of a given size. The strong count of the pool's \<^verbatim>\<open>Arc\<close> is one for the
  pool and one for each live frame, so a pool records its live frames. The allocator is the
  parameter \<open>alloc\<close>: \<open>alloc i n\<close> says whether the \<open>i\<close>-th request of a constructor, for \<open>n\<close> bytes, is
  granted. A mutex guards single pushes, pops and swaps, so each is one step.
\<close>

section \<open>Region\<close>

definition ALIGN :: nat where
  "ALIGN = 64 * 1024"

definition isize_max :: nat where
  "isize_max = 2 ^ 63 - 1"

record region =
  rg_bytes :: "nat \<Rightarrow> u8"
  rg_size :: nat

definition checked_next_multiple_of :: "nat \<Rightarrow> nat \<Rightarrow> nat option" where
  "checked_next_multiple_of a b =
     (let n = (a + b - 1) div b * b in if n \<le> usize_max then Some n else None)"

definition layout_ok :: "nat \<Rightarrow> nat \<Rightarrow> bool" where
  "layout_ok sz align \<longleftrightarrow> sz \<le> isize_max + 1 - align"

definition zeroed :: "(nat \<Rightarrow> nat \<Rightarrow> bool) \<Rightarrow> string \<Rightarrow> nat \<Rightarrow> transport_error + region" where
  "zeroed alloc field len =
     (case checked_next_multiple_of (max len 1) ALIGN of
        None \<Rightarrow> Inl (InvalidConfig field ''region above allocation limit'')
      | Some sz \<Rightarrow>
          if \<not> layout_ok sz ALIGN then Inl (InvalidConfig field ''region above allocation limit'')
          else if \<not> alloc 0 sz then Inl (InvalidConfig field ''region allocation failed'')
          else Inr \<lparr>rg_bytes = (\<lambda>_. 0), rg_size = sz\<rparr>)"

definition write_at :: "nat \<Rightarrow> bytes \<Rightarrow> region \<Rightarrow> region" where
  "write_at at bs r =
     r\<lparr>rg_bytes := \<lambda>i. if at \<le> i \<and> i < at + length bs then bs ! (i - at) else rg_bytes r i\<rparr>"

definition read_at :: "nat \<Rightarrow> nat \<Rightarrow> region \<Rightarrow> bytes" where
  "read_at at len r = map (rg_bytes r) [at..<at + len]"

lemma read_write_same: "read_at at (length bs) (write_at at bs r) = bs"
  by (rule nth_equalityI) (simp_all add: read_at_def write_at_def)

lemma read_write_apart:
  assumes "at + length bs \<le> a \<or> a + n \<le> at"
  shows "read_at a n (write_at at bs r) = read_at a n r"
  using assms by (auto simp: read_at_def write_at_def)

lemma next_multiple_ge:
  assumes "0 < (b :: nat)"
  shows "a \<le> (a + b - 1) div b * b"
proof -
  have "a + b - 1 < (a + b - 1) div b * b + b" 
    using dividend_less_div_times [OF assms, of "a + b - 1"] by linarith
  then show ?thesis using assms by linarith
qed

lemma zeroed_covers:
  assumes "zeroed alloc field len = Inr r"
  shows "len \<le> rg_size r" "rg_size r \<le> isize_max" "ALIGN dvd rg_size r" "0 < rg_size r"
proof -
  have "0 < ALIGN" by (simp add: ALIGN_def)
  then have *: "a \<le> (a + ALIGN - 1) div ALIGN * ALIGN" for a
    by (rule next_multiple_ge)
  have s: "rg_size r = (max len 1 + ALIGN - 1) div ALIGN * ALIGN" "rg_size r \<le> isize_max + 1 - ALIGN"
    using assms by (auto simp: zeroed_def checked_next_multiple_of_def layout_ok_def Let_def split: if_split_asm)
  show "len \<le> rg_size r" "0 < rg_size r" using * [of "max len 1"] s by auto
  show "ALIGN dvd rg_size r" using s by simp
  show "rg_size r \<le> isize_max" using s by (simp add: ALIGN_def)
qed

section \<open>Index pool\<close>

definition SIZE_FIELD :: string where
  "SIZE_FIELD = ''count * stride''"

record index_frame =
  if_slot :: u32
  if_offset :: u32
  if_len :: u32

record index_pool =
  ip_region :: region
  ip_stride :: u32
  ip_count :: u32
  ip_freed :: "u32 list"
  ip_live :: "index_frame list"

definition index_pool_new :: "(nat \<Rightarrow> nat \<Rightarrow> bool) \<Rightarrow> u32 \<Rightarrow> u32 \<Rightarrow> transport_error + index_pool" where
  "index_pool_new alloc cnt stride =
     (case checked_product SIZE_FIELD (unat cnt) (unat stride) of
        Inl e \<Rightarrow> Inl e
      | Inr len \<Rightarrow>
          (case zeroed alloc SIZE_FIELD len of
             Inl e \<Rightarrow> Inl e
           | Inr region \<Rightarrow>
               if \<not> alloc 1 (unat cnt * 4) then Inl (InvalidConfig ''count'' ''freed list cannot be allocated'')
               else Inr \<lparr>ip_region = region, ip_stride = stride, ip_count = cnt, ip_freed = [], ip_live = []\<rparr>))"

definition index_pool_stats :: "index_pool \<Rightarrow> pool_stats" where
  "index_pool_stats p = \<lparr>ps_capacity = unat (ip_count p), ps_in_use = length (ip_live p)\<rparr>"

definition slot_start :: "index_pool \<Rightarrow> u32 \<Rightarrow> nat" where
  "slot_start p slot = unat slot * unat (ip_stride p)"

definition pool_frame :: "u32 \<Rightarrow> u32 \<Rightarrow> u32 \<Rightarrow> index_pool \<Rightarrow> index_frame \<times> index_pool" where
  "pool_frame slot offset len p =
     (\<lparr>if_slot = slot, if_offset = offset, if_len = len\<rparr>,
      p\<lparr>ip_live := \<lparr>if_slot = slot, if_offset = offset, if_len = len\<rparr> # ip_live p\<rparr>)"

definition drain_freed :: "u32 list \<Rightarrow> index_pool \<Rightarrow> u32 list \<times> index_pool" where
  "drain_freed into p = (ip_freed p, p\<lparr>ip_freed := into\<rparr>)"

definition frame_bytes :: "index_pool \<Rightarrow> index_frame \<Rightarrow> bytes" where
  "frame_bytes p f = read_at (slot_start p (if_slot f) + unat (if_offset f)) (unat (if_len f)) (ip_region p)"

definition drop_frame :: "index_frame \<Rightarrow> index_pool \<Rightarrow> index_pool" where
  "drop_frame f p = p\<lparr>ip_live := remove1 f (ip_live p), ip_freed := ip_freed p @ [if_slot f]\<rparr>"

text \<open>
  The slots \<open>0..<count\<close>, and the slots that sit in the pool: in live frames or on the freed list. A
  driver accounts for every other slot, so that each slot sits in exactly one place.
\<close>

definition all_slots :: "u32 \<Rightarrow> u32 multiset" where
  "all_slots cnt = mset (map of_nat [0..<unat cnt])"

definition live_slots :: "index_pool \<Rightarrow> u32 multiset" where
  "live_slots p = image_mset if_slot (mset (ip_live p))"

definition pool_slots :: "index_pool \<Rightarrow> u32 multiset" where
  "pool_slots p = mset (ip_freed p) + live_slots p"

text \<open>The safety contract of \<^verbatim>\<open>IndexPool::frame\<close>, for every frame that is live.\<close>

definition frame_fits :: "index_pool \<Rightarrow> index_frame \<Rightarrow> bool" where
  "frame_fits p f \<longleftrightarrow> if_slot f < ip_count p \<and> unat (if_offset f) + unat (if_len f) \<le> unat (ip_stride p)"

definition pool_ok :: "index_pool \<Rightarrow> bool" where
  "pool_ok p \<longleftrightarrow> (\<forall>f \<in> set (ip_live p). frame_fits p f) \<and> unat (ip_count p) * unat (ip_stride p) \<le> rg_size (ip_region p)"

text \<open>Two pools over the same slots: what a driver step keeps of the pool's shape.\<close>

definition same_pool :: "index_pool \<Rightarrow> index_pool \<Rightarrow> bool" where
  "same_pool p q \<longleftrightarrow> ip_stride q = ip_stride p \<and> ip_count q = ip_count p \<and> rg_size (ip_region q) = rg_size (ip_region p)"

lemma in_all_slots: "s \<in># all_slots cnt \<longleftrightarrow> s < cnt"
proof
  show "s \<in># all_slots cnt \<Longrightarrow> s < cnt"
    by (auto simp: all_slots_def word_less_nat_alt unat_of_nat intro: le_less_trans [OF mod_less_eq_dividend])
  assume "s < cnt"
  then have "unat s \<in> {0..<unat cnt}" by (simp add: word_less_nat_alt)
  then show "s \<in># all_slots cnt"
    by (auto simp: all_slots_def image_iff intro!: bexI [of _ "unat s"])
qed

lemma count_all_slots: "count (all_slots n) s \<le> 1"
proof -
  have "inj_on (of_nat :: nat \<Rightarrow> u32) {0..<unat n}"
  proof (rule inj_onI)
    fix x y assume x: "x \<in> {0..<unat n}" and y: "y \<in> {0..<unat n}" and e: "(of_nat x :: u32) = of_nat y"
    have "unat n < 2 ^ 32" using unat_less_pow [of n] by simp
    then have "x < 2 ^ 32" "y < 2 ^ 32" using x y by auto
    with arg_cong [OF e, of unat] show "x = y" by (simp add: unat_of_nat)
  qed
  then have "distinct (map (of_nat :: nat \<Rightarrow> u32) [0..<unat n])" by (simp add: distinct_map)
  then show ?thesis unfolding all_slots_def by (metis distinct_count_atmost_1 le_numeral_extra(4) zero_le_one)
qed

text \<open>A slot in one place of a full partition sits in no other place.\<close>

lemma slots_disjoint:
  assumes "A + B = all_slots n" "s \<in># A"
  shows "s \<notin># B"
proof
  assume "s \<in># B"
  with assms(2) have "2 \<le> count (A + B) s" by (simp add: count_greater_zero_iff [symmetric] del: count_greater_zero_iff)
  with count_all_slots [of n s] assms(1) show False by simp
qed

lemma slots_bounded: "A + B = all_slots n \<Longrightarrow> s \<in># A \<Longrightarrow> s < n"
  by (metis in_all_slots union_iff)

lemma slot_ranges_apart:
  assumes "(s :: u32) \<noteq> t" "a + m \<le> unat k" "b + n \<le> unat (k :: u32)"
  shows "unat s * unat k + a + m \<le> unat t * unat k + b \<or> unat t * unat k + b + n \<le> unat s * unat k + a"
proof -
  have "unat s \<noteq> unat t" using assms(1) by (simp add: unsigned_word_eqI word_unat_eq_iff)
  then consider "Suc (unat s) \<le> unat t" | "Suc (unat t) \<le> unat s" by linarith
  then show ?thesis
  proof cases
    case 1
    then have "Suc (unat s) * unat k \<le> unat t * unat k" by (rule mult_le_mono1)
    then show ?thesis using assms(2) by simp
  next
    case 2
    then have "Suc (unat t) * unat k \<le> unat s * unat k" by (rule mult_le_mono1)
    then show ?thesis using assms(3) by simp
  qed
qed

text \<open>Writing into one slot leaves the frames of every other slot alone.\<close>

lemma write_other_slot:
  assumes "frame_fits p f" "if_slot f \<noteq> slot" "length bs \<le> unat (ip_stride p)"
  shows "frame_bytes (p\<lparr>ip_region := write_at (slot_start p slot) bs (ip_region p)\<rparr>) f = frame_bytes p f"
  using slot_ranges_apart [OF assms(2) [symmetric], of 0 "length bs" "ip_stride p" "unat (if_offset f)" "unat (if_len f)"] assms(1,3)
  by (simp add: frame_bytes_def slot_start_def frame_fits_def read_write_apart)

lemma frame_bytes_written:
  assumes "length bs = unat (if_len f)" "if_offset f = 0"
  shows "frame_bytes (p\<lparr>ip_region := write_at (slot_start p (if_slot f)) bs (ip_region p)\<rparr>) f = bs"
  using read_write_same [of _ bs] assms by (simp add: frame_bytes_def slot_start_def)

lemmas pool_defs = pool_frame_def drain_freed_def drop_frame_def pool_slots_def live_slots_def same_pool_def

lemma index_pool_new_ok:
  assumes "index_pool_new alloc cnt stride = Inr p"
  shows "pool_ok p" "pool_slots p = {#}" "ip_count p = cnt" "ip_stride p = stride"
  using assms zeroed_covers(1)
  by (auto simp: index_pool_new_def pool_ok_def pool_defs checked_product_def split: sum.split_asm if_split_asm)

lemma drop_frame_slots: "f \<in> set (ip_live p) \<Longrightarrow> pool_slots (drop_frame f p) = pool_slots p"
  by (simp add: pool_defs image_mset_Diff)

lemma drop_frame_ok: "pool_ok p \<Longrightarrow> pool_ok (drop_frame f p)"
  by (auto simp: pool_ok_def drop_frame_def frame_fits_def dest: notin_set_remove1)

section \<open>Slab pool\<close>

record vec_slab =
  vs_buf :: bytes
  vs_len :: nat

record vec_pool =
  vp_free :: "bytes list"
  vp_capacity :: nat
  vp_live :: nat

definition TOO_BIG :: transport_error where
  "TOO_BIG = InvalidConfig ''slab_count * slab_size'' ''pool cannot be allocated''"

text \<open>\<^verbatim>\<open>try_reserve_exact\<close> for \<open>n\<close> elements of \<open>w\<close> bytes.\<close>

definition try_reserve :: "(nat \<Rightarrow> nat \<Rightarrow> bool) \<Rightarrow> nat \<Rightarrow> nat \<Rightarrow> nat \<Rightarrow> bool" where
  "try_reserve alloc i n w \<longleftrightarrow> n * w \<le> isize_max \<and> alloc i (n * w)"

fun alloc_slabs :: "(nat \<Rightarrow> nat \<Rightarrow> bool) \<Rightarrow> nat \<Rightarrow> nat \<Rightarrow> nat \<Rightarrow> bytes list \<Rightarrow> transport_error + bytes list" where
  "alloc_slabs alloc i 0 sz free = Inr free"
| "alloc_slabs alloc i (Suc n) sz free =
     (if \<not> try_reserve alloc i sz 1 then Inl TOO_BIG
      else alloc_slabs alloc (Suc i) n sz (free @ [replicate sz 0]))"

definition vec_pool_new :: "(nat \<Rightarrow> nat \<Rightarrow> bool) \<Rightarrow> nat \<Rightarrow> nat \<Rightarrow> transport_error + vec_pool" where
  "vec_pool_new alloc slab_count slab_size =
     (if \<not> try_reserve alloc 0 slab_count 16 then Inl TOO_BIG
      else case alloc_slabs alloc 1 slab_count slab_size [] of
        Inl e \<Rightarrow> Inl e
      | Inr free \<Rightarrow> Inr \<lparr>vp_free = free, vp_capacity = slab_count, vp_live = 0\<rparr>)"

definition vec_pool_stats :: "vec_pool \<Rightarrow> pool_stats" where
  "vec_pool_stats p = \<lparr>ps_capacity = vp_capacity p, ps_in_use = vp_live p\<rparr>"

definition acquire :: "vec_pool \<Rightarrow> vec_slab option \<times> vec_pool" where
  "acquire p =
     (if vp_free p = [] then (None, p)
      else (Some \<lparr>vs_buf = last (vp_free p), vs_len = 0\<rparr>, p\<lparr>vp_free := butlast (vp_free p), vp_live := vp_live p + 1\<rparr>))"

text \<open>\<^verbatim>\<open>buf_mut\<close> as its callers use it: the received bytes land at the start of the buffer.\<close>

definition fill_buf :: "bytes \<Rightarrow> vec_slab \<Rightarrow> vec_slab" where
  "fill_buf bs s = s\<lparr>vs_buf := take (length (vs_buf s)) bs @ drop (length bs) (vs_buf s)\<rparr>"

definition set_len :: "nat \<Rightarrow> vec_slab \<Rightarrow> vec_slab" where
  "set_len len s = s\<lparr>vs_len := min len (length (vs_buf s))\<rparr>"

definition slab_bytes :: "vec_slab \<Rightarrow> bytes" where
  "slab_bytes s = take (vs_len s) (vs_buf s)"

definition drop_slab :: "vec_slab \<Rightarrow> vec_pool \<Rightarrow> vec_pool" where
  "drop_slab s p = p\<lparr>vp_free := vp_free p @ [vs_buf s], vp_live := vp_live p - 1\<rparr>"

text \<open>Slabs are conserved, and all have one size.\<close>

definition vec_pool_ok :: "nat \<Rightarrow> vec_pool \<Rightarrow> bool" where
  "vec_pool_ok sz p \<longleftrightarrow> length (vp_free p) + vp_live p = vp_capacity p \<and> (\<forall>b \<in> set (vp_free p). length b = sz)"

definition slab_ok :: "nat \<Rightarrow> vec_slab \<Rightarrow> bool" where
  "slab_ok sz s \<longleftrightarrow> length (vs_buf s) = sz \<and> vs_len s \<le> sz"

lemma alloc_slabs_ok:
  "alloc_slabs alloc i n sz free = Inr free' \<Longrightarrow> free' = free @ replicate n (replicate sz 0)"
  by (induction alloc i n sz free rule: alloc_slabs.induct) (auto split: if_split_asm simp: replicate_append_same)

lemma vec_pool_new_ok: "vec_pool_new alloc n sz = Inr p \<Longrightarrow> vec_pool_ok sz p"
  by (auto simp: vec_pool_new_def vec_pool_ok_def split: if_split_asm sum.split_asm dest!: alloc_slabs_ok)

lemma acquire_Some:
  assumes "vec_pool_ok sz p" "acquire p = (Some s, p')"
  shows "vec_pool_ok sz p'" "slab_ok sz s"
proof -
  have ne: "vp_free p \<noteq> []" using assms(2) by (auto simp: acquire_def)
  then obtain bs b where fr: "vp_free p = bs @ [b]" by (cases "vp_free p" rule: rev_cases) auto
  show "vec_pool_ok sz p'" "slab_ok sz s"
    using assms fr by (auto simp: acquire_def vec_pool_ok_def slab_ok_def)
qed

lemma acquire_None:
  assumes "vec_pool_ok sz p"
  shows "fst (acquire p) = None \<longleftrightarrow> vp_live p = vp_capacity p"
  using assms by (auto simp: acquire_def vec_pool_ok_def)

lemma drop_slab_ok: "vec_pool_ok sz p \<Longrightarrow> slab_ok sz s \<Longrightarrow> 0 < vp_live p \<Longrightarrow> vec_pool_ok sz (drop_slab s p)"
  by (auto simp: drop_slab_def vec_pool_ok_def slab_ok_def)

lemma fill_buf_ok: "slab_ok sz s \<Longrightarrow> length bs \<le> sz \<Longrightarrow> slab_ok sz (fill_buf bs s)"
  by (simp add: fill_buf_def slab_ok_def)

lemma set_len_ok: "slab_ok sz s \<Longrightarrow> slab_ok sz (set_len n s)"
  by (simp add: set_len_def slab_ok_def)

lemma filled_bytes: "slab_ok sz s \<Longrightarrow> length bs \<le> sz \<Longrightarrow> slab_bytes (set_len (length bs) (fill_buf bs s)) = bs"
  by (simp add: slab_bytes_def set_len_def fill_buf_def slab_ok_def)

end
