(* ===== verification/Xsk_Ring.thy ===== *)
theory Xsk_Ring
  imports Pools
begin

unbundle bit_operations_syntax

text \<open>
  The single-producer, single-consumer rings of \<^verbatim>\<open>crates/transports/afxdp/src/ring.rs\<close> and the heap-backed peer of
  \<^verbatim>\<open>ring/heap.rs\<close> that plays the kernel side.

  The shared words and the descriptor array are a record; a process side keeps the mask and its own free-running
  index. Indices are 32-bit words that wrap; the entry of index \<open>i\<close> sits at \<open>i AND mask\<close>. A release store of a word
  publishes everything written before it, so each operation reads the peer's word once and is one step.
\<close>

section \<open>Ring memory and sides\<close>

record 'a ring_mem =
  rm_producer :: u32
  rm_consumer :: u32
  rm_flags :: u32
  rm_desc :: "'a list"

record ring_side =
  rs_mask :: u32
  rs_index :: u32

definition ring_size :: "ring_side \<Rightarrow> u32" where
  "ring_size s = rs_mask s + 1"

definition entry :: "ring_side \<Rightarrow> u32 \<Rightarrow> nat" where
  "entry s index = unat (index AND rs_mask s)"

definition producer_new :: "'a ring_mem \<Rightarrow> u32 \<Rightarrow> ring_side" where
  "producer_new m sz = \<lparr>rs_mask = sz - 1, rs_index = rm_producer m\<rparr>"

definition consumer_new :: "'a ring_mem \<Rightarrow> u32 \<Rightarrow> ring_side" where
  "consumer_new m sz = \<lparr>rs_mask = sz - 1, rs_index = rm_consumer m\<rparr>"

fun write_entries :: "ring_side \<Rightarrow> u32 \<Rightarrow> 'a list \<Rightarrow> 'a list \<Rightarrow> 'a list" where
  "write_entries s written [] desc = desc"
| "write_entries s written (item # items) desc =
     write_entries s (written + 1) items (desc[entry s (rs_index s + written) := item])"

text \<open>\<^verbatim>\<open>produce\<close> returns the count written and the items it did not take.\<close>

definition produce :: "ring_side \<Rightarrow> 'a ring_mem \<Rightarrow> 'a list \<Rightarrow> u32 \<times> 'a list \<times> ring_side \<times> 'a ring_mem" where
  "produce s m items =
     (let free = min (rm_consumer m + ring_size s - rs_index s) (ring_size s);
          taken = take (unat free) items;
          written = of_nat (length taken);
          m' = m\<lparr>rm_desc := write_entries s 0 taken (rm_desc m)\<rparr>
      in if 0 < written
         then (written, drop (unat free) items, s\<lparr>rs_index := rs_index s + written\<rparr>, m'\<lparr>rm_producer := rs_index s + written\<rparr>)
         else (written, drop (unat free) items, s, m'))"

definition XDP_RING_NEED_WAKEUP :: u32 where
  "XDP_RING_NEED_WAKEUP = 1"

definition needs_wakeup :: "'a ring_mem \<Rightarrow> bool" where
  "needs_wakeup m \<longleftrightarrow> rm_flags m AND XDP_RING_NEED_WAKEUP \<noteq> 0"

text \<open>\<^verbatim>\<open>consume\<close> returns the entries passed to its closure, in order.\<close>

definition consume :: "ring_side \<Rightarrow> 'a ring_mem \<Rightarrow> u32 \<Rightarrow> 'a list \<times> ring_side \<times> 'a ring_mem" where
  "consume s m limit =
     (let ready = min (rm_producer m - rs_index s) (ring_size s);
          taken = min ready limit;
          items = map (\<lambda>i. rm_desc m ! entry s (rs_index s + of_nat i)) [0..<unat taken]
      in if 0 < taken
         then (items, s\<lparr>rs_index := rs_index s + taken\<rparr>, m\<lparr>rm_consumer := rs_index s + taken\<rparr>)
         else (items, s, m))"

section \<open>The peer\<close>

definition heap_new :: "u32 \<Rightarrow> u32 \<Rightarrow> 'a \<Rightarrow> 'a ring_mem" where
  "heap_new sz start blank =
     \<lparr>rm_producer = start, rm_consumer = start, rm_flags = 0, rm_desc = replicate (unat sz) blank\<rparr>"

definition heap_slot :: "'a ring_mem \<Rightarrow> u32 \<Rightarrow> nat" where
  "heap_slot m index = unat index mod length (rm_desc m)"

definition heap_pop :: "'a ring_mem \<Rightarrow> 'a option \<times> 'a ring_mem" where
  "heap_pop m =
     (if rm_producer m = rm_consumer m then (None, m)
      else (Some (rm_desc m ! heap_slot m (rm_consumer m)), m\<lparr>rm_consumer := rm_consumer m + 1\<rparr>))"

definition heap_push :: "'a \<Rightarrow> 'a ring_mem \<Rightarrow> bool \<times> 'a ring_mem" where
  "heap_push x m =
     (if unat (rm_producer m - rm_consumer m) = length (rm_desc m) then (False, m)
      else (True, m\<lparr>rm_desc := (rm_desc m)[heap_slot m (rm_producer m) := x], rm_producer := rm_producer m + 1\<rparr>))"

definition heap_set_flags :: "u32 \<Rightarrow> 'a ring_mem \<Rightarrow> 'a ring_mem" where
  "heap_set_flags fl m = m\<lparr>rm_flags := fl\<rparr>"

definition heap_indices :: "'a ring_mem \<Rightarrow> u32 \<times> u32" where
  "heap_indices m = (rm_producer m, rm_consumer m)"

section \<open>The queue a ring holds\<close>

text \<open>\<open>len\<close> entries of a circular array from position \<open>b\<close>.\<close>

definition circ :: "'a list \<Rightarrow> nat \<Rightarrow> nat \<Rightarrow> 'a list" where
  "circ xs b len = map (\<lambda>i. xs ! ((b + i) mod length xs)) [0..<len]"

definition ring_queue :: "'a ring_mem \<Rightarrow> 'a list" where
  "ring_queue m = circ (rm_desc m) (unat (rm_consumer m)) (unat (rm_producer m - rm_consumer m))"

definition ring_ok :: "'a ring_mem \<Rightarrow> bool" where
  "ring_ok m \<longleftrightarrow> (\<exists>k \<le> 31. length (rm_desc m) = 2 ^ k) \<and> unat (rm_producer m - rm_consumer m) \<le> length (rm_desc m)"

definition producer_ok :: "ring_side \<Rightarrow> 'a ring_mem \<Rightarrow> bool" where
  "producer_ok s m \<longleftrightarrow> rs_index s = rm_producer m \<and> rs_mask s = of_nat (length (rm_desc m)) - 1"

definition consumer_ok :: "ring_side \<Rightarrow> 'a ring_mem \<Rightarrow> bool" where
  "consumer_ok s m \<longleftrightarrow> rs_index s = rm_consumer m \<and> rs_mask s = of_nat (length (rm_desc m)) - 1"

lemma length_circ [simp]: "length (circ xs b len) = len"
  by (simp add: circ_def)

lemma circ_mod: "circ xs (b mod length xs) len = circ xs b len"
  by (simp add: circ_def mod_add_left_eq)

lemma circ_take: "take n (circ xs b len) = circ xs b (min n len)"
  by (rule nth_equalityI) (simp_all add: circ_def)

lemma circ_drop: "n \<le> len \<Longrightarrow> drop n (circ xs b len) = circ xs (b + n) (len - n)"
proof (rule nth_equalityI)
  fix i assume n: "n \<le> len" and i: "i < length (drop n (circ xs b len))"
  then have "n + i < len" by simp
  then show "drop n (circ xs b len) ! i = circ xs (b + n) (len - n) ! i" using n by (simp add: circ_def add.assoc)
qed simp

lemma positions_apart:
  assumes "i < j" "j - i < (n :: nat)"
  shows "(b + i) mod n \<noteq> (b + j) mod n"
proof
  assume "(b + i) mod n = (b + j) mod n"
  then have "n dvd (b + j) - (b + i)" using assms(1) by (metis add_le_cancel_left less_imp_le mod_eq_dvd_iff_nat)
  then show False using assms by (auto dest: dvd_imp_le)
qed

lemma circ_write:
  assumes "len < length xs"
  shows "circ (xs[(b + len) mod length xs := x]) b (Suc len) = circ xs b len @ [x]"
proof -
  have "(b + len) mod length xs \<noteq> (b + i) mod length xs" if "i < len" for i
    using that assms by (intro positions_apart [symmetric]) auto
  moreover have "(b + len) mod length xs < length xs" using assms by (intro mod_less_divisor) linarith
  ultimately show ?thesis by (auto simp: circ_def intro!: nth_list_update_neq)
qed

section \<open>Masked indices\<close>

lemma mask_mod:
  assumes "k \<le> 31"
  shows "unat (i AND (of_nat (2 ^ k) - 1 :: u32)) = unat i mod 2 ^ k"
proof -
  have "i AND (2 ^ k - 1) = take_bit k i" by (simp add: take_bit_eq_mask mask_eq_exp_minus_1)
  then have "unat (i AND (of_nat (2 ^ k) - 1 :: u32)) = unat (take_bit k i)" by simp
  also have "\<dots> = take_bit k (unat i)" by (rule unsigned_take_bit_eq)
  finally show ?thesis by (simp only: take_bit_eq_mod)
qed

lemma index_mod:
  assumes "k \<le> 31"
  shows "unat (c + of_nat j :: u32) mod 2 ^ k = (unat c + j) mod 2 ^ k"
proof -
  have "(2 :: nat) ^ k dvd 2 ^ 32" using assms by (intro le_imp_power_dvd) simp
  then show ?thesis by (simp add: unat_word_ariths unat_of_nat mod_mod_cancel mod_add_right_eq)
qed

lemma entry_at:
  assumes "ring_ok m" "rs_mask s = of_nat (length (rm_desc m)) - 1"
  shows "entry s (c + of_nat j) = (unat c + j) mod length (rm_desc m)"
proof -
  obtain k where k: "k \<le> 31" "length (rm_desc m) = 2 ^ k" using assms(1) by (auto simp: ring_ok_def)
  then show ?thesis using mask_mod [OF k(1), of "c + of_nat j"] index_mod [OF k(1), of c j] assms(2) by (simp add: entry_def)
qed

lemma ring_size_eq:
  assumes "ring_ok m" "rs_mask s = of_nat (length (rm_desc m)) - 1"
  shows "unat (ring_size s) = length (rm_desc m)" "ring_size s = of_nat (length (rm_desc m))"
proof -
  obtain k where k: "k \<le> 31" "length (rm_desc m) = 2 ^ k" using assms(1) by (auto simp: ring_ok_def)
  have "(2 :: nat) ^ k \<le> 2 ^ 31" using k(1) by (intro power_increasing) simp_all
  then have "(2 :: nat) ^ k < 2 ^ 32" by simp
  then have "unat (of_nat (2 ^ k) :: u32) = 2 ^ k" by (simp add: unat_of_nat del: of_nat_power)
  then show "unat (ring_size s) = length (rm_desc m)" "ring_size s = of_nat (length (rm_desc m))"
    using assms(2) k(2) by (simp_all add: ring_size_def)
qed

section \<open>Rings are bounded queues\<close>

lemma write_entries_circ:
  assumes ok: "ring_ok m" "rs_mask s = of_nat (length (rm_desc m)) - 1"
    and at: "unat (rs_index s) mod length (rm_desc m) = (b + len) mod length (rm_desc m)"
  shows "length desc = length (rm_desc m) \<Longrightarrow> len + j + length items \<le> length desc \<Longrightarrow>
    circ (write_entries s (of_nat j) items desc) b (len + j + length items) = circ desc b (len + j) @ items
    \<and> length (write_entries s (of_nat j) items desc) = length desc"
proof (induction items arbitrary: j desc)
  case Nil
  then show ?case by simp
next
  case (Cons x xs)
  let ?n = "length (rm_desc m)"
  have e: "entry s (rs_index s + of_nat j) = (b + (len + j)) mod length desc"
    using entry_at [OF ok, of "rs_index s" j] Cons.prems(1) mod_add_cong [OF at refl, of j] by (simp add: add.assoc)
  have step: "circ (desc[entry s (rs_index s + of_nat j) := x]) b (Suc (len + j)) = circ desc b (len + j) @ [x]"
    unfolding e using Cons.prems(2) by (intro circ_write) simp
  have "len + Suc j + length xs \<le> length (desc[entry s (rs_index s + of_nat j) := x])" using Cons.prems(2) by simp
  from Cons.IH [OF _ this] Cons.prems(1) step show ?case by (simp add: add.commute)
qed

lemma queue_length: "length (ring_queue m) = unat (rm_producer m - rm_consumer m)"
  by (simp add: ring_queue_def)

lemma produce_free:
  assumes "ring_ok m" "producer_ok s m"
  shows "unat (min (rm_consumer m + ring_size s - rs_index s) (ring_size s)) = length (rm_desc m) - length (ring_queue m)"
proof -
  have sz: "unat (ring_size s) = length (rm_desc m)" "rs_index s = rm_producer m"
    using ring_size_eq assms by (auto simp: producer_ok_def)
  have eq: "rm_consumer m + ring_size s - rs_index s = ring_size s - (rm_producer m - rm_consumer m)" using sz(2) by simp
  have le: "rm_producer m - rm_consumer m \<le> ring_size s" using assms(1) sz(1) by (simp add: ring_ok_def word_le_nat_alt)
  have "ring_size s - (rm_producer m - rm_consumer m) \<le> ring_size s" using le by (simp add: word_le_nat_alt unat_sub)
  then show ?thesis unfolding eq using sz le by (simp add: queue_length unat_sub min_def)
qed

lemma producer_moves:
  assumes "ring_ok m" "length (ring_queue m) + k \<le> length (rm_desc m)"
  shows "unat (rm_producer m + of_nat k - rm_consumer m) = length (ring_queue m) + k"
proof -
  obtain j where "j \<le> 31" "length (rm_desc m) = 2 ^ j" using assms(1) by (auto simp: ring_ok_def)
  then have "length (rm_desc m) < 2 ^ 32" using power_increasing [of j 31 "2 :: nat"] by simp
  then have "length (ring_queue m) + k < 2 ^ 32" using assms(2) by linarith
  then have "unat ((rm_producer m - rm_consumer m) + of_nat k) = length (ring_queue m) + k"
    by (simp add: queue_length unat_word_ariths unat_of_nat mod_add_right_eq)
  moreover have "rm_producer m + of_nat k - rm_consumer m = (rm_producer m - rm_consumer m) + of_nat k" by simp
  ultimately show ?thesis by (simp only:)
qed

lemma queue_fits_u32:
  assumes "ring_ok m" "k \<le> length (rm_desc m)"
  shows "unat (of_nat k :: u32) = k"
proof -
  obtain j where "j \<le> 31" "length (rm_desc m) = 2 ^ j" using assms(1) by (auto simp: ring_ok_def)
  then have "length (rm_desc m) < 2 ^ 32" using power_increasing [of j 31 "2 :: nat"] by simp
  then show ?thesis using assms(2) by (simp add: unat_of_nat)
qed

lemma producer_position:
  assumes "ring_ok m"
  shows "unat (rm_producer m) mod length (rm_desc m) = (unat (rm_consumer m) + length (ring_queue m)) mod length (rm_desc m)"
proof -
  obtain k where k: "k \<le> 31" "length (rm_desc m) = 2 ^ k" using assms by (auto simp: ring_ok_def)
  have "rm_producer m = rm_consumer m + of_nat (length (ring_queue m))" by (simp add: queue_length)
  then show ?thesis using index_mod [OF k(1), of "rm_consumer m" "length (ring_queue m)"] k(2) by simp
qed

lemma produce_spec:
  assumes ok: "ring_ok m" "producer_ok s m" and p: "produce s m items = (n, left, s', m')"
  defines "k \<equiv> min (length items) (length (rm_desc m) - length (ring_queue m))"
  shows "ring_ok m'" "producer_ok s' m'" "ring_queue m' = ring_queue m @ take k items" "left = drop k items" "unat n = k"
    "rm_consumer m' = rm_consumer m" "length (rm_desc m') = length (rm_desc m)" "rm_flags m' = rm_flags m"
proof -
  let ?free = "length (rm_desc m) - length (ring_queue m)"
  let ?taken = "take ?free items"
  have idx: "rs_index s = rm_producer m" "rs_mask s = of_nat (length (rm_desc m)) - 1" using ok(2) by (auto simp: producer_ok_def)
  have ql: "length (ring_queue m) \<le> length (rm_desc m)" using ok(1) by (simp add: ring_ok_def queue_length)
  have len: "length ?taken = k" "length (ring_queue m) + k \<le> length (rm_desc m)" using ql by (auto simp: k_def)
  have w: "circ (write_entries s 0 ?taken (rm_desc m)) (unat (rm_consumer m)) (length (ring_queue m) + k) = ring_queue m @ ?taken"
    "length (write_entries s 0 ?taken (rm_desc m)) = length (rm_desc m)"
    using write_entries_circ [OF ok(1) idx(2), of "unat (rm_consumer m)" "length (ring_queue m)" "rm_desc m" 0 ?taken]
      producer_position [OF ok(1)] len idx(1) by (simp_all add: ring_queue_def)
  have upd: "m' = m\<lparr>rm_desc := write_entries s 0 ?taken (rm_desc m), rm_producer := rm_producer m + of_nat k\<rparr>"
    "s' = s\<lparr>rs_index := rm_producer m + of_nat k\<rparr>" "n = of_nat k" "left = drop ?free items"
  proof -
    have same: "m\<lparr>rm_desc := d, rm_producer := rm_producer m\<rparr> = m\<lparr>rm_desc := d\<rparr>" "s\<lparr>rs_index := rm_producer m\<rparr> = s" for d
      using idx(1) by simp_all
    note q = p [unfolded produce_def Let_def, unfolded produce_free [OF ok] len(1), unfolded idx(1)]
    have "m' = m\<lparr>rm_desc := write_entries s 0 ?taken (rm_desc m), rm_producer := rm_producer m + of_nat k\<rparr>
      \<and> s' = s\<lparr>rs_index := rm_producer m + of_nat k\<rparr> \<and> n = of_nat k \<and> left = drop ?free items"
      using q [symmetric] by (cases "(of_nat k :: u32) = 0") (simp_all add: same word_gt_0)
    then show "m' = m\<lparr>rm_desc := write_entries s 0 ?taken (rm_desc m), rm_producer := rm_producer m + of_nat k\<rparr>"
      "s' = s\<lparr>rs_index := rm_producer m + of_nat k\<rparr>" "n = of_nat k" "left = drop ?free items" by blast+
  qed
  have moved: "unat (rm_producer m' - rm_consumer m') = length (ring_queue m) + k"
    using producer_moves [OF ok(1) len(2)] by (simp add: upd)
  show "ring_ok m'" using ok(1) w(2) moved len(2) by (simp add: ring_ok_def upd)
  show "producer_ok s' m'" using idx w(2) by (simp add: producer_ok_def upd)
  have "?taken = take k items" by (simp add: k_def min_def)
  moreover have "ring_queue m' = circ (write_entries s 0 ?taken (rm_desc m)) (unat (rm_consumer m)) (length (ring_queue m) + k)"
    unfolding ring_queue_def [of m'] moved by (simp add: upd(1))
  ultimately show "ring_queue m' = ring_queue m @ take k items" using w(1) by simp
  show "left = drop k items" using upd(4) by (simp add: k_def min_def)
  show "unat n = k" using queue_fits_u32 [OF ok(1), of k] len(2) by (simp add: upd)
  show "rm_consumer m' = rm_consumer m" "length (rm_desc m') = length (rm_desc m)" "rm_flags m' = rm_flags m"
    using w(2) by (simp_all add: upd)
qed

lemma consumer_moves:
  assumes ok: "ring_ok m" and k: "k \<le> length (ring_queue m)"
  defines "m' \<equiv> m\<lparr>rm_consumer := rm_consumer m + of_nat k\<rparr>"
  shows "ring_ok m'" "ring_queue m' = drop k (ring_queue m)"
proof -
  have ql: "length (ring_queue m) \<le> length (rm_desc m)" using ok by (simp add: ring_ok_def queue_length)
  have kk: "unat (of_nat k :: u32) = k" using queue_fits_u32 [OF ok] k ql by simp
  have "(of_nat k :: u32) \<le> rm_producer m - rm_consumer m" using k kk by (simp add: word_le_nat_alt queue_length)
  from unat_sub [OF this] kk have left: "unat (rm_producer m - (rm_consumer m + of_nat k)) = length (ring_queue m) - k"
    by (simp add: queue_length diff_diff_eq [symmetric])
  show "ring_ok m'" using ok ql left by (simp add: ring_ok_def m'_def)
  obtain j where j: "j \<le> 31" "length (rm_desc m) = 2 ^ j" using ok by (auto simp: ring_ok_def)
  have "circ (rm_desc m) (unat (rm_consumer m + of_nat k)) l = circ (rm_desc m) (unat (rm_consumer m) + k) l" for l
    using index_mod [OF j(1), of "rm_consumer m" k] j(2) circ_mod [of "rm_desc m"] by metis
  then show "ring_queue m' = drop k (ring_queue m)"
    using left k by (simp add: ring_queue_def [of m'] m'_def) (simp add: ring_queue_def circ_drop queue_length)
qed

lemma consume_spec:
  assumes ok: "ring_ok m" "consumer_ok s m" and c: "consume s m limit = (xs, s', m')"
  defines "k \<equiv> min (length (ring_queue m)) (unat limit)"
  shows "ring_ok m'" "consumer_ok s' m'" "xs = take k (ring_queue m)" "ring_queue m' = drop k (ring_queue m)"
    "rm_producer m' = rm_producer m" "length (rm_desc m') = length (rm_desc m)" "rm_flags m' = rm_flags m"
proof -
  have idx: "rs_index s = rm_consumer m" "rs_mask s = of_nat (length (rm_desc m)) - 1" using ok(2) by (auto simp: consumer_ok_def)
  have ql: "length (ring_queue m) \<le> length (rm_desc m)" using ok(1) by (simp add: ring_ok_def queue_length)
  have "min (rm_producer m - rs_index s) (ring_size s) = rm_producer m - rm_consumer m"
    using ql ring_size_eq(1) [OF ok(1) idx(2)] idx(1) by (simp add: min_def queue_length word_le_nat_alt)
  then have taken: "unat (min (min (rm_producer m - rs_index s) (ring_size s)) limit) = k"
    by (simp add: k_def queue_length min_def word_le_nat_alt)
  then obtain taken where t: "min (min (rm_producer m - rs_index s) (ring_size s)) limit = taken" "unat taken = k" by blast
  have items: "map (\<lambda>i. rm_desc m ! entry s (rs_index s + of_nat i)) [0..<k] = take k (ring_queue m)"
  proof -
    have "map (\<lambda>i. rm_desc m ! entry s (rs_index s + of_nat i)) [0..<k] = circ (rm_desc m) (unat (rm_consumer m)) k"
      using entry_at [OF ok(1) idx(2)] idx(1) by (simp add: circ_def)
    then show ?thesis by (simp add: ring_queue_def circ_take k_def queue_length min.commute)
  qed
  have upd: "xs = take k (ring_queue m)" "m' = m\<lparr>rm_consumer := rm_consumer m + taken\<rparr>" "s' = s\<lparr>rs_index := rm_consumer m + taken\<rparr>"
  proof -
    have same: "m\<lparr>rm_consumer := rm_consumer m\<rparr> = m" "s\<lparr>rs_index := rm_consumer m\<rparr> = s" using idx(1) by simp_all
    note q = c [unfolded consume_def Let_def, unfolded t, unfolded items, unfolded idx(1)]
    have "xs = take k (ring_queue m) \<and> m' = m\<lparr>rm_consumer := rm_consumer m + taken\<rparr> \<and> s' = s\<lparr>rs_index := rm_consumer m + taken\<rparr>"
      using q [symmetric] by (cases "taken = 0") (simp_all add: same word_gt_0)
    then show "xs = take k (ring_queue m)" "m' = m\<lparr>rm_consumer := rm_consumer m + taken\<rparr>" "s' = s\<lparr>rs_index := rm_consumer m + taken\<rparr>"
      by blast+
  qed
  have tk: "taken = of_nat k" using t(2) by (metis of_nat_unat ucast_id)
  have "k \<le> length (ring_queue m)" by (simp add: k_def)
  from consumer_moves [OF ok(1) this] show "ring_ok m'" "ring_queue m' = drop k (ring_queue m)" by (simp_all add: upd tk)
  show "consumer_ok s' m'" using idx by (simp add: consumer_ok_def upd)
  show "xs = take k (ring_queue m)" by (rule upd(1))
  show "rm_producer m' = rm_producer m" "length (rm_desc m') = length (rm_desc m)" "rm_flags m' = rm_flags m"
    by (simp_all add: upd)
qed

text \<open>The peer's steps.\<close>

lemma heap_push_spec:
  assumes ok: "ring_ok m" and p: "heap_push x m = (b, m')"
  shows "b \<longleftrightarrow> length (ring_queue m) < length (rm_desc m)" "ring_ok m'"
    "ring_queue m' = (if b then ring_queue m @ [x] else ring_queue m)" "rm_consumer m' = rm_consumer m"
    "length (rm_desc m') = length (rm_desc m)"
proof -
  have ql: "length (ring_queue m) \<le> length (rm_desc m)" using ok by (simp add: ring_ok_def queue_length)
  have b: "b \<longleftrightarrow> length (ring_queue m) \<noteq> length (rm_desc m)"
    using p by (auto simp: heap_push_def queue_length split: if_split_asm)
  with ql show "b \<longleftrightarrow> length (ring_queue m) < length (rm_desc m)" by auto
  show "rm_consumer m' = rm_consumer m" "length (rm_desc m') = length (rm_desc m)"
    using p by (auto simp: heap_push_def split: if_split_asm)
  have "ring_ok m' \<and> ring_queue m' = (if b then ring_queue m @ [x] else ring_queue m)"
  proof (cases b)
    case True
    then have room: "length (ring_queue m) + 1 \<le> length (rm_desc m)" using b ql by simp
    have m': "m' = m\<lparr>rm_desc := (rm_desc m)[(unat (rm_consumer m) + length (ring_queue m)) mod length (rm_desc m) := x],
        rm_producer := rm_producer m + 1\<rparr>"
      using p True producer_position [OF ok] by (auto simp: heap_push_def heap_slot_def split: if_split_asm)
    have len: "unat (rm_producer m + 1 - rm_consumer m) = Suc (length (ring_queue m))"
      using producer_moves [OF ok room] by simp
    have "ring_ok m'" using ok room len by (simp add: ring_ok_def m')
    moreover have "ring_queue m' = circ (rm_desc m') (unat (rm_consumer m)) (Suc (length (ring_queue m)))"
      unfolding ring_queue_def [of m'] using len by (simp add: m')
    moreover have "\<dots> = circ (rm_desc m) (unat (rm_consumer m)) (length (ring_queue m)) @ [x]"
      using circ_write [of "length (ring_queue m)" "rm_desc m" "unat (rm_consumer m)" x] room by (simp add: m')
    ultimately show ?thesis using True by (simp add: ring_queue_def [of m] queue_length)
  next
    case False
    then have "m' = m" using p by (auto simp: heap_push_def split: if_split_asm)
    with ok False show ?thesis by simp
  qed
  then show "ring_ok m'" "ring_queue m' = (if b then ring_queue m @ [x] else ring_queue m)" by blast+
qed

lemma heap_pop_spec:
  assumes ok: "ring_ok m" and p: "heap_pop m = (r, m')"
  shows "r = (case ring_queue m of [] \<Rightarrow> None | x # _ \<Rightarrow> Some x)" "ring_ok m'" "ring_queue m' = tl (ring_queue m)"
    "rm_producer m' = rm_producer m" "length (rm_desc m') = length (rm_desc m)"
proof -
  show "rm_producer m' = rm_producer m" "length (rm_desc m') = length (rm_desc m)"
    using p by (auto simp: heap_pop_def split: if_split_asm)
  have "r = (case ring_queue m of [] \<Rightarrow> None | x # _ \<Rightarrow> Some x) \<and> ring_ok m' \<and> ring_queue m' = tl (ring_queue m)"
  proof (cases "rm_producer m = rm_consumer m")
    case True
    then have "ring_queue m = []" by (simp add: ring_queue_def circ_def)
    with True p ok show ?thesis by (simp add: heap_pop_def)
  next
    case False
    then have "unat (rm_producer m - rm_consumer m) \<noteq> 0" by (simp add: unat_eq_0)
    then have ne: "1 \<le> length (ring_queue m)" by (simp add: queue_length)
    have "m' = m\<lparr>rm_consumer := rm_consumer m + of_nat 1\<rparr>" "r = Some (rm_desc m ! heap_slot m (rm_consumer m))"
      using p False by (auto simp: heap_pop_def)
    moreover have "ring_queue m ! 0 = rm_desc m ! heap_slot m (rm_consumer m)"
      using ne by (simp add: ring_queue_def circ_def heap_slot_def queue_length)
    ultimately show ?thesis using consumer_moves [OF ok ne] ne by (cases "ring_queue m") (auto simp: drop_Suc)
  qed
  then show "r = (case ring_queue m of [] \<Rightarrow> None | x # _ \<Rightarrow> Some x)" "ring_ok m'" "ring_queue m' = tl (ring_queue m)" by auto
qed

section \<open>Rings are bounded queues\<close>

text \<open>
  Runs of a ring and its peer, call by call: the process fills and the kernel drains (fill ring), or the kernel fills and the
  process drains (receive ring). A run lists what each call returned.
\<close>

datatype 'a fill_call = Produce "'a list" | Pop

datatype 'a fill_reply = Untaken "'a list" | Popped "'a option"

datatype 'a rx_call = Push 'a | Consume u32

datatype 'a rx_reply = Pushed bool | Passed "'a list"

fun fill_run :: "ring_side \<Rightarrow> 'a ring_mem \<Rightarrow> 'a fill_call list \<Rightarrow> 'a fill_reply list" where
  "fill_run s m [] = []"
| "fill_run s m (Produce items # calls) =
     (case produce s m items of (n, left, s', m') \<Rightarrow> Untaken left # fill_run s' m' calls)"
| "fill_run s m (Pop # calls) = (case heap_pop m of (r, m') \<Rightarrow> Popped r # fill_run s m' calls)"

fun rx_run :: "ring_side \<Rightarrow> 'a ring_mem \<Rightarrow> 'a rx_call list \<Rightarrow> 'a rx_reply list" where
  "rx_run s m [] = []"
| "rx_run s m (Push x # calls) = (case heap_push x m of (b, m') \<Rightarrow> Pushed b # rx_run s m' calls)"
| "rx_run s m (Consume limit # calls) =
     (case consume s m limit of (xs, s', m') \<Rightarrow> Passed xs # rx_run s' m' calls)"

text \<open>The specification: a queue of at most \<open>cap\<close> entries.\<close>

fun fill_spec :: "nat \<Rightarrow> 'a list \<Rightarrow> 'a fill_call list \<Rightarrow> 'a fill_reply list" where
  "fill_spec cap q [] = []"
| "fill_spec cap q (Produce items # calls) =
     Untaken (drop (cap - length q) items) # fill_spec cap (q @ take (cap - length q) items) calls"
| "fill_spec cap q (Pop # calls) =
     Popped (case q of [] \<Rightarrow> None | x # _ \<Rightarrow> Some x) # fill_spec cap (tl q) calls"

fun rx_spec :: "nat \<Rightarrow> 'a list \<Rightarrow> 'a rx_call list \<Rightarrow> 'a rx_reply list" where
  "rx_spec cap q [] = []"
| "rx_spec cap q (Push x # calls) =
     Pushed (length q < cap) # rx_spec cap (if length q < cap then q @ [x] else q) calls"
| "rx_spec cap q (Consume limit # calls) =
     Passed (take (unat limit) q) # rx_spec cap (drop (unat limit) q) calls"

lemma take_drop_min: "take (min (length xs) n) xs = take n xs" "drop (min (length xs) n) xs = drop n xs"
  by (simp_all add: min_def)

lemma fill_run_spec:
  "ring_ok m \<Longrightarrow> producer_ok s m \<Longrightarrow> fill_run s m calls = fill_spec (length (rm_desc m)) (ring_queue m) calls"
proof (induction s m calls rule: fill_run.induct)
  case (1 s m)
  show ?case by simp
next
  case (2 s m items calls)
  obtain n left s' m' where p: "produce s m items = (n, left, s', m')" by (metis prod_cases4)
  note sp = produce_spec [OF 2(2,3) p]
  show ?case using 2(1) [OF p [symmetric] refl refl sp(1,2)] p sp by (simp add: take_drop_min)
next
  case (3 s m calls)
  obtain r m' where p: "heap_pop m = (r, m')" by fastforce
  note sp = heap_pop_spec [OF 3(2) p]
  have "producer_ok s m'" using 3(3) sp by (simp add: producer_ok_def)
  then show ?case using 3(1) [OF p [symmetric] sp(2)] p sp by simp
qed

lemma rx_run_spec:
  "ring_ok m \<Longrightarrow> consumer_ok s m \<Longrightarrow> rx_run s m calls = rx_spec (length (rm_desc m)) (ring_queue m) calls"
proof (induction s m calls rule: rx_run.induct)
  case (1 s m)
  show ?case by simp
next
  case (2 s m x calls)
  obtain b m' where p: "heap_push x m = (b, m')" by fastforce
  note sp = heap_push_spec [OF 2(2) p]
  have "consumer_ok s m'" using 2(3) sp by (simp add: consumer_ok_def)
  then show ?case using 2(1) [OF p [symmetric] sp(2)] p sp by auto
next
  case (3 s m limit calls)
  obtain xs s' m' where p: "consume s m limit = (xs, s', m')" by (metis prod_cases3)
  note sp = consume_spec [OF 3(2,3) p]
  show ?case using 3(1) [OF p [symmetric] refl sp(1,2)] p sp by (simp add: take_drop_min)
qed

lemma heap_new_ok:
  assumes "sz = 2 ^ k" "k \<le> 31"
  shows "ring_ok (heap_new sz start blank)" "ring_queue (heap_new sz start blank) = []"
    "producer_ok (producer_new (heap_new sz start blank) sz) (heap_new sz start blank)"
    "consumer_ok (consumer_new (heap_new sz start blank) sz) (heap_new sz start blank)"
proof -
  have "(2 :: nat) ^ k < 2 ^ 32" using assms(2) by (intro power_strict_increasing) simp_all
  then have "unat (of_nat (2 ^ k) :: u32) = 2 ^ k" unfolding unat_of_nat by simp
  then have "unat sz = 2 ^ k" using assms(1) by simp
  moreover have "of_nat (2 ^ k) = sz" using assms(1) by simp
  ultimately show "ring_ok (heap_new sz start blank)" "ring_queue (heap_new sz start blank) = []"
    "producer_ok (producer_new (heap_new sz start blank) sz) (heap_new sz start blank)"
    "consumer_ok (consumer_new (heap_new sz start blank) sz) (heap_new sz start blank)"
    using assms(2)
    by (auto simp: ring_ok_def heap_new_def ring_queue_def circ_def producer_ok_def consumer_ok_def producer_new_def consumer_new_def
        simp del: of_nat_power)
qed

text \<open>
  C34. A ring is a bounded queue. For every power-of-two size and every start index, so also where the 32-bit indices wrap,
  every sequence of calls of a process side and its peer returns what a queue of \<^verbatim>\<open>size\<close> entries returns: \<^verbatim>\<open>produce\<close>
  takes exactly what fits and leaves the rest, \<^verbatim>\<open>pop\<close> and \<^verbatim>\<open>consume\<close> pass the entries on once each, in order, and \<^verbatim>\<open>push\<close>
  fails exactly on a full ring.
\<close>

theorem ring_refines_queue:
  assumes "sz = 2 ^ k" "k \<le> 31"
  shows "fill_run (producer_new (heap_new sz start blank) sz) (heap_new sz start blank) fills = fill_spec (unat sz) [] fills
    \<and> rx_run (consumer_new (heap_new sz start blank) sz) (heap_new sz start blank) rxs = rx_spec (unat sz) [] rxs"
proof -
  have len: "length (rm_desc (heap_new sz start blank)) = unat sz" by (simp add: heap_new_def)
  note new = heap_new_ok [OF assms, of start blank]
  show ?thesis using fill_run_spec [OF new(1,3)] rx_run_spec [OF new(1,4)] by (simp add: len new(2))
qed

theorem ring_refines_queue_witness:
  "fill_run (producer_new (heap_new 2 0xFFFFFFFF (0 :: nat)) 2) (heap_new 2 0xFFFFFFFF 0) [Produce [7, 8, 9 :: nat], Pop, Produce [9], Pop, Pop, Pop]
     = [Untaken [9], Popped (Some 7), Untaken [], Popped (Some 8), Popped (Some 9), Popped None]"
proof -
  let ?calls = "[Produce [7, 8, 9 :: nat], Pop, Produce [9], Pop, Pop, Pop]"
  have "fill_run (producer_new (heap_new 2 0xFFFFFFFF (0 :: nat)) 2) (heap_new 2 0xFFFFFFFF 0) ?calls = fill_spec (unat (2 :: u32)) [] ?calls"
    using ring_refines_queue [of 2 1 "0xFFFFFFFF" "0 :: nat" ?calls "[]"] by (simp del: fill_run.simps fill_spec.simps)
  also have "\<dots> = [Untaken [9], Popped (Some 7), Untaken [], Popped (Some 8), Popped (Some 9), Popped None]" by simp
  finally show ?thesis .
qed

end
