(* ===== verification/Bypass.thy ===== *)
theory Bypass
  imports Pools
begin

text \<open>
  The kernel-bypass shell of \<^verbatim>\<open>crates/transports/core/src/bypass/mod.rs\<close>, its receive metrics
  (\<^verbatim>\<open>telemetry.rs\<close>) and the mock driver (\<^verbatim>\<open>bypass/mock.rs\<close>).

  A driver is a state \<open>'d\<close> with the operations of the trait \<^verbatim>\<open>Driver\<close> (\<open>driver_ops\<close>). The feature
  \<^verbatim>\<open>observability\<close> is modelled as compiled in; the process-wide metrics registry is the field
  \<open>bt_metrics\<close> and the runtime gate \<^verbatim>\<open>metrics_enabled\<close> an argument of each call. With the feature off the shell
  behaves as with the gate off.
\<close>

section \<open>Receive metrics\<close>

datatype drop_reason = NoBuffer | NicMissed | DropTruncated | DecapFiltered

record metrics =
  recv_packets :: "string \<Rightarrow> u64"
  recv_bytes :: "string \<Rightarrow> u64"
  recv_drops :: "string \<Rightarrow> drop_reason \<Rightarrow> u64"

definition record_recv_burst :: "bool \<Rightarrow> string \<Rightarrow> u64 \<Rightarrow> u64 \<Rightarrow> metrics \<Rightarrow> metrics" where
  "record_recv_burst gate be packets bs m =
     (if packets = 0 \<or> \<not> gate then m
      else m\<lparr>recv_packets := (recv_packets m)(be := recv_packets m be + packets),
             recv_bytes := (recv_bytes m)(be := recv_bytes m be + bs)\<rparr>)"

definition record_drops :: "bool \<Rightarrow> string \<Rightarrow> drop_reason \<Rightarrow> u64 \<Rightarrow> metrics \<Rightarrow> metrics" where
  "record_drops gate be reason delta m =
     (if delta = 0 \<or> \<not> gate then m
      else m\<lparr>recv_drops := (recv_drops m)(be := (recv_drops m be)(reason := recv_drops m be reason + delta))\<rparr>)"

section \<open>Drivers\<close>

datatype polled = Frames nat | Idle | Exhausted

record driver_stats =
  no_buffer :: u64
  nic_missed :: u64
  ds_truncated :: u64
  syscalls :: u64

definition driver_stats_default :: driver_stats where
  "driver_stats_default = \<lparr>no_buffer = 0, nic_missed = 0, ds_truncated = 0, syscalls = 0\<rparr>"

record ('d, 'f) driver_ops =
  backend_name :: string
  poll_frames :: "'d \<Rightarrow> 'f frame_batch \<Rightarrow> (transport_error + polled) \<times> 'd \<times> 'f frame_batch"
  stats_of :: "'d \<Rightarrow> driver_stats"
  pool_stats_of :: "'d \<Rightarrow> pool_stats"
  frame_len :: "'d \<Rightarrow> 'f \<Rightarrow> nat"

section \<open>The shell\<close>

definition STATS_EVERY :: u32 where
  "STATS_EVERY = 1024"

record 'd bypass =
  bt_driver :: 'd
  deferred :: "transport_error option"
  bt_last :: driver_stats
  bt_calls :: u32
  bt_metrics :: metrics

definition bypass_new :: "('d, 'f) driver_ops \<Rightarrow> metrics \<Rightarrow> 'd \<Rightarrow> 'd bypass" where
  "bypass_new ops m d =
     \<lparr>bt_driver = d, deferred = None, bt_last = stats_of ops d, bt_calls = 0, bt_metrics = m\<rparr>"

definition bypass_poll_frames ::
  "('d, 'f) driver_ops \<Rightarrow> 'd bypass \<Rightarrow> 'f frame_batch \<Rightarrow> (transport_error + nat) \<times> 'd bypass \<times> 'f frame_batch" where
  "bypass_poll_frames ops t out =
     (case deferred t of
        Some e \<Rightarrow> (Inl e, t\<lparr>deferred := None\<rparr>, out)
      | None \<Rightarrow>
          (case poll_frames ops (bt_driver t) out of
             (polled, d, out') \<Rightarrow>
               (let pushed = batch_len out' - batch_len out; t' = t\<lparr>bt_driver := d\<rparr> in
                case polled of
                  Inr outcome \<Rightarrow>
                    if outcome = Exhausted \<and> pushed = 0 then
                      (let ps = pool_stats_of ops d in (Inl (PoolExhausted (ps_in_use ps) (ps_capacity ps)), t', out'))
                    else (Inr pushed, t', out')
                | Inl e \<Rightarrow>
                    if 0 < pushed then (Inr pushed, t'\<lparr>deferred := Some e\<rparr>, out')
                    else (Inl e, t', out'))))"

text \<open>\<^verbatim>\<open>saturating_sub\<close> on \<^verbatim>\<open>u64\<close>.\<close>

definition sat_sub :: "u64 \<Rightarrow> u64 \<Rightarrow> u64" where
  "sat_sub a b = (if b \<le> a then a - b else 0)"

definition report_drops :: "('d, 'f) driver_ops \<Rightarrow> bool \<Rightarrow> 'd bypass \<Rightarrow> 'd bypass" where
  "report_drops ops gate t =
     (let now = stats_of ops (bt_driver t); prev = bt_last t; be = backend_name ops;
          m1 = record_drops gate be NoBuffer (sat_sub (no_buffer now) (no_buffer prev)) (bt_metrics t);
          m2 = record_drops gate be NicMissed (sat_sub (nic_missed now) (nic_missed prev)) m1;
          m3 = record_drops gate be DropTruncated (sat_sub (ds_truncated now) (ds_truncated prev)) m2
      in t\<lparr>bt_metrics := m3, bt_last := now\<rparr>)"

definition report :: "('d, 'f) driver_ops \<Rightarrow> bool \<Rightarrow> 'f list \<Rightarrow> 'd bypass \<Rightarrow> 'd bypass" where
  "report ops gate pushed t =
     (if \<not> gate then t
      else
        let t1 = (if pushed = [] then t
                  else t\<lparr>bt_metrics := record_recv_burst gate (backend_name ops) (of_nat (length pushed))
                            (sum_list (map (\<lambda>f. of_nat (frame_len ops (bt_driver t) f)) pushed)) (bt_metrics t)\<rparr>);
            t2 = t1\<lparr>bt_calls := bt_calls t1 + 1\<rparr>
        in if bt_calls t2 = STATS_EVERY then report_drops ops gate (t2\<lparr>bt_calls := 0\<rparr>) else t2)"

definition bypass_recv ::
  "('d, 'f) driver_ops \<Rightarrow> bool \<Rightarrow> 'd bypass \<Rightarrow> 'f frame_batch \<Rightarrow> (transport_error + nat) \<times> 'd bypass \<times> 'f frame_batch" where
  "bypass_recv ops gate t out =
     (case bypass_poll_frames ops t out of
        (res, t', out') \<Rightarrow> (res, report ops gate (drop (batch_len out) (fb_frames out')) t', out'))"

lemma report_keeps: "bt_driver (report ops gate fs t) = bt_driver t" "deferred (report ops gate fs t) = deferred t"
  by (simp_all add: report_def report_drops_def Let_def)

section \<open>The driver contract\<close>

text \<open>
  The documentation of \<^verbatim>\<open>Driver::poll_frames\<close>: it only pushes, at most what fits, and its outcome counts what it
  pushed. Under it the shell is a burst source.
\<close>

fun outcome_ok :: "polled \<Rightarrow> 'f list \<Rightarrow> bool" where
  "outcome_ok (Frames n) fs \<longleftrightarrow> n = length fs \<and> fs \<noteq> []"
| "outcome_ok Idle fs \<longleftrightarrow> fs = []"
| "outcome_ok Exhausted fs \<longleftrightarrow> True"

locale burst_driver =
  fixes ops :: "('d, 'f) driver_ops"
    and drv_inv :: "'d \<Rightarrow> bool"
    and gate :: bool
  assumes poll_pushes:
    "drv_inv d \<Longrightarrow> 0 < spare out \<Longrightarrow> poll_frames ops d out = (res, d', out') \<Longrightarrow>
     \<exists>fs. extends_batch out fs out' \<and> (\<forall>p. res = Inr p \<longrightarrow> outcome_ok p fs)"
    and poll_keeps:
    "drv_inv d \<Longrightarrow> 0 < spare out \<Longrightarrow> poll_frames ops d out = (res, d', out') \<Longrightarrow> drv_inv d'"
begin

lemma shell_pushes:
  assumes "drv_inv (bt_driver t)" "0 < spare out" "bypass_recv ops gate t out = (res, t', out')"
  shows "\<exists>fs. extends_batch out fs out' \<and> (\<forall>n. res = Inr n \<longrightarrow> n = length fs) \<and> (\<forall>e. res = Inl e \<longrightarrow> fs = [])"
    and "drv_inv (bt_driver t')"
proof -
  have "(\<exists>fs. extends_batch out fs out' \<and> (\<forall>n. res = Inr n \<longrightarrow> n = length fs) \<and> (\<forall>e. res = Inl e \<longrightarrow> fs = []))
      \<and> drv_inv (bt_driver t')"
  proof (cases "deferred t")
    case (Some e)
    then show ?thesis using assms by (auto simp: bypass_recv_def bypass_poll_frames_def report_keeps)
  next
    case None
    obtain pr d o1 where p: "poll_frames ops (bt_driver t) out = (pr, d, o1)" by (metis prod_cases3)
    obtain fs where fs: "extends_batch out fs o1" using poll_pushes [OF assms(1,2) p] by blast
    then have n: "batch_len o1 - batch_len out = length fs" by (auto simp: extends_batch_def batch_len_def)
    have d: "drv_inv d" by (rule poll_keeps [OF assms(1,2) p])
    have "out' = o1 \<and> bt_driver t' = d \<and> (\<forall>n. res = Inr n \<longrightarrow> n = length fs) \<and> (\<forall>e. res = Inl e \<longrightarrow> length fs = 0)"
      using assms(3) None p n
      by (cases pr) (auto simp: bypass_recv_def bypass_poll_frames_def report_keeps Let_def split: if_split_asm)
    then show ?thesis using fs d by auto
  qed
  then show "\<exists>fs. extends_batch out fs out' \<and> (\<forall>n. res = Inr n \<longrightarrow> n = length fs) \<and> (\<forall>e. res = Inl e \<longrightarrow> fs = [])"
    and "drv_inv (bt_driver t')" by blast+
qed

text \<open>Frames never travel with an error.\<close>

lemma shell_error_alone:
  "drv_inv (bt_driver t) \<Longrightarrow> 0 < spare out \<Longrightarrow> bypass_recv ops gate t out = (Inl e, t', out') \<Longrightarrow> out' = out"
  using shell_pushes(1) [of t out "Inl e" t' out'] by (auto simp: extends_batch_def)

end

sublocale burst_driver \<subseteq> shell: burst_source "bypass_recv ops gate" "\<lambda>t. drv_inv (bt_driver t)"
proof unfold_locales
  fix t and out :: "'f frame_batch" and res t' out'
  assume a: "drv_inv (bt_driver t)" "0 < spare out" "bypass_recv ops gate t out = (res, t', out')"
  show "\<exists>fs. extends_batch out fs out' \<and> (\<forall>n. res = Inr n \<longrightarrow> n = length fs)"
    using shell_pushes(1) [OF a] by blast
  show "drv_inv (bt_driver t')" by (rule shell_pushes(2) [OF a])
qed

text \<open>A driver that says which frames are still to come makes the shell a frame stream.\<close>

locale stream_driver = burst_driver ops drv_inv gate
  for ops :: "('d, 'f) driver_ops" and drv_inv :: "'d \<Rightarrow> bool" and gate :: bool +
  fixes coming :: "'d \<Rightarrow> 'f list"
  assumes poll_takes:
    "drv_inv d \<Longrightarrow> 0 < spare out \<Longrightarrow> poll_frames ops d out = (res, d', out') \<Longrightarrow>
     \<exists>fs. extends_batch out fs out' \<and> coming d = fs @ coming d'"
begin

lemma shell_takes:
  assumes "drv_inv (bt_driver t)" "0 < spare out" "bypass_recv ops gate t out = (res, t', out')"
  shows "\<exists>fs. extends_batch out fs out' \<and> coming (bt_driver t) = fs @ coming (bt_driver t')"
proof (cases "deferred t")
  case (Some e)
  then show ?thesis using assms(3) by (auto simp: bypass_recv_def bypass_poll_frames_def report_keeps)
next
  case None
  obtain pr d o1 where p: "poll_frames ops (bt_driver t) out = (pr, d, o1)" by (metis prod_cases3)
  have "out' = o1 \<and> bt_driver t' = d"
    using assms(3) None p
    by (cases pr) (auto simp: bypass_recv_def bypass_poll_frames_def report_keeps Let_def split: if_split_asm)
  with poll_takes [OF assms(1,2) p] show ?thesis by simp
qed

end

sublocale stream_driver \<subseteq> stream_shell: frame_stream "bypass_recv ops gate" "\<lambda>t. drv_inv (bt_driver t)" "\<lambda>t. coming (bt_driver t)"
proof unfold_locales
  fix t and out :: "'f frame_batch" and res t' out'
  assume a: "drv_inv (bt_driver t)" "0 < spare out" "bypass_recv ops gate t out = (res, t', out')"
  obtain fs where fs: "extends_batch out fs out'" "coming (bt_driver t) = fs @ coming (bt_driver t')"
    using shell_takes [OF a] by blast
  moreover obtain gs where "extends_batch out gs out'" "\<forall>n. res = Inr n \<longrightarrow> n = length gs" "\<forall>e. res = Inl e \<longrightarrow> gs = []"
    using shell_pushes(1) [OF a] by blast
  moreover from fs(1) this(1) have "gs = fs" by (rule extends_batch_unique)
  ultimately show "\<exists>fs. extends_batch out fs out' \<and> coming (bt_driver t) = fs @ coming (bt_driver t')
      \<and> (\<forall>n. res = Inr n \<longrightarrow> n = length fs) \<and> (\<forall>e. res = Inl e \<longrightarrow> fs = [])" by blast
qed

section \<open>Nothing is lost in the shell\<close>

text \<open>What a caller hears: the frames of one call, or an error.\<close>

datatype 'f heard = Got "'f list" | Failed transport_error

definition driver_heard :: "('d, 'f) driver_ops \<Rightarrow> (transport_error + polled) \<times> 'd \<times> 'f frame_batch \<Rightarrow> 'f heard list" where
  "driver_heard ops r =
     (case r of (res, d, out) \<Rightarrow>
        (if fb_frames out = [] then [] else [Got (fb_frames out)]) @
        (case res of
           Inl e \<Rightarrow> [Failed e]
         | Inr p \<Rightarrow> if p = Exhausted \<and> fb_frames out = []
                    then [Failed (PoolExhausted (ps_in_use (pool_stats_of ops d)) (ps_capacity (pool_stats_of ops d)))]
                    else []))"

definition shell_heard :: "(transport_error + nat) \<times> 't \<times> 'f frame_batch \<Rightarrow> 'f heard list" where
  "shell_heard r =
     (case r of (res, t, out) \<Rightarrow>
        (if fb_frames out = [] then [] else [Got (fb_frames out)]) @ (case res of Inl e \<Rightarrow> [Failed e] | Inr n \<Rightarrow> []))"

text \<open>Calls in a row, each with a drained batch of \<open>cap\<close> frames; the gates of a run are listed last call first.\<close>

primrec driver_run :: "('d, 'f) driver_ops \<Rightarrow> nat \<Rightarrow> nat \<Rightarrow> 'd \<Rightarrow> 'f heard list \<times> 'd" where
  "driver_run ops cap 0 d = ([], d)"
| "driver_run ops cap (Suc n) d =
     (case driver_run ops cap n d of (hs, d1) \<Rightarrow>
        let r = poll_frames ops d1 (batch_with_capacity cap) in (hs @ driver_heard ops r, fst (snd r)))"

fun shell_run :: "('d, 'f) driver_ops \<Rightarrow> nat \<Rightarrow> bool list \<Rightarrow> 'd bypass \<Rightarrow> 'f heard list \<times> 'd bypass" where
  "shell_run ops cap [] t = ([], t)"
| "shell_run ops cap (gate # gates) t =
     (case shell_run ops cap gates t of (hs, t1) \<Rightarrow>
        let r = bypass_recv ops gate t1 (batch_with_capacity cap) in (hs @ shell_heard r, fst (snd r)))"

definition still_deferred :: "'d bypass \<Rightarrow> 'f heard list" where
  "still_deferred t = (case deferred t of None \<Rightarrow> [] | Some e \<Rightarrow> [Failed e])"

lemma shell_call:
  assumes "bypass_recv ops gate t (batch_with_capacity cap) = r" "deferred t = None"
  shows "shell_heard r @ still_deferred (fst (snd r)) = driver_heard ops (poll_frames ops (bt_driver t) (batch_with_capacity cap))"
    and "bt_driver (fst (snd r)) = fst (snd (poll_frames ops (bt_driver t) (batch_with_capacity cap)))"
proof -
  obtain pr d out where p: "poll_frames ops (bt_driver t) (batch_with_capacity cap) = (pr, d, out)" by (metis prod_cases3)
  have len: "batch_len (batch_with_capacity cap :: 'b frame_batch) = 0" "batch_len out = length (fb_frames out)"
    by (simp_all add: batch_defs)
  show "shell_heard r @ still_deferred (fst (snd r)) = driver_heard ops (poll_frames ops (bt_driver t) (batch_with_capacity cap))"
    using assms(1)
    by (cases pr) (auto simp: bypass_recv_def bypass_poll_frames_def assms(2) p len shell_heard_def driver_heard_def
        still_deferred_def report_keeps Let_def)
  show "bt_driver (fst (snd r)) = fst (snd (poll_frames ops (bt_driver t) (batch_with_capacity cap)))"
    using assms(1)
    by (cases pr) (auto simp: bypass_recv_def bypass_poll_frames_def assms(2) p report_keeps Let_def)
qed

text \<open>
  C31. The shell loses nothing. Whatever the driver answers, the frames and the errors a caller hears from
  \<^verbatim>\<open>recv_burst\<close> over a run of calls, followed by the error still waiting in \<^verbatim>\<open>deferred\<close>, are exactly those of the
  driver calls the shell made, in order: an error met after frames were pushed is heard right after those frames, and
  one call that reports a deferred error makes no driver call.
\<close>

theorem shell_faithful:
  "\<exists>k \<le> length gates. (case shell_run ops cap gates (bypass_new ops m d) of (hs, t) \<Rightarrow>
     driver_run ops cap k d = (hs @ still_deferred t, bt_driver t))"
proof (induction gates)
  case Nil
  show ?case by (simp add: still_deferred_def bypass_new_def)
next
  case (Cons gate gates)
  obtain hs t where run: "shell_run ops cap gates (bypass_new ops m d) = (hs, t)" by fastforce
  with Cons.IH obtain k where k: "k \<le> length gates" "driver_run ops cap k d = (hs @ still_deferred t, bt_driver t)" by auto
  obtain r where r: "bypass_recv ops gate t (batch_with_capacity cap) = r" by blast
  show ?case
  proof (cases "deferred t")
    case None
    have "driver_run ops cap (Suc k) d = ((hs @ shell_heard r) @ still_deferred (fst (snd r)), bt_driver (fst (snd r)))"
      using k shell_call [OF r None] by (simp add: Let_def still_deferred_def [of t] None)
    then show ?thesis using run r k(1) by (intro exI [of _ "Suc k"]) (simp add: Let_def)
  next
    case (Some e)
    have "shell_heard r = [Failed e]" "deferred (fst (snd r)) = None" "bt_driver (fst (snd r)) = bt_driver t"
      using r Some
      by (auto simp: bypass_recv_def bypass_poll_frames_def shell_heard_def report_keeps batch_with_capacity_def)
    then show ?thesis using run r k Some by (intro exI [of _ k]) (simp add: Let_def still_deferred_def)
  qed
qed

section \<open>Drop counters\<close>

text \<open>The driver counter behind each drop reason; the decapsulator reports \<open>DecapFiltered\<close> itself.\<close>

primrec counter :: "drop_reason \<Rightarrow> driver_stats \<Rightarrow> u64" where
  "counter NoBuffer s = no_buffer s"
| "counter NicMissed s = nic_missed s"
| "counter DropTruncated s = ds_truncated s"
| "counter DecapFiltered s = 0"

definition counters_le :: "driver_stats \<Rightarrow> driver_stats \<Rightarrow> bool" where
  "counters_le a b \<longleftrightarrow> no_buffer a \<le> no_buffer b \<and> nic_missed a \<le> nic_missed b \<and> ds_truncated a \<le> ds_truncated b"

lemma counters_le_refl [simp]: "counters_le a a"
  by (simp add: counters_le_def)

lemma counters_le_trans: "counters_le a b \<Longrightarrow> counters_le b c \<Longrightarrow> counters_le a c"
  by (auto simp: counters_le_def)

lemma counter_mono: "counters_le a b \<Longrightarrow> counter r a \<le> counter r b"
  by (cases r) (simp_all add: counters_le_def)

text \<open>
  The states of a shell over a driver that starts at \<open>d\<close>: calls with the gate on or off, and steps of the driver on its
  own (frames arrive or are dropped) that lower no counter.
\<close>

inductive shell_reach :: "('d, 'f) driver_ops \<Rightarrow> metrics \<Rightarrow> 'd \<Rightarrow> 'd bypass \<Rightarrow> bool" for ops m d where
  start: "shell_reach ops m d (bypass_new ops m d)"
| call: "shell_reach ops m d t \<Longrightarrow> bypass_recv ops gate t out = (res, t', out') \<Longrightarrow> shell_reach ops m d t'"
| own: "shell_reach ops m d t \<Longrightarrow> counters_le (stats_of ops (bt_driver t)) (stats_of ops d') \<Longrightarrow>
    shell_reach ops m d (t\<lparr>bt_driver := d'\<rparr>)"

definition monotonic_counters :: "('d, 'f) driver_ops \<Rightarrow> bool" where
  "monotonic_counters ops \<longleftrightarrow>
     (\<forall>d out res d' out'. poll_frames ops d out = (res, d', out') \<longrightarrow> counters_le (stats_of ops d) (stats_of ops d'))"

definition drops_accounted :: "('d, 'f) driver_ops \<Rightarrow> metrics \<Rightarrow> 'd \<Rightarrow> 'd bypass \<Rightarrow> bool" where
  "drops_accounted ops m d t \<longleftrightarrow>
     bt_calls t < STATS_EVERY \<and> counters_le (stats_of ops d) (bt_last t) \<and> counters_le (bt_last t) (stats_of ops (bt_driver t))
     \<and> (\<forall>be r. recv_drops (bt_metrics t) be r =
            recv_drops m be r + (if be = backend_name ops then counter r (bt_last t) - counter r (stats_of ops d) else 0))"

lemma record_drops_at:
  "recv_drops (record_drops True be r x m) be' r' = recv_drops m be' r' + (if be' = be \<and> r' = r then x else 0)"
  by (simp add: record_drops_def)

lemma sat_sub_le: "b \<le> a \<Longrightarrow> sat_sub a b = a - b"
  by (simp add: sat_sub_def)

lemma report_drops_accounted:
  assumes "drops_accounted ops m d t"
  shows "drops_accounted ops m d (report_drops ops True t)"
proof -
  let ?now = "stats_of ops (bt_driver t)"
  have le: "counters_le (stats_of ops d) (bt_last t)" "counters_le (bt_last t) ?now"
    and acc: "\<And>be r. recv_drops (bt_metrics t) be r =
      recv_drops m be r + (if be = backend_name ops then counter r (bt_last t) - counter r (stats_of ops d) else 0)"
    using assms by (auto simp: drops_accounted_def)
  have "recv_drops (bt_metrics (report_drops ops True t)) be r =
      recv_drops m be r + (if be = backend_name ops then counter r ?now - counter r (stats_of ops d) else 0)" for be r
    using le by (cases r) (simp_all add: report_drops_def Let_def record_drops_at acc sat_sub_le counters_le_def)
  then show ?thesis
    using assms counters_le_trans [OF le] by (simp add: drops_accounted_def report_drops_def Let_def)
qed

lemma report_accounted:
  assumes "drops_accounted ops m d t"
  shows "drops_accounted ops m d (report ops gate fs t)"
proof (cases gate)
  case False
  then show ?thesis using assms by (simp add: report_def)
next
  case True
  let ?t = "if fs = [] then t
    else t\<lparr>bt_metrics := record_recv_burst gate (backend_name ops) (of_nat (length fs))
              (sum_list (map (\<lambda>f. of_nat (frame_len ops (bt_driver t) f)) fs)) (bt_metrics t)\<rparr>"
  have t: "drops_accounted ops m d (?t\<lparr>bt_calls := c\<rparr>)" if "c < STATS_EVERY" for c
    using assms that by (simp add: drops_accounted_def record_recv_burst_def)
  have "bt_calls t < STATS_EVERY" using assms by (simp add: drops_accounted_def)
  then have next_call: "bt_calls t + 1 < STATS_EVERY" if "bt_calls t + 1 \<noteq> STATS_EVERY"
    using that unfolding STATS_EVERY_def by (simp add: word_less_nat_alt unat_word_ariths word_unat_eq_iff)
  have "0 < STATS_EVERY" by (simp add: STATS_EVERY_def)
  with t [of 0] t [of "bt_calls t + 1"] next_call True show ?thesis
    by (auto simp: report_def Let_def intro: report_drops_accounted)
qed


text \<open>A driver whose ring stays empty; its state is its counters.\<close>

definition idle_ops :: "(driver_stats, unit) driver_ops" where
  "idle_ops = \<lparr>backend_name = ''idle'', poll_frames = (\<lambda>d out. (Inr Idle, d, out)), stats_of = (\<lambda>d. d),
     pool_stats_of = (\<lambda>d. \<lparr>ps_capacity = 0, ps_in_use = 0\<rparr>), frame_len = (\<lambda>d f. 0)\<rparr>"

definition no_metrics :: metrics where
  "no_metrics = \<lparr>recv_packets = (\<lambda>_. 0), recv_bytes = (\<lambda>_. 0), recv_drops = (\<lambda>_ _. 0)\<rparr>"


end
