(* ===== verification/Sys_Calls.thy ===== *)
theory Sys_Calls
  imports Transport_Core
begin

text \<open>
  Fallible calls on an environment: a system call, or code that makes some, is a function of the environment's state \<open>'k\<close> that
  returns a result and the new state. \<open>attempt\<close> is \<^verbatim>\<open>?\<close> followed by the rest of the function, \<open>map_err\<close> is
  \<^verbatim>\<open>Result::map_err\<close>, \<open>lift\<close> a result that needs no call. The multicast interface of \<^verbatim>\<open>crates/transports/core/src/config.rs\<close> is here as well.
\<close>

named_theorems call_simps \<open>successful and failed calls\<close>

type_synonym ('k, 'e, 'a) call = "'k \<Rightarrow> ('e + 'a) \<times> 'k"

definition attempt :: "('k, 'e, 'a) call \<Rightarrow> ('a \<Rightarrow> ('k, 'e, 'b) call) \<Rightarrow> ('k, 'e, 'b) call" where
  "attempt m f k = (case m k of (Inl e, k') \<Rightarrow> (Inl e, k') | (Inr x, k') \<Rightarrow> f x k')"

definition map_err :: "('e \<Rightarrow> 'd) \<Rightarrow> ('k, 'e, 'a) call \<Rightarrow> ('k, 'd, 'a) call" where
  "map_err g m k = (case m k of (Inl e, k') \<Rightarrow> (Inl (g e), k') | (Inr x, k') \<Rightarrow> (Inr x, k'))"

definition lift :: "'e + 'a \<Rightarrow> ('k, 'e, 'a) call" where
  "lift r k = (r, k)"

text \<open>A call made only when an option asks for it.\<close>

definition when_some :: "'o option \<Rightarrow> ('o \<Rightarrow> ('k, 'e, unit) call) \<Rightarrow> ('k, 'e, unit) call" where
  "when_some x f = (case x of None \<Rightarrow> lift (Inr ()) | Some v \<Rightarrow> f v)"

definition when_set :: "bool \<Rightarrow> ('k, 'e, unit) call \<Rightarrow> ('k, 'e, unit) call" where
  "when_set b m = (if b then m else lift (Inr ()))"

lemma attempt_Inr [call_simps]:
  "attempt m f k = (Inr y, k') \<longleftrightarrow> (\<exists>x k1. m k = (Inr x, k1) \<and> f x k1 = (Inr y, k'))"
  by (auto simp: attempt_def split: prod.split sum.split)

lemma attempt_Inl [call_simps]:
  "attempt m f k = (Inl e, k') \<longleftrightarrow> m k = (Inl e, k') \<or> (\<exists>x k1. m k = (Inr x, k1) \<and> f x k1 = (Inl e, k'))"
  by (auto simp: attempt_def split: prod.split sum.split)

lemma map_err_Inr [call_simps]: "map_err g m k = (Inr x, k') \<longleftrightarrow> m k = (Inr x, k')"
  by (auto simp: map_err_def split: prod.split sum.split)

lemma map_err_Inl [call_simps]: "map_err g m k = (Inl e, k') \<longleftrightarrow> (\<exists>e'. m k = (Inl e', k') \<and> e = g e')"
  by (auto simp: map_err_def split: prod.split sum.split)

lemma lift_eq [call_simps]: "lift r k = (r', k') \<longleftrightarrow> r = r' \<and> k' = k"
  by (auto simp: lift_def)

text \<open>A pure check in front: its error is returned before the first call.\<close>

lemma attempt_lift: "attempt (lift r) f k = (case r of Inl e \<Rightarrow> (Inl e, k) | Inr x \<Rightarrow> f x k)"
  by (simp add: attempt_def lift_def split: sum.split)

text \<open>Error numbers of Linux.\<close>

definition EPERM :: int where "EPERM = 1"
definition ENOENT :: int where "ENOENT = 2"
definition E2BIG :: int where "E2BIG = 7"
definition EACCES :: int where "EACCES = 13"
definition EBUSY :: int where "EBUSY = 16"
definition EEXIST :: int where "EEXIST = 17"
definition ENOTDIR :: int where "ENOTDIR = 20"
definition EAFNOSUPPORT :: int where "EAFNOSUPPORT = 97"
definition ENOBUFS :: int where "ENOBUFS = 105"

section \<open>Addresses and multicast\<close>

datatype domain = DomainV4 | DomainV6

type_synonym ipv4_addr = "u8 \<times> u8 \<times> u8 \<times> u8"

datatype ip_addr = IpV4 ipv4_addr | IpV6 "u16 list"

record multicast_interface =
  mi_v4 :: "ipv4_addr option"
  mi_v6_scope_id :: "u32 option"

definition multicast_default :: multicast_interface where
  "multicast_default = \<lparr>mi_v4 = None, mi_v6_scope_id = None\<rparr>"

end
