(* ===== verification/Xsk_Driver.thy ===== *)
theory Xsk_Driver
  imports Xsk_Ring Bypass Sys_Calls
begin

text \<open>
  The AF_XDP driver of \<^verbatim>\<open>crates/transports/afxdp/src/driver.rs\<close>: descriptor bounds (\<^verbatim>\<open>locate\<close>), the fill and receive rings
  over the slots of an index pool (\<^verbatim>\<open>Rings\<close>) and the \<^verbatim>\<open>Driver\<close> implementation.

  The kernel runs beside the driver. What it shares with it is the record \<open>xsk_kernel\<close> and the memory region of the pool. Its
  activity is a script of functions on both, one of which runs before each load of a shared word; an empty script is a
  quiet kernel. \<open>kernel_step\<close> is the documented behaviour of the kernel: it takes chunks off the fill ring, writes only into
  chunks it holds and gives a chunk back with a descriptor on the receive ring. Its answers to the wakeup call are a list.
\<close>

section \<open>Descriptors\<close>

record xdp_desc =
  xd_addr :: u64
  xd_len :: u32
  xd_options :: u32

datatype located = LFrame u32 u32 u32 | LTruncated u32 | LForeign

definition locate :: "u64 \<Rightarrow> u32 \<Rightarrow> u32 \<Rightarrow> u32 \<Rightarrow> located" where
  "locate addr len frame_size frames =
     (let at = addr div ucast frame_size; off = addr mod ucast frame_size in
      if \<not> (unat at < 2 ^ 32 \<and> unat off < 2 ^ 32) then LForeign
      else let slot = (ucast at :: u32); offset = (ucast off :: u32) in
      if frames \<le> slot then LForeign
      else if unat offset + unat len < 2 ^ 32 \<and> offset + len \<le> frame_size then LFrame slot offset len
      else LTruncated slot)"

section \<open>Driver state\<close>

record rings =
  xr_fill :: ring_side
  xr_rx :: ring_side
  xr_free :: "u32 list"
  xr_freed :: "u32 list"
  xr_frames :: u32
  xr_frame_size :: u32
  xr_truncated :: u64

record xdp_statistics =
  st_rx_dropped :: u64
  st_rx_ring_full :: u64

record kernel_drops =
  kd_rx_dropped :: u64
  kd_rx_ring_full :: u64

text \<open>\<open>kn_held\<close> lists the chunks the kernel has taken off the fill ring and not given back.\<close>

record xsk_kernel =
  kn_fill :: "u64 ring_mem"
  kn_rx :: "xdp_desc ring_mem"
  kn_held :: "u64 list"
  kn_stats :: xdp_statistics

type_synonym kernel_act = "xsk_kernel \<times> region \<Rightarrow> xsk_kernel \<times> region"

record xsk_driver =
  xk_rings :: rings
  xk_pool :: index_pool
  xk_kernel :: xsk_kernel
  xk_syscalls :: u64
  xk_drops :: kernel_drops
  xk_script :: "kernel_act list"
  xk_wakes :: "(io_error + unit) list"

definition kernel_turn :: "xsk_driver \<Rightarrow> xsk_driver" where
  "kernel_turn d =
     (case xk_script d of
        [] \<Rightarrow> d
      | act # acts \<Rightarrow>
          (case act (xk_kernel d, ip_region (xk_pool d)) of
             (kn, rg) \<Rightarrow> d\<lparr>xk_kernel := kn, xk_pool := (xk_pool d)\<lparr>ip_region := rg\<rparr>, xk_script := acts\<rparr>))"

section \<open>Rings\<close>

definition rings_new :: "ring_side \<Rightarrow> ring_side \<Rightarrow> u32 \<Rightarrow> u32 \<Rightarrow> rings" where
  "rings_new fill rx frames frame_size =
     \<lparr>xr_fill = fill, xr_rx = rx, xr_free = map of_nat [0..<unat frames], xr_freed = [], xr_frames = frames,
      xr_frame_size = frame_size, xr_truncated = 0\<rparr>"

text \<open>The closure pops slots off the end of the free list; those \<^verbatim>\<open>produce\<close> does not take stay.\<close>

definition refill :: "xsk_driver \<Rightarrow> xsk_driver" where
  "refill d =
     (case drain_freed (xr_freed (xk_rings d)) (xk_pool d) of
        (freed, pool) \<Rightarrow>
          let r = xk_rings d;
              d1 = kernel_turn (d\<lparr>xk_pool := pool, xk_rings := r\<lparr>xr_free := xr_free r @ freed, xr_freed := []\<rparr>\<rparr>);
              r1 = xk_rings d1
          in case produce (xr_fill r1) (kn_fill (xk_kernel d1))
                    (map (\<lambda>slot. ucast slot * ucast (xr_frame_size r1)) (rev (xr_free r1))) of
               (n, left, side, m) \<Rightarrow>
                 d1\<lparr>xk_rings := r1\<lparr>xr_fill := side, xr_free := take (length left) (xr_free r1)\<rparr>,
                    xk_kernel := (xk_kernel d1)\<lparr>kn_fill := m\<rparr>\<rparr>)"

fun place ::
  "xdp_desc list \<Rightarrow> rings \<Rightarrow> index_pool \<Rightarrow> nat \<Rightarrow> index_frame frame_batch
     \<Rightarrow> rings \<times> index_pool \<times> nat \<times> index_frame frame_batch" where
  "place [] r pool pushed out = (r, pool, pushed, out)"
| "place (desc # descs) r pool pushed out =
     (case locate (xd_addr desc) (xd_len desc) (xr_frame_size r) (xr_frames r) of
        LFrame slot offset len \<Rightarrow>
          (case pool_frame slot offset len pool of
             (f, pool') \<Rightarrow> place descs r pool' (pushed + 1) (batch_push f out))
      | LTruncated slot \<Rightarrow>
          place descs (r\<lparr>xr_truncated := xr_truncated r + 1, xr_free := xr_free r @ [slot]\<rparr>) pool pushed out
      | LForeign \<Rightarrow> place descs (r\<lparr>xr_truncated := xr_truncated r + 1\<rparr>) pool pushed out)"

definition to_u32_max :: "nat \<Rightarrow> u32" where
  "to_u32_max n = (if n < 2 ^ 32 then of_nat n else 0xFFFFFFFF)"

definition rx_pass :: "xsk_driver \<Rightarrow> nat \<Rightarrow> index_frame frame_batch \<Rightarrow> bool \<times> nat \<times> xsk_driver \<times> index_frame frame_batch" where
  "rx_pass d pushed out =
     (let d1 = kernel_turn d in
      case consume (xr_rx (xk_rings d1)) (kn_rx (xk_kernel d1)) (to_u32_max (spare out)) of
        (descs, side, m) \<Rightarrow>
          (case place descs ((xk_rings d1)\<lparr>xr_rx := side\<rparr>) (xk_pool d1) pushed out of
             (r, pool, pushed', out') \<Rightarrow>
               (descs = [] \<or> 0 < pushed' \<or> spare out' = 0, pushed',
                d1\<lparr>xk_rings := r, xk_pool := pool, xk_kernel := (xk_kernel d1)\<lparr>kn_rx := m\<rparr>\<rparr>, out')))"

definition rx_unread :: "xsk_driver \<Rightarrow> nat" where
  "rx_unread d = unat (rm_producer (kn_rx (xk_kernel d)) - rs_index (xr_rx (xk_rings d)))"

lemma place_keeps: "place descs r pool pushed out = (r', pool', pushed', out') \<Longrightarrow> xr_rx r' = xr_rx r \<and> xr_fill r' = xr_fill r
    \<and> xr_frames r' = xr_frames r \<and> xr_frame_size r' = xr_frame_size r \<and> xr_freed r' = xr_freed r"
  by (induction descs r pool pushed out rule: place.induct) (auto split: located.split_asm simp: pool_frame_def)

lemma consume_progress:
  assumes "consume s m limit = (xs, s', m')" "xs \<noteq> []"
  shows "unat (rm_producer m' - rs_index s') < unat (rm_producer m - rs_index s)"
proof -
  let ?t = "min (min (rm_producer m - rs_index s) (ring_size s)) limit"
  have t: "0 < ?t" using assms by (auto simp: consume_def Let_def word_gt_0 split: if_split_asm)
  then have s: "s' = s\<lparr>rs_index := rs_index s + ?t\<rparr>" "rm_producer m' = rm_producer m"
    using assms(1) by (auto simp: consume_def Let_def)
  have "?t \<le> rm_producer m - rs_index s" by (simp add: min.coboundedI1)
  then have "unat (rm_producer m - rs_index s - ?t) = unat (rm_producer m - rs_index s) - unat ?t"
    by (simp add: unat_sub)
  moreover have "0 < unat ?t" using t by (simp add: word_less_nat_alt)
  moreover have "unat ?t \<le> unat (rm_producer m - rs_index s)"
    using \<open>?t \<le> rm_producer m - rs_index s\<close> by (simp only: word_le_nat_alt)
  ultimately show ?thesis by (simp add: s diff_diff_eq)
qed

text \<open>A pass that goes on uses up a turn of the kernel or shortens what is unread.\<close>

lemma rx_pass_progress:
  assumes "rx_pass d pushed out = (stop, pushed', d', out')" "\<not> stop"
  shows "length (xk_script d') < length (xk_script d) \<or> (xk_script d' = xk_script d \<and> rx_unread d' < rx_unread d)"
proof -
  obtain descs side m where c: "consume (xr_rx (xk_rings (kernel_turn d))) (kn_rx (xk_kernel (kernel_turn d))) (to_u32_max (spare out))
      = (descs, side, m)" by (metis prod_cases3)
  obtain r pool n o' where p: "place descs ((xk_rings (kernel_turn d))\<lparr>xr_rx := side\<rparr>) (xk_pool (kernel_turn d)) pushed out = (r, pool, n, o')"
    by (metis prod_cases4)
  have d': "d' = (kernel_turn d)\<lparr>xk_rings := r, xk_pool := pool, xk_kernel := (xk_kernel (kernel_turn d))\<lparr>kn_rx := m\<rparr>\<rparr>" "descs \<noteq> []"
    using assms c p by (auto simp: rx_pass_def Let_def)
  show ?thesis
  proof (cases "xk_script d")
    case Nil
    then have q: "kernel_turn d = d" by (simp add: kernel_turn_def)
    show ?thesis using consume_progress [OF c d'(2)] place_keeps [OF p] by (simp add: d'(1) q rx_unread_def)
  next
    case (Cons act acts)
    then have "xk_script (kernel_turn d) = acts" by (simp add: kernel_turn_def split: prod.split)
    then show ?thesis by (simp add: d'(1) Cons)
  qed
qed

function rx_loop :: "xsk_driver \<Rightarrow> nat \<Rightarrow> index_frame frame_batch \<Rightarrow> nat \<times> xsk_driver \<times> index_frame frame_batch" where
  "rx_loop d pushed out =
     (case rx_pass d pushed out of
        (stop, pushed', d', out') \<Rightarrow> if stop then (pushed', d', out') else rx_loop d' pushed' out')"
  by pat_completeness auto
termination
  by (relation "measures [\<lambda>(d, _, _). length (xk_script d), \<lambda>(d, _, _). rx_unread d]")
    (auto dest!: sym [of _ "rx_pass _ _ _"] dest: rx_pass_progress)

declare rx_loop.simps [simp del]

section \<open>Driver\<close>

definition wake :: "xsk_driver \<Rightarrow> (transport_error + unit) \<times> xsk_driver" where
  "wake d =
     (let d1 = d\<lparr>xk_syscalls := xk_syscalls d + 1, xk_wakes := tl (xk_wakes d)\<rparr> in
      case (case xk_wakes d of [] \<Rightarrow> Inr () | w # _ \<Rightarrow> w) of
        Inr _ \<Rightarrow> (Inr (), d1)
      | Inl error \<Rightarrow>
          if error_kind error = WouldBlock \<or> error_kind error = Interrupted
             \<or> raw_os_error error = Some EBUSY \<or> raw_os_error error = Some ENOBUFS
          then (Inr (), d1)
          else (Inl (Io ''recvfrom(AF_XDP wakeup)'' error), d1))"

definition xsk_poll_frames ::
  "xsk_driver \<Rightarrow> index_frame frame_batch \<Rightarrow> (transport_error + polled) \<times> xsk_driver \<times> index_frame frame_batch" where
  "xsk_poll_frames d out =
     (case rx_loop (refill d) 0 out of
        (pushed, d1, out') \<Rightarrow>
          if 0 < pushed then (Inr (Frames pushed), d1, out')
          else
            let d2 = kernel_turn d1 in
            if needs_wakeup (kn_fill (xk_kernel d2)) then
              (case wake d2 of
                 (Inl e, d3) \<Rightarrow> (Inl e, d3, out')
               | (Inr _, d3) \<Rightarrow> (Inr Idle, d3, out'))
            else (Inr Idle, d2, out'))"

text \<open>\<^verbatim>\<open>open\<close> from the mapped rings on: every slot starts on the free list and goes to the fill ring.\<close>

definition xsk_start :: "u64 ring_mem \<Rightarrow> xdp_desc ring_mem \<Rightarrow> xdp_statistics \<Rightarrow> index_pool \<Rightarrow> u32 \<Rightarrow> u32 \<Rightarrow> xsk_driver" where
  "xsk_start fill rx st pool frames frame_size =
     refill \<lparr>xk_rings = rings_new (producer_new fill frames) (consumer_new rx frames) frames frame_size, xk_pool = pool,
       xk_kernel = \<lparr>kn_fill = fill, kn_rx = rx, kn_held = [], kn_stats = st\<rparr>, xk_syscalls = 0,
       xk_drops = \<lparr>kd_rx_dropped = 0, kd_rx_ring_full = 0\<rparr>, xk_script = [], xk_wakes = []\<rparr>"

text \<open>\<open>read\<close> is the outcome of \<^verbatim>\<open>getsockopt(XDP_STATISTICS)\<close>; a failed read keeps the last reading.\<close>

definition read_kernel_drops :: "xdp_statistics option \<Rightarrow> xsk_driver \<Rightarrow> kernel_drops \<times> xsk_driver" where
  "read_kernel_drops read d =
     (let d' = (case read of
                  None \<Rightarrow> d
                | Some st \<Rightarrow> d\<lparr>xk_drops := \<lparr>kd_rx_dropped = st_rx_dropped st, kd_rx_ring_full = st_rx_ring_full st\<rparr>\<rparr>)
      in (xk_drops d', d'))"

definition xsk_stats :: "xdp_statistics option \<Rightarrow> xsk_driver \<Rightarrow> driver_stats \<times> xsk_driver" where
  "xsk_stats read d =
     (case read_kernel_drops read d of
        (k, d') \<Rightarrow>
          (\<lparr>no_buffer = kd_rx_dropped k, nic_missed = kd_rx_ring_full k, ds_truncated = xr_truncated (xk_rings d'),
            syscalls = xk_syscalls d'\<rparr>, d'))"

text \<open>The shell reads the counters of a bound socket, a read that does not fail.\<close>

definition xsk_ops :: "(xsk_driver, index_frame) driver_ops" where
  "xsk_ops = \<lparr>backend_name = ''afxdp'', poll_frames = xsk_poll_frames,
     stats_of = (\<lambda>d. fst (xsk_stats (Some (kn_stats (xk_kernel d))) d)),
     pool_stats_of = (\<lambda>d. index_pool_stats (xk_pool d)), frame_len = (\<lambda>d f. unat (if_len f))\<rparr>"

end
