(* ===== verification/Xsk_Custody.thy ===== *)
theory Xsk_Custody
  imports Xsk_Driver
begin

text \<open>
  Slot custody of the AF_XDP driver: each slot sits in exactly one of the fill ring, the kernel, the receive ring, a live
  frame, the pool's freed list and the driver's free list, whatever the kernel does within its contract. So the kernel
  never writes into a frame the client holds.
\<close>

section \<open>Chunks and slots\<close>

definition slot_of :: "u32 \<Rightarrow> u64 \<Rightarrow> u32" where
  "slot_of fs a = of_nat (unat a div unat fs)"

definition in_umem :: "u32 \<Rightarrow> u32 \<Rightarrow> u64 \<Rightarrow> bool" where
  "in_umem fs n a \<longleftrightarrow> unat a < unat n * unat fs"

text \<open>A chunk address: the start of a slot.\<close>

definition chunk :: "u32 \<Rightarrow> u32 \<Rightarrow> u64 \<Rightarrow> bool" where
  "chunk fs n a \<longleftrightarrow> unat fs dvd unat a \<and> in_umem fs n a"

lemma umem_fits: "unat (n :: u32) * unat (fs :: u32) < 2 ^ 64"
proof -
  have "unat n < 2 ^ 32" "unat fs < 2 ^ 32" using unat_less_pow [of n] unat_less_pow [of fs] by simp_all
  then have "unat n * unat fs < 2 ^ 32 * 2 ^ 32" by (intro mult_strict_mono) simp_all
  then show ?thesis by simp
qed

lemma unat_slot_of:
  assumes "in_umem fs n a"
  shows "unat (slot_of fs a) = unat a div unat fs" "slot_of fs a < n"
proof -
  have "unat a div unat fs < unat n" using assms by (simp add: in_umem_def less_mult_imp_div_less)
  moreover have "unat n < 2 ^ 32" using unat_less_pow [of n] by simp
  ultimately show "unat (slot_of fs a) = unat a div unat fs" "slot_of fs a < n"
    by (simp_all add: slot_of_def unat_of_nat word_less_nat_alt)
qed

lemma chunk_start: "chunk fs n a \<Longrightarrow> unat a = unat (slot_of fs a) * unat fs"
  using unat_slot_of(1) [of fs n a] by (simp add: chunk_def)

lemma unat_chunk_addr: "unat (ucast slot * ucast fs :: u64) = unat (slot :: u32) * unat (fs :: u32)"
proof -
  have u: "unat (ucast w :: u64) = unat w" for w :: u32
    using unat_less_pow [of w] unfolding unsigned_ucast_eq by (simp add: take_bit_nat_eq_self_iff)
  show ?thesis using umem_fits [of slot fs] by (simp add: unat_word_ariths u)
qed

lemma chunk_addr:
  assumes "0 < fs" "slot < n"
  shows "chunk fs n (ucast slot * ucast fs)" "slot_of fs (ucast slot * ucast fs) = slot"
proof -
  have "0 < unat fs" using assms(1) by (simp add: word_less_nat_alt)
  then show "chunk fs n (ucast slot * ucast fs)" "slot_of fs (ucast slot * ucast fs) = slot"
    using assms(2) by (simp_all add: chunk_def in_umem_def unat_chunk_addr slot_of_def word_less_nat_alt)
qed

text \<open>\<^verbatim>\<open>locate\<close> is exact: it gives the slot and offset of an address in the UMEM and whether the packet ends in its slot.\<close>

lemma locate_exact:
  assumes "0 < fs"
  shows "locate a len fs n =
     (if \<not> in_umem fs n a then LForeign
      else if unat a mod unat fs + unat len \<le> unat fs then LFrame (slot_of fs a) (of_nat (unat a mod unat fs)) len
      else LTruncated (slot_of fs a))"
proof -
  have fs: "0 < unat fs" "unat fs < 2 ^ 32" using assms unat_less_pow [of fs] by (simp_all add: word_less_nat_alt)
  have ufs: "unat (ucast fs :: u64) = unat fs" using fs(2) unfolding unsigned_ucast_eq by (simp add: take_bit_nat_eq_self_iff)
  have at: "unat (a div ucast fs) = unat a div unat fs" "unat (a mod ucast fs) = unat a mod unat fs"
    by (simp_all add: unat_div_distrib unat_mod_distrib ufs)
  have off: "unat a mod unat fs < 2 ^ 32" using fs mod_less_divisor [of "unat fs" "unat a"] by linarith
  have n: "unat n < 2 ^ 32" using unat_less_pow [of n] by simp
  have umem: "in_umem fs n a \<longleftrightarrow> unat a div unat fs < unat n"
    using fs(1) by (simp add: in_umem_def div_less_iff_less_mult)
  have uc: "(ucast (a div ucast fs) :: u32) = slot_of fs a" "(ucast (a mod ucast fs) :: u32) = of_nat (unat a mod unat fs)"
    unfolding slot_of_def at [symmetric] by simp_all
  show ?thesis
  proof (cases "in_umem fs n a")
    case False
    then have "\<not> unat a div unat fs < 2 ^ 32 \<or> n \<le> slot_of fs a"
      by (auto simp: umem slot_of_def word_le_nat_alt unat_of_nat)
    then show ?thesis using False by (auto simp: locate_def at uc Let_def)
  next
    case True
    then have s: "unat a div unat fs < 2 ^ 32" "\<not> n \<le> slot_of fs a" using n unat_slot_of(2) [OF True] by (simp_all add: umem)
    have o: "unat (of_nat (unat a mod unat fs) :: u32) = unat a mod unat fs" using off by (simp add: unat_of_nat)
    have "unat a mod unat fs + unat len < 2 ^ 32 \<and> of_nat (unat a mod unat fs) + len \<le> fs
        \<longleftrightarrow> unat a mod unat fs + unat len \<le> unat fs"
      using fs(2) o by (auto simp: word_le_nat_alt unat_word_ariths)
    then show ?thesis using True s off o by (simp add: locate_def at uc Let_def)
  qed
qed

section \<open>The kernel contract\<close>

inductive kernel_step :: "u32 \<Rightarrow> u32 \<Rightarrow> xsk_kernel \<times> region \<Rightarrow> xsk_kernel \<times> region \<Rightarrow> bool" for fs n where
  takes: "heap_pop (kn_fill k) = (Some a, m) \<Longrightarrow> kernel_step fs n (k, rg) (k\<lparr>kn_fill := m, kn_held := a # kn_held k\<rparr>, rg)"
| writes: "a \<in> set (kn_held k) \<Longrightarrow> off + length bs \<le> unat fs \<Longrightarrow>
    kernel_step fs n (k, rg) (k, write_at (unat a + off) bs rg)"
| delivers: "a \<in> set (kn_held k) \<Longrightarrow> unat a \<le> unat (xd_addr desc) \<Longrightarrow> unat (xd_addr desc) < unat a + unat fs \<Longrightarrow>
    heap_push desc (kn_rx k) = (True, m) \<Longrightarrow> kernel_step fs n (k, rg) (k\<lparr>kn_rx := m, kn_held := remove1 a (kn_held k)\<rparr>, rg)"
| strays: "\<not> in_umem fs n (xd_addr desc) \<Longrightarrow> heap_push desc (kn_rx k) = (True, m) \<Longrightarrow>
    kernel_step fs n (k, rg) (k\<lparr>kn_rx := m\<rparr>, rg)"
| flags: "kernel_step fs n (k, rg) (k\<lparr>kn_fill := heap_set_flags fl (kn_fill k)\<rparr>, rg)"
| counts: "st_rx_dropped (kn_stats k) \<le> st_rx_dropped st \<Longrightarrow> st_rx_ring_full (kn_stats k) \<le> st_rx_ring_full st \<Longrightarrow>
    kernel_step fs n (k, rg) (k\<lparr>kn_stats := st\<rparr>, rg)"

definition conforms :: "u32 \<Rightarrow> u32 \<Rightarrow> kernel_act \<Rightarrow> bool" where
  "conforms fs n act \<longleftrightarrow> (\<forall>x. (kernel_step fs n)\<^sup>*\<^sup>* x (act x))"

text \<open>The slots on the kernel's side of the interface; a descriptor outside the UMEM carries none.\<close>

definition rx_slots :: "u32 \<Rightarrow> u32 \<Rightarrow> xdp_desc list \<Rightarrow> u32 multiset" where
  "rx_slots fs n descs = image_mset (slot_of fs) (mset (filter (in_umem fs n) (map xd_addr descs)))"

definition kernel_slots :: "u32 \<Rightarrow> u32 \<Rightarrow> xsk_kernel \<Rightarrow> u32 multiset" where
  "kernel_slots fs n k =
     image_mset (slot_of fs) (mset (ring_queue (kn_fill k)) + mset (kn_held k)) + rx_slots fs n (ring_queue (kn_rx k))"

definition kernel_ok :: "u32 \<Rightarrow> u32 \<Rightarrow> ring_side \<Rightarrow> ring_side \<Rightarrow> u32 multiset \<Rightarrow> xsk_kernel \<Rightarrow> bool" where
  "kernel_ok fs n fill rx others k \<longleftrightarrow>
     ring_ok (kn_fill k) \<and> ring_ok (kn_rx k) \<and> producer_ok fill (kn_fill k) \<and> consumer_ok rx (kn_rx k)
     \<and> length (rm_desc (kn_fill k)) = unat n \<and> length (rm_desc (kn_rx k)) = unat n
     \<and> (\<forall>a \<in> set (ring_queue (kn_fill k)) \<union> set (kn_held k). chunk fs n a)
     \<and> others + kernel_slots fs n k = all_slots n"

lemma rx_slots_simps [simp]:
  "rx_slots fs n [] = {#}" "rx_slots fs n (ds @ es) = rx_slots fs n ds + rx_slots fs n es"
  "rx_slots fs n (d # ds) = (if in_umem fs n (xd_addr d) then add_mset (slot_of fs (xd_addr d)) (rx_slots fs n ds) else rx_slots fs n ds)"
  by (simp_all add: rx_slots_def)

lemma chunk_slot_of:
  assumes "chunk fs n a" "unat a \<le> unat b" "unat b < unat a + unat fs"
  shows "in_umem fs n b" "slot_of fs b = slot_of fs a"
proof -
  obtain q where q: "unat a = unat fs * q" using assms(1) by (auto simp: chunk_def)
  have fs: "0 < unat fs" using assms(2,3) by linarith
  have "unat b div unat fs = q"
    using assms(2,3) q by (intro div_nat_eqI) (simp_all add: algebra_simps)
  then show "slot_of fs b = slot_of fs a" using fs by (simp add: slot_of_def q)
  have "q < unat n" using assms(1) fs by (simp add: chunk_def in_umem_def q mult.commute)
  then have "Suc q * unat fs \<le> unat n * unat fs" by (intro mult_le_mono1) simp
  then show "in_umem fs n b" using assms(3) q by (simp add: in_umem_def algebra_simps)
qed

text \<open>Bytes inside a slot.\<close>

definition slot_read :: "u32 \<Rightarrow> u32 \<Rightarrow> nat \<Rightarrow> nat \<Rightarrow> region \<Rightarrow> bytes" where
  "slot_read fs s off len rg = read_at (unat s * unat fs + off) len rg"

lemma take_slots:
  assumes "ring_queue (kn_fill k) = a # q" "ring_queue m = q"
  shows "kernel_slots fs n (k\<lparr>kn_fill := m, kn_held := a # kn_held k\<rparr>) = kernel_slots fs n k"
  by (simp add: kernel_slots_def assms)

lemma deliver_slots:
  assumes "a \<in> set (kn_held k)" "in_umem fs n (xd_addr desc)" "slot_of fs (xd_addr desc) = slot_of fs a"
    "ring_queue m = ring_queue (kn_rx k) @ [desc]"
  shows "kernel_slots fs n (k\<lparr>kn_rx := m, kn_held := remove1 a (kn_held k)\<rparr>) = kernel_slots fs n k"
proof -
  obtain h where h: "mset (kn_held k) = add_mset a h" using assms(1) by (metis mset_add set_mset_mset)
  show ?thesis by (simp add: kernel_slots_def assms(2-4) h)
qed

lemma kernel_step_ok:
  assumes "kernel_step fs n x y" "kernel_ok fs n fill rx others (fst x)"
  shows "kernel_ok fs n fill rx others (fst y)"
  using assms(1)
proof cases
  case (takes k a m rg)
  have ok: "kernel_ok fs n fill rx others k" "ring_ok (kn_fill k)" using assms(2) takes(1) by (simp_all add: kernel_ok_def)
  note sp = heap_pop_spec [OF ok(2) takes(3)]
  obtain q where q: "ring_queue (kn_fill k) = a # q" using sp(1) by (cases "ring_queue (kn_fill k)") auto
  then have "ring_queue m = q" using sp(3) by simp
  with ok sp(2,4,5) take_slots [OF q this] show ?thesis
    by (simp add: takes(2) kernel_ok_def producer_ok_def q)
next
  case (delivers a k desc m rg)
  have ok: "kernel_ok fs n fill rx others k" "ring_ok (kn_rx k)" "chunk fs n a"
    using assms(2) delivers(1,3) by (auto simp: kernel_ok_def)
  note sp = heap_push_spec [OF ok(2) delivers(6)]
  have "kernel_slots fs n (k\<lparr>kn_rx := m, kn_held := remove1 a (kn_held k)\<rparr>) = kernel_slots fs n k"
    using deliver_slots [OF delivers(3) chunk_slot_of [OF ok(3) delivers(4,5)]] sp(3) by simp
  with ok(1) sp(2,4,5) notin_set_remove1 [of _ "kn_held k" a] show ?thesis
    by (auto simp: delivers(2) kernel_ok_def consumer_ok_def)
next
  case (strays desc k m rg)
  have ok: "kernel_ok fs n fill rx others k" "ring_ok (kn_rx k)" using assms(2) strays(1) by (simp_all add: kernel_ok_def)
  note sp = heap_push_spec [OF ok(2) strays(4)]
  have "kernel_slots fs n (k\<lparr>kn_rx := m\<rparr>) = kernel_slots fs n k" using sp(3) strays(3) by (simp add: kernel_slots_def)
  with ok(1) sp(2,4,5) show ?thesis by (simp add: strays(2) kernel_ok_def consumer_ok_def)
next
  case (flags k rg fl)
  let ?m = "heap_set_flags fl (kn_fill k)"
  have "ring_queue ?m = ring_queue (kn_fill k)" "ring_ok ?m = ring_ok (kn_fill k)"
    "producer_ok fill ?m = producer_ok fill (kn_fill k)" "rm_desc ?m = rm_desc (kn_fill k)"
    by (simp_all add: ring_queue_def ring_ok_def producer_ok_def heap_set_flags_def)
  with assms(2) show ?thesis by (simp add: flags kernel_ok_def kernel_slots_def)
qed (use assms(2) in \<open>simp_all add: kernel_ok_def kernel_slots_def\<close>)

text \<open>The kernel writes into no slot that sits on the driver's side.\<close>

lemma kernel_step_bytes:
  assumes "kernel_step fs n x y" "kernel_ok fs n fill rx others (fst x)" "s \<in># others" "off + len \<le> unat fs"
  shows "slot_read fs s off len (snd y) = slot_read fs s off len (snd x)"
  using assms(1)
proof cases
  case (writes a k o2 bs rg)
  have ch: "chunk fs n a" using assms(2) writes by (auto simp: kernel_ok_def)
  have "slot_of fs a \<in># kernel_slots fs n k" using writes(3) by (simp add: kernel_slots_def)
  then have "slot_of fs a \<noteq> s"
    using slots_disjoint [OF _ assms(3), of "kernel_slots fs n k" n] assms(2) writes(1) by (auto simp: kernel_ok_def)
  from slot_ranges_apart [OF this writes(4) assms(4)] show ?thesis
    by (simp add: writes(1,2) slot_read_def chunk_start [OF ch] read_write_apart add.assoc)
qed simp_all

lemma kernel_runs:
  assumes "(kernel_step fs n)\<^sup>*\<^sup>* x y" "kernel_ok fs n fill rx others (fst x)"
  shows "kernel_ok fs n fill rx others (fst y)"
    and "s \<in># others \<Longrightarrow> off + len \<le> unat fs \<Longrightarrow> slot_read fs s off len (snd y) = slot_read fs s off len (snd x)"
proof -
  have "kernel_ok fs n fill rx others (fst y)
      \<and> (s \<in># others \<longrightarrow> off + len \<le> unat fs \<longrightarrow> slot_read fs s off len (snd y) = slot_read fs s off len (snd x))"
    using assms(1)
  proof induction
    case base
    then show ?case using assms(2) by simp
  next
    case (step y z)
    then show ?case
      using kernel_step_ok [OF step.hyps(2), of fill rx others] kernel_step_bytes [OF step.hyps(2), of fill rx others s off len] by simp
  qed
  then show "kernel_ok fs n fill rx others (fst y)"
    and "s \<in># others \<Longrightarrow> off + len \<le> unat fs \<Longrightarrow> slot_read fs s off len (snd y) = slot_read fs s off len (snd x)"
    by blast+
qed

lemma kernel_runs_size: "(kernel_step fs n)\<^sup>*\<^sup>* x y \<Longrightarrow> rg_size (snd y) = rg_size (snd x)"
  by (induction rule: rtranclp_induct) (auto simp: write_at_def elim!: kernel_step.cases)

section \<open>The driver invariant\<close>

definition driver_slots :: "xsk_driver \<Rightarrow> u32 multiset" where
  "driver_slots d = mset (xr_free (xk_rings d)) + pool_slots (xk_pool d)"

definition xsk_ok :: "xsk_driver \<Rightarrow> bool" where
  "xsk_ok d \<longleftrightarrow>
     (let r = xk_rings d; fs = xr_frame_size r; n = xr_frames r; p = xk_pool d in
      0 < fs \<and> kernel_ok fs n (xr_fill r) (xr_rx r) (driver_slots d) (xk_kernel d)
      \<and> pool_ok p \<and> ip_count p = n \<and> ip_stride p = fs \<and> xr_freed r = [] \<and> (\<forall>act \<in> set (xk_script d). conforms fs n act))"

text \<open>A step that makes the frames \<open>fs\<close> live, keeps the invariant and changes no byte of a live frame.\<close>

definition advances :: "xsk_driver \<Rightarrow> index_frame list \<Rightarrow> xsk_driver \<Rightarrow> bool" where
  "advances d fs d' \<longleftrightarrow> xsk_ok d' \<and> ip_live (xk_pool d') = rev fs @ ip_live (xk_pool d)
     \<and> (\<forall>f \<in> set (ip_live (xk_pool d)). frame_bytes (xk_pool d') f = frame_bytes (xk_pool d) f)"

lemma advances_refl: "xsk_ok d \<Longrightarrow> advances d [] d"
  by (simp add: advances_def)

lemma advances_trans: "advances d fs d1 \<Longrightarrow> advances d1 gs d2 \<Longrightarrow> advances d (fs @ gs) d2"
  by (auto simp: advances_def)

lemma advances_ok: "advances d fs d' \<Longrightarrow> xsk_ok d'"
  by (simp add: advances_def)

lemma frame_bytes_slot_read:
  "frame_bytes p f = slot_read (ip_stride p) (if_slot f) (unat (if_offset f)) (unat (if_len f)) (ip_region p)"
  by (simp add: frame_bytes_def slot_read_def slot_start_def)

lemma live_on_driver_side: "f \<in> set (ip_live (xk_pool d)) \<Longrightarrow> if_slot f \<in># driver_slots d"
  by (auto simp: driver_slots_def pool_slots_def live_slots_def)

text \<open>Kernel activity between two driver steps.\<close>

definition kernel_acts :: "kernel_act \<Rightarrow> xsk_driver \<Rightarrow> xsk_driver" where
  "kernel_acts act d =
     (case act (xk_kernel d, ip_region (xk_pool d)) of
        (kn, rg) \<Rightarrow> d\<lparr>xk_kernel := kn, xk_pool := (xk_pool d)\<lparr>ip_region := rg\<rparr>\<rparr>)"

lemma kernel_acts_advances:
  assumes ok: "xsk_ok d" and c: "conforms (xr_frame_size (xk_rings d)) (xr_frames (xk_rings d)) act"
  shows "advances d [] (kernel_acts act d)"
proof -
  let ?r = "xk_rings d" let ?p = "xk_pool d"
  obtain kn rg where y: "act (xk_kernel d, ip_region ?p) = (kn, rg)" by fastforce
  have run: "(kernel_step (xr_frame_size ?r) (xr_frames ?r))\<^sup>*\<^sup>* (xk_kernel d, ip_region ?p) (kn, rg)"
    using c y unfolding conforms_def by metis
  have k: "kernel_ok (xr_frame_size ?r) (xr_frames ?r) (xr_fill ?r) (xr_rx ?r) (driver_slots d) (xk_kernel d)"
    using ok by (simp add: xsk_ok_def Let_def)
  note runs = kernel_runs [OF run, unfolded fst_conv snd_conv, OF k]
  have d': "kernel_acts act d = d\<lparr>xk_kernel := kn, xk_pool := ?p\<lparr>ip_region := rg\<rparr>\<rparr>" by (simp add: kernel_acts_def y)
  have "rg_size rg = rg_size (ip_region ?p)" using kernel_runs_size [OF run] by simp
  then have "xsk_ok (kernel_acts act d)"
    using ok runs(1) by (auto simp: d' xsk_ok_def Let_def driver_slots_def pool_slots_def live_slots_def pool_ok_def frame_fits_def)
  moreover have "frame_bytes (?p\<lparr>ip_region := rg\<rparr>) f = frame_bytes ?p f" if f: "f \<in> set (ip_live ?p)" for f
  proof -
    have "unat (if_offset f) + unat (if_len f) \<le> unat (xr_frame_size ?r)" "ip_stride ?p = xr_frame_size ?r"
      using ok f by (auto simp: xsk_ok_def Let_def pool_ok_def frame_fits_def)
    then show ?thesis using runs(2) [OF live_on_driver_side [OF f]] by (simp add: frame_bytes_slot_read)
  qed
  ultimately show ?thesis by (simp add: advances_def d')
qed

lemma script_irrelevant:
  "advances d fs d' \<Longrightarrow> xk_script d' = xk_script d \<Longrightarrow> set acts \<subseteq> set (xk_script d) \<Longrightarrow> advances d fs (d'\<lparr>xk_script := acts\<rparr>)"
  by (auto simp: advances_def xsk_ok_def Let_def driver_slots_def)

lemma kernel_turn_advances:
  assumes "xsk_ok d"
  shows "advances d [] (kernel_turn d)" "xk_rings (kernel_turn d) = xk_rings d"
proof -
  have "advances d [] (kernel_turn d) \<and> xk_rings (kernel_turn d) = xk_rings d"
  proof (cases "xk_script d")
    case Nil
    then show ?thesis using assms by (simp add: kernel_turn_def advances_refl)
  next
    case (Cons act acts)
    have "kernel_turn d = (kernel_acts act d)\<lparr>xk_script := acts\<rparr>" "xk_script (kernel_acts act d) = xk_script d"
      "xk_rings (kernel_acts act d) = xk_rings d"
      by (simp_all add: kernel_turn_def kernel_acts_def Cons split: prod.split)
    moreover have "advances d [] (kernel_acts act d)"
      using assms Cons by (intro kernel_acts_advances) (simp_all add: xsk_ok_def Let_def)
    ultimately show ?thesis using script_irrelevant [of d "[]" "kernel_acts act d" acts] Cons by auto
  qed
  then show "advances d [] (kernel_turn d)" "xk_rings (kernel_turn d) = xk_rings d" by simp_all
qed

section \<open>Refill\<close>

lemma size_all_slots: "size (all_slots n) = unat n"
  by (simp add: all_slots_def)

lemma drain_advances:
  assumes "xsk_ok d" "drain_freed (xr_freed (xk_rings d)) (xk_pool d) = (freed, pool)"
  shows "advances d [] (d\<lparr>xk_pool := pool, xk_rings := (xk_rings d)\<lparr>xr_free := xr_free (xk_rings d) @ freed, xr_freed := []\<rparr>\<rparr>)"
proof -
  have p: "freed = ip_freed (xk_pool d)" "pool = (xk_pool d)\<lparr>ip_freed := []\<rparr>"
    using assms by (auto simp: drain_freed_def xsk_ok_def Let_def)
  have "frame_bytes pool f = frame_bytes (xk_pool d) f" for f by (simp add: p frame_bytes_def slot_start_def)
  with assms(1) show ?thesis
    by (auto simp: advances_def xsk_ok_def Let_def driver_slots_def pool_slots_def live_slots_def pool_ok_def frame_fits_def p add.assoc)
qed

text \<open>The fill ring has an entry for every slot, so all the free slots fit.\<close>

lemma free_fits:
  assumes "xsk_ok d"
  shows "length (xr_free (xk_rings d)) + length (ring_queue (kn_fill (xk_kernel d))) \<le> length (rm_desc (kn_fill (xk_kernel d)))"
proof -
  let ?r = "xk_rings d" let ?k = "xk_kernel d"
  have "driver_slots d + kernel_slots (xr_frame_size ?r) (xr_frames ?r) ?k = all_slots (xr_frames ?r)"
    and len: "length (rm_desc (kn_fill ?k)) = unat (xr_frames ?r)"
    using assms by (simp_all add: xsk_ok_def kernel_ok_def Let_def)
  from arg_cong [OF this(1), of size] show ?thesis
    by (simp add: len size_all_slots driver_slots_def kernel_slots_def)
qed

lemma produce_slots:
  assumes ok: "xsk_ok d" and p: "produce (xr_fill (xk_rings d)) (kn_fill (xk_kernel d))
      (map (\<lambda>slot. ucast slot * ucast (xr_frame_size (xk_rings d))) (rev (xr_free (xk_rings d)))) = (c, left, side, m)"
  shows "left = []"
    and "advances d [] (d\<lparr>xk_rings := (xk_rings d)\<lparr>xr_fill := side, xr_free := []\<rparr>, xk_kernel := (xk_kernel d)\<lparr>kn_fill := m\<rparr>\<rparr>)"
proof -
  let ?r = "xk_rings d" let ?k = "xk_kernel d" let ?fs = "xr_frame_size ?r" let ?n = "xr_frames ?r"
  let ?items = "map (\<lambda>slot. ucast slot * ucast ?fs) (rev (xr_free ?r)) :: u64 list"
  have k: "0 < ?fs" "kernel_ok ?fs ?n (xr_fill ?r) (xr_rx ?r) (driver_slots d) ?k"
    using ok by (simp_all add: xsk_ok_def Let_def)
  have ro: "ring_ok (kn_fill ?k)" "producer_ok (xr_fill ?r) (kn_fill ?k)" using k(2) by (simp_all add: kernel_ok_def)
  note sp = produce_spec [OF ro p]
  have all: "min (length ?items) (length (rm_desc (kn_fill ?k)) - length (ring_queue (kn_fill ?k))) = length ?items"
    using free_fits [OF ok] by simp
  show "left = []" using sp(4) unfolding all by simp
  have q: "ring_queue m = ring_queue (kn_fill ?k) @ ?items" using sp(3) unfolding all by simp
  have addr: "chunk ?fs ?n (ucast slot * ucast ?fs) \<and> slot_of ?fs (ucast slot * ucast ?fs) = slot" if "slot \<in> set (xr_free ?r)" for slot
  proof -
    have "slot \<in># driver_slots d" using that by (simp add: driver_slots_def)
    then have "slot < ?n" using k(2) slots_bounded by (auto simp: kernel_ok_def)
    then show ?thesis using chunk_addr [OF k(1)] by blast
  qed
  have "mset (map (slot_of ?fs) ?items) = mset (map (\<lambda>slot. slot) (rev (xr_free ?r)))"
    unfolding map_map by (intro arg_cong [of _ _ mset] map_cong) (simp_all add: addr)
  then have items: "image_mset (slot_of ?fs) (mset ?items) = mset (xr_free ?r)" by (simp add: multiset.map_comp)
  let ?d = "d\<lparr>xk_rings := ?r\<lparr>xr_fill := side, xr_free := []\<rparr>, xk_kernel := ?k\<lparr>kn_fill := m\<rparr>\<rparr>"
  have "driver_slots ?d + kernel_slots ?fs ?n (?k\<lparr>kn_fill := m\<rparr>) = driver_slots d + kernel_slots ?fs ?n ?k"
    using items by (simp add: driver_slots_def kernel_slots_def q)
  moreover have "\<forall>a \<in> set ?items. chunk ?fs ?n a" using addr by auto
  ultimately have "kernel_ok ?fs ?n side (xr_rx ?r) (driver_slots ?d) (?k\<lparr>kn_fill := m\<rparr>)"
    using k(2) sp(1,2,7) by (auto simp: kernel_ok_def q)
  then show "advances d [] ?d" using ok by (simp add: advances_def xsk_ok_def Let_def)
qed

lemma refill_advances:
  assumes "xsk_ok d"
  shows "advances d [] (refill d)" "xr_free (xk_rings (refill d)) = []"
proof -
  obtain freed pool where dr: "drain_freed (xr_freed (xk_rings d)) (xk_pool d) = (freed, pool)" by fastforce
  define d0 where "d0 = d\<lparr>xk_pool := pool, xk_rings := (xk_rings d)\<lparr>xr_free := xr_free (xk_rings d) @ freed, xr_freed := []\<rparr>\<rparr>"
  have a0: "advances d [] d0" unfolding d0_def by (rule drain_advances [OF assms dr])
  note a1 = kernel_turn_advances [OF advances_ok [OF a0]]
  obtain c left side m where p: "produce (xr_fill (xk_rings (kernel_turn d0))) (kn_fill (xk_kernel (kernel_turn d0)))
      (map (\<lambda>slot. ucast slot * ucast (xr_frame_size (xk_rings (kernel_turn d0)))) (rev (xr_free (xk_rings (kernel_turn d0)))))
      = (c, left, side, m)" by (metis prod_cases4)
  note a2 = produce_slots [OF advances_ok [OF a1(1)] p]
  have r: "refill d = (kernel_turn d0)\<lparr>xk_rings := (xk_rings (kernel_turn d0))\<lparr>xr_fill := side, xr_free := []\<rparr>,
      xk_kernel := (xk_kernel (kernel_turn d0))\<lparr>kn_fill := m\<rparr>\<rparr>"
    using p a2(1) by (simp add: refill_def dr d0_def Let_def)
  show "xr_free (xk_rings (refill d)) = []" by (simp add: r)
  show "advances d [] (refill d)"
    using advances_trans [OF advances_trans [OF a0 a1(1)] a2(2)] by (simp add: r)
qed

section \<open>Receive\<close>

definition frame_of :: "u32 \<Rightarrow> u32 \<Rightarrow> xdp_desc \<Rightarrow> index_frame list" where
  "frame_of fs n desc =
     (case locate (xd_addr desc) (xd_len desc) fs n of
        LFrame slot offset len \<Rightarrow> [\<lparr>if_slot = slot, if_offset = offset, if_len = len\<rparr>]
      | _ \<Rightarrow> [])"

definition frames_of :: "u32 \<Rightarrow> u32 \<Rightarrow> xdp_desc list \<Rightarrow> index_frame list" where
  "frames_of fs n descs = concat (map (frame_of fs n) descs)"

lemma frames_of_simps [simp]:
  "frames_of fs n [] = []" "frames_of fs n (d # ds) = frame_of fs n d @ frames_of fs n ds"
  "frames_of fs n (ds @ es) = frames_of fs n ds @ frames_of fs n es"
  by (simp_all add: frames_of_def)

lemma length_frames_of: "length (frames_of fs n descs) \<le> length descs"
proof (induction descs)
  case (Cons d ds)
  have "length (frame_of fs n d) \<le> 1" by (simp add: frame_of_def split: located.split)
  with Cons show ?case by simp
qed simp

lemma frames_of_fit:
  assumes "0 < ip_stride p" "f \<in> set (frames_of (ip_stride p) (ip_count p) descs)"
  shows "frame_fits p f"
  using assms(2)
proof (induction descs)
  case (Cons d ds)
  have "unat (of_nat (unat (xd_addr d) mod unat (ip_stride p)) :: u32) = unat (xd_addr d) mod unat (ip_stride p)"
  proof -
    have "0 < unat (ip_stride p)" "unat (ip_stride p) < 2 ^ 32"
      using assms(1) unat_less_pow [of "ip_stride p"] by (simp_all add: word_less_nat_alt)
    then have "unat (xd_addr d) mod unat (ip_stride p) < 2 ^ 32"
      using mod_less_divisor [of "unat (ip_stride p)" "unat (xd_addr d)"] by linarith
    then show ?thesis by (simp add: unat_of_nat)
  qed
  then have "frame_fits p g" if "g \<in> set (frame_of (ip_stride p) (ip_count p) d)" for g
    using that unat_slot_of(2) by (auto simp: frame_of_def locate_exact [OF assms(1)] frame_fits_def split: if_split_asm)
  then show ?case using Cons by auto
qed simp

text \<open>Placing descriptors: their frames go live and to the batch, overrun slots to the free list.\<close>

lemma place_spec:
  assumes "place descs r pool pushed out = (r', pool', pushed', out')" "length descs \<le> spare out" "0 < xr_frame_size r"
  defines "fs \<equiv> frames_of (xr_frame_size r) (xr_frames r) descs"
  shows "extends_batch out fs out' \<and> pushed' = pushed + length fs \<and> pool' = pool\<lparr>ip_live := rev fs @ ip_live pool\<rparr>
    \<and> (\<exists>ts t. r' = r\<lparr>xr_free := xr_free r @ ts, xr_truncated := t\<rparr>
        \<and> mset ts + image_mset if_slot (mset fs) = rx_slots (xr_frame_size r) (xr_frames r) descs)"
  using assms(1-3) unfolding fs_def
proof (induction descs r pool pushed out rule: place.induct)
  case (1 r pool pushed out)
  then show ?case by (auto intro!: exI [of _ "[]"] exI [of _ "xr_truncated r"])
next
  case (2 desc descs r pool pushed out)
  let ?fs = "xr_frame_size r" let ?n = "xr_frames r"
  note ex = locate_exact [OF 2(6), of "xd_addr desc" "xd_len desc" ?n]
  show ?case
  proof (cases "locate (xd_addr desc) (xd_len desc) ?fs ?n")
    case (LFrame slot offset len)
    let ?f = "\<lparr>if_slot = slot, if_offset = offset, if_len = len\<rparr>"
    have sl: "in_umem ?fs ?n (xd_addr desc)" "slot = slot_of ?fs (xd_addr desc)" using ex LFrame by (auto split: if_split_asm)
    have one: "extends_batch out [?f] (batch_push ?f out)" using 2(5) by (auto simp: extends_batch_def batch_push_def)
    have rec: "place descs r (pool\<lparr>ip_live := ?f # ip_live pool\<rparr>) (pushed + 1) (batch_push ?f out) = (r', pool', pushed', out')"
      using 2(4) by (simp add: LFrame pool_frame_def)
    have room: "length descs \<le> spare (batch_push ?f out)" using 2(5) by (simp add: spare_push)
    have pf: "(?f, pool\<lparr>ip_live := ?f # ip_live pool\<rparr>) = pool_frame slot offset len pool" by (simp add: pool_frame_def)
    note ih = 2(1) [OF LFrame pf rec room 2(6)]
    then show ?thesis using extends_batch_trans [OF one] sl by (auto simp: frame_of_def LFrame)
  next
    case (LTruncated slot)
    have sl: "in_umem ?fs ?n (xd_addr desc)" "slot = slot_of ?fs (xd_addr desc)" using ex LTruncated by (auto split: if_split_asm)
    let ?r = "r\<lparr>xr_truncated := xr_truncated r + 1, xr_free := xr_free r @ [slot]\<rparr>"
    have rec: "place descs ?r pool pushed out = (r', pool', pushed', out')" using 2(4) by (simp add: LTruncated)
    have "length descs \<le> spare out" using 2(5) by simp
    note ih = 2(2) [OF LTruncated rec this, simplified, OF 2(6)]
    then obtain ts t where ts: "r' = ?r\<lparr>xr_free := xr_free ?r @ ts, xr_truncated := t\<rparr>"
        "mset ts + image_mset if_slot (mset (frames_of ?fs ?n descs)) = rx_slots ?fs ?n descs" by auto
    have "r' = r\<lparr>xr_free := xr_free r @ slot # ts, xr_truncated := t\<rparr>" using ts(1) by simp
    then show ?thesis using ih ts(2) sl by (auto simp: frame_of_def LTruncated intro!: exI [of _ "slot # ts"])
  next
    case LForeign
    have sl: "\<not> in_umem ?fs ?n (xd_addr desc)" using ex LForeign by (auto split: if_split_asm)
    let ?r = "r\<lparr>xr_truncated := xr_truncated r + 1\<rparr>"
    have rec: "place descs ?r pool pushed out = (r', pool', pushed', out')" using 2(4) by (simp add: LForeign)
    have "length descs \<le> spare out" using 2(5) by simp
    note ih = 2(3) [OF LForeign rec this, simplified, OF 2(6)]
    then show ?thesis using sl by (auto simp: frame_of_def LForeign)
  qed
qed

text \<open>The frames the receive ring still holds.\<close>

definition coming_frames :: "xsk_driver \<Rightarrow> index_frame list" where
  "coming_frames d = frames_of (xr_frame_size (xk_rings d)) (xr_frames (xk_rings d)) (ring_queue (kn_rx (xk_kernel d)))"

text \<open>With a quiet kernel a step hands out the coming frames from the front.\<close>

definition takes_coming :: "xsk_driver \<Rightarrow> index_frame list \<Rightarrow> xsk_driver \<Rightarrow> bool" where
  "takes_coming d fs d' \<longleftrightarrow> (xk_script d = [] \<longrightarrow> xk_script d' = [] \<and> coming_frames d = fs @ coming_frames d')"

lemma takes_coming_trans: "takes_coming d fs d1 \<Longrightarrow> takes_coming d1 gs d2 \<Longrightarrow> takes_coming d (fs @ gs) d2"
  by (auto simp: takes_coming_def)

lemma quiet_turn: "xk_script d = [] \<Longrightarrow> kernel_turn d = d"
  by (simp add: kernel_turn_def)

lemma kernel_turn_takes: "takes_coming d [] (kernel_turn d)"
  by (simp add: takes_coming_def quiet_turn)

lemma refill_takes: "takes_coming d [] (refill d)"
  by (auto simp: takes_coming_def refill_def coming_frames_def quiet_turn Let_def split: prod.split)

lemma to_u32_max_room: "length xs \<le> unat (to_u32_max k) \<Longrightarrow> length xs \<le> k"
proof (cases "k < 2 ^ 32")
  case False
  assume "length xs \<le> unat (to_u32_max k)"
  moreover have "unat (to_u32_max k) < 2 ^ 32" using unat_less_pow [of "to_u32_max k"] by simp
  ultimately show ?thesis using False by linarith
qed (simp add: to_u32_max_def unat_of_nat)

lemma rx_pass_advances:
  assumes ok: "xsk_ok d" and rp: "rx_pass d pushed out = (stop, pushed', d', out')"
  shows "\<exists>fs. advances d fs d' \<and> extends_batch out fs out' \<and> pushed' = pushed + length fs \<and> (0 < pushed' \<longrightarrow> stop)
    \<and> takes_coming d fs d' \<and> (stop \<longrightarrow> pushed' = 0 \<longrightarrow> 0 < spare out \<longrightarrow> coming_frames d' = [])"
proof -
  let ?d = "kernel_turn d" let ?r = "xk_rings ?d" let ?k = "xk_kernel ?d" let ?p = "xk_pool ?d"
  let ?fs = "xr_frame_size ?r" let ?n = "xr_frames ?r"
  have a1: "advances d [] ?d" by (rule kernel_turn_advances [OF ok])
  have ok1: "xsk_ok ?d" by (rule advances_ok [OF a1])
  have k: "0 < ?fs" "kernel_ok ?fs ?n (xr_fill ?r) (xr_rx ?r) (driver_slots ?d) ?k" "pool_ok ?p" "ip_count ?p = ?n" "ip_stride ?p = ?fs"
    using ok1 by (simp_all add: xsk_ok_def Let_def)
  obtain descs side m where c: "consume (xr_rx ?r) (kn_rx ?k) (to_u32_max (spare out)) = (descs, side, m)" by (metis prod_cases3)
  obtain r pool n o' where p: "place descs (?r\<lparr>xr_rx := side\<rparr>) ?p pushed out = (r, pool, n, o')" by (metis prod_cases4)
  have ro: "ring_ok (kn_rx ?k)" "consumer_ok (xr_rx ?r) (kn_rx ?k)" using k(2) by (simp_all add: kernel_ok_def)
  note sp = consume_spec [OF ro c]
  have res: "stop = (descs = [] \<or> 0 < n \<or> spare o' = 0)" "pushed' = n" "out' = o'"
    "d' = ?d\<lparr>xk_rings := r, xk_pool := pool, xk_kernel := ?k\<lparr>kn_rx := m\<rparr>\<rparr>"
    using rp c p by (auto simp: rx_pass_def Let_def)
  have room: "length descs \<le> spare out" using sp(3) by (intro to_u32_max_room [of descs "spare out"]) simp
  let ?new = "frames_of ?fs ?n descs"
  have pos: "0 < xr_frame_size (?r\<lparr>xr_rx := side\<rparr>)" using k(1) by simp
  have same: "xr_frame_size (?r\<lparr>xr_rx := side\<rparr>) = ?fs" "xr_frames (?r\<lparr>xr_rx := side\<rparr>) = ?n" by simp_all
  note pl0 = place_spec [OF p room pos, unfolded same]
  note pl = pl0 [THEN conjunct1] pl0 [THEN conjunct2, THEN conjunct1] pl0 [THEN conjunct2, THEN conjunct2, THEN conjunct1]
  obtain ts t where ts: "r = ?r\<lparr>xr_rx := side, xr_free := xr_free (?r\<lparr>xr_rx := side\<rparr>) @ ts, xr_truncated := t\<rparr>"
      "mset ts + image_mset if_slot (mset ?new) = rx_slots ?fs ?n descs" using pl0 by blast
  note pool = pl(3)
  have q: "ring_queue (kn_rx ?k) = descs @ ring_queue m" unfolding sp(3,4) by (rule append_take_drop_id [symmetric])
  have "takes_coming ?d ?new d'" by (simp add: takes_coming_def coming_frames_def res(4) ts(1) q)
  then have takes: "takes_coming d ?new d'" using takes_coming_trans [OF kernel_turn_takes] by fastforce
  have drained: "coming_frames d' = []" if "stop" "pushed' = 0" "0 < spare out"
  proof -
    have "spare o' = spare out" using extends_batch_spare [OF pl(1)] that(2) res(2) pl(2) by simp
    then have "descs = []" using that res(1,2) by auto
    moreover have "0 < unat (to_u32_max (spare out))" using that(3) by (auto simp: to_u32_max_def unat_of_nat)
    ultimately have "ring_queue (kn_rx ?k) = []" using sp(3) by (auto simp: min_def split: if_split_asm)
    then show ?thesis using q by (simp add: coming_frames_def res(4))
  qed
  from q have "driver_slots d' + kernel_slots ?fs ?n (?k\<lparr>kn_rx := m\<rparr>) = driver_slots ?d + kernel_slots ?fs ?n ?k"
    by (simp add: res(4) ts(1) pool driver_slots_def pool_slots_def live_slots_def kernel_slots_def flip: ts(2))
  then have "kernel_ok ?fs ?n (xr_fill r) (xr_rx r) (driver_slots d') (xk_kernel d')"
    using k(2) sp(1,2,6) by (simp add: kernel_ok_def res(4) ts(1))
  moreover have "pool_ok pool"
    using k frames_of_fit [of ?p _ descs] by (auto simp: pool pool_ok_def frame_fits_def)
  ultimately have "xsk_ok d'"
    using ok1 by (simp add: xsk_ok_def Let_def res(4) ts(1)) (simp add: pool)
  moreover have "frame_bytes pool f = frame_bytes ?p f" for f by (simp add: pool frame_bytes_def slot_start_def)
  ultimately have "advances ?d ?new d'" by (simp add: advances_def res(4)) (simp add: pool)
  then have "advances d ?new d'" using advances_trans [OF a1] by fastforce
  with pl(1,2) res(1-3) takes drained show ?thesis by (intro exI [of _ ?new]) auto
qed

lemma rx_loop_advances:
  assumes "xsk_ok d" "rx_loop d 0 out = (pushed, d', out')" "0 < spare out"
  shows "\<exists>fs. advances d fs d' \<and> extends_batch out fs out' \<and> pushed = length fs \<and> takes_coming d fs d'
    \<and> (fs = [] \<longrightarrow> coming_frames d' = [])"
  using assms
proof (induction d "0 :: nat" out rule: rx_loop.induct)
  case (1 d out)
  obtain stop n1 d1 o1 where p: "rx_pass d 0 out = (stop, n1, d1, o1)" by (metis prod_cases4)
  obtain fs where fs: "advances d fs d1" "extends_batch out fs o1" "n1 = length fs" "0 < n1 \<longrightarrow> stop" "takes_coming d fs d1"
      "stop \<longrightarrow> n1 = 0 \<longrightarrow> 0 < spare out \<longrightarrow> coming_frames d1 = []"
    using rx_pass_advances [OF 1(2) p] by auto
  show ?case
  proof (cases stop)
    case True
    then have "pushed = n1" "d' = d1" "out' = o1" using 1(3) p by (simp_all add: rx_loop.simps)
    then show ?thesis using fs True 1(4) by auto
  next
    case False
    then have n: "fs = []" "n1 = 0" using fs(3,4) by auto
    have "rx_loop d1 0 o1 = (pushed, d', out')" using 1(3) p False n(2) by (subst (asm) rx_loop.simps) simp
    moreover have "0 < spare o1" using extends_batch_spare [OF fs(2)] 1(4) n by simp
    ultimately obtain gs where gs: "advances d1 gs d'" "extends_batch o1 gs out'" "pushed = length gs" "takes_coming d1 gs d'"
        "gs = [] \<longrightarrow> coming_frames d' = []"
      using 1(1) [OF p [unfolded n(2), symmetric] refl refl False advances_ok [OF fs(1)]] by blast
    then show ?thesis
      using advances_trans [OF fs(1) gs(1)] extends_batch_trans [OF fs(2) gs(2)] takes_coming_trans [OF fs(5) gs(4)] n(1) by auto
  qed
qed

section \<open>Polls\<close>

lemma wake_keeps:
  assumes "wake d = (res, d')"
  shows "xk_pool d' = xk_pool d" "xk_rings d' = xk_rings d" "xk_kernel d' = xk_kernel d" "xk_script d' = xk_script d"
  using assms by (auto simp: wake_def Let_def split: sum.split_asm if_split_asm)

lemma wake_advances: "xsk_ok d \<Longrightarrow> wake d = (res, d') \<Longrightarrow> advances d [] d'"
  using wake_keeps [of d res d'] by (simp add: advances_def xsk_ok_def Let_def driver_slots_def)

lemma xsk_poll_advances:
  assumes "xsk_ok d" "0 < spare out" "xsk_poll_frames d out = (res, d', out')"
  shows "\<exists>fs. advances d fs d' \<and> extends_batch out fs out' \<and> (\<forall>p. res = Inr p \<longrightarrow> outcome_ok p fs) \<and> takes_coming d fs d'
    \<and> (fs = [] \<longrightarrow> xk_script d = [] \<longrightarrow> coming_frames d' = [])"
proof -
  note a0 = refill_advances(1) [OF assms(1)]
  obtain n d1 o1 where l: "rx_loop (refill d) 0 out = (n, d1, o1)" by (metis prod_cases3)
  obtain fs where fs: "advances (refill d) fs d1" "extends_batch out fs o1" "n = length fs" "takes_coming (refill d) fs d1"
      "fs = [] \<longrightarrow> coming_frames d1 = []"
    using rx_loop_advances [OF advances_ok [OF a0] l assms(2)] by blast
  have a1: "advances d fs d1" using advances_trans [OF a0 fs(1)] by simp
  have t1: "takes_coming d fs d1" using takes_coming_trans [OF refill_takes fs(4)] by simp
  show ?thesis
  proof (cases "0 < n")
    case True
    then have "res = Inr (Frames n)" "d' = d1" "out' = o1" using assms(3) l by (simp_all add: xsk_poll_frames_def)
    then show ?thesis using a1 t1 fs(2,3,5) True by (intro exI [of _ fs]) simp
  next
    case False
    then have n: "fs = []" using fs(3) by simp
    let ?d = "kernel_turn d1"
    have a2: "advances d [] ?d" using advances_trans [OF a1 kernel_turn_advances(1) [OF advances_ok [OF a1]]] n by simp
    have t2: "takes_coming d [] ?d" using takes_coming_trans [OF t1 kernel_turn_takes] n by simp
    have "coming_frames ?d = []" if "xk_script d = []"
      using that t1 fs(5) n quiet_turn [of d1] by (simp add: takes_coming_def)
    then have idle: ?thesis if "advances d [] d'" "out' = o1" "\<forall>p. res = Inr p \<longrightarrow> p = Idle" "takes_coming d [] d'"
        "coming_frames d' = coming_frames ?d"
    proof -
      have "\<forall>p. res = Inr p \<longrightarrow> outcome_ok p []"
      proof (intro allI impI)
        fix p assume "res = Inr p"
        then have "p = Idle" by (rule that(3) [rule_format])
        then show "outcome_ok p []" by simp
      qed
      moreover have "extends_batch out [] out'" using fs(2) n that(2) by simp
      ultimately show ?thesis using that(1,4,5) \<open>xk_script d = [] \<Longrightarrow> coming_frames ?d = []\<close> by (intro exI [of _ "[]"]) simp
    qed
    show ?thesis
    proof (cases "needs_wakeup (kn_fill (xk_kernel ?d))")
      case True
      obtain w d3 where w: "wake ?d = (w, d3)" by fastforce
      have d3: "d' = d3" "out' = o1" "\<forall>p. res = Inr p \<longrightarrow> p = Idle"
        using assms(3) l False True w by (auto simp: xsk_poll_frames_def Let_def split: sum.split_asm)
      show ?thesis
      proof (rule idle)
        show "advances d [] d'" using advances_trans [OF a2 wake_advances [OF advances_ok [OF a2] w]] by (simp add: d3)
        show c: "coming_frames d' = coming_frames ?d" using wake_keeps [OF w] by (simp add: coming_frames_def d3)
        show "takes_coming d [] d'" using t2 c wake_keeps(4) [OF w] by (simp add: takes_coming_def d3(1))
      qed (use d3 in simp_all)
    next
      case wk: False
      have "res = Inr Idle" "d' = ?d" "out' = o1" using assms(3) l False wk by (simp_all add: xsk_poll_frames_def Let_def)
      then show ?thesis by (intro idle) (use a2 t2 in simp_all)
    qed
  qed
qed

interpretation xsk: burst_driver xsk_ops xsk_ok gate for gate
proof unfold_locales
  fix d out res d' out'
  assume "xsk_ok d" "0 < spare out" "poll_frames xsk_ops d out = (res, d', out')"
  then obtain fs where "advances d fs d'" "extends_batch out fs out'" "\<forall>p. res = Inr p \<longrightarrow> outcome_ok p fs"
    using xsk_poll_advances [of d out res d' out'] by (auto simp: xsk_ops_def)
  then show "\<exists>fs. extends_batch out fs out' \<and> (\<forall>p. res = Inr p \<longrightarrow> outcome_ok p fs)" "xsk_ok d'"
    using advances_ok by blast+
qed

text \<open>While the kernel is quiet the driver is a stream of the frames in its receive ring.\<close>

definition xsk_quiet :: "xsk_driver \<Rightarrow> bool" where
  "xsk_quiet d \<longleftrightarrow> xsk_ok d \<and> xk_script d = []"

interpretation xsk_stream: stream_driver xsk_ops xsk_quiet gate coming_frames for gate
proof unfold_locales
  fix d out res d' out'
  assume "xsk_quiet d" "0 < spare out" "poll_frames xsk_ops d out = (res, d', out')"
  then obtain fs where "advances d fs d'" "extends_batch out fs out'" "\<forall>p. res = Inr p \<longrightarrow> outcome_ok p fs"
      "xk_script d' = []" "coming_frames d = fs @ coming_frames d'"
    using xsk_poll_advances [of d out res d' out'] by (auto simp: xsk_ops_def xsk_quiet_def takes_coming_def)
  then show "\<exists>fs. extends_batch out fs out' \<and> (\<forall>p. res = Inr p \<longrightarrow> outcome_ok p fs)" "xsk_quiet d'"
    "\<exists>fs. extends_batch out fs out' \<and> coming_frames d = fs @ coming_frames d'"
    using advances_ok by (auto simp: xsk_quiet_def)
qed

section \<open>Runs\<close>

lemma start_ok:
  assumes pool: "index_pool_new alloc n fs = Inr pool" and fs: "0 < fs"
    and fill: "ring_ok fill" "ring_queue fill = []" "length (rm_desc fill) = unat n"
    and rx: "ring_ok rx" "ring_queue rx = []" "length (rm_desc rx) = unat n"
  shows "xsk_ok (xsk_start fill rx st pool n fs)" "ip_live (xk_pool (xsk_start fill rx st pool n fs)) = []"
proof -
  define d where "d = \<lparr>xk_rings = rings_new (producer_new fill n) (consumer_new rx n) n fs, xk_pool = pool,
       xk_kernel = \<lparr>kn_fill = fill, kn_rx = rx, kn_held = [], kn_stats = st\<rparr>, xk_syscalls = 0,
       xk_drops = \<lparr>kd_rx_dropped = 0, kd_rx_ring_full = 0\<rparr>, xk_script = [], xk_wakes = []\<rparr>"
  have start: "xsk_start fill rx st pool n fs = refill d" by (simp add: xsk_start_def d_def)
  note new = index_pool_new_ok [OF pool]
  have "n = of_nat (length (rm_desc fill))" "n = of_nat (length (rm_desc rx))" using fill(3) rx(3) by simp_all
  then have sides: "producer_ok (producer_new fill n) fill" "consumer_ok (consumer_new rx n) rx"
    by (simp_all add: producer_ok_def producer_new_def consumer_ok_def consumer_new_def)
  have "driver_slots d = all_slots n" using new(2) by (simp add: driver_slots_def d_def rings_new_def all_slots_def)
  then have ok: "xsk_ok d"
    using new fill rx fs sides by (simp add: xsk_ok_def kernel_ok_def kernel_slots_def d_def rings_new_def)
  have "ip_live pool = []" using new(2) by (simp add: pool_slots_def live_slots_def)
  then show "xsk_ok (xsk_start fill rx st pool n fs)" "ip_live (xk_pool (xsk_start fill rx st pool n fs)) = []"
    using refill_advances(1) [OF ok] by (simp_all add: start advances_def d_def)
qed

text \<open>
  A run of the driver: polls with a drained batch, frames dropped by the client, kernel activity at any time. \<open>held\<close> lists
  the frames the client holds, each with its bytes when it was handed out.
\<close>

inductive xsk_trace :: "xsk_driver \<Rightarrow> xsk_driver \<Rightarrow> (index_frame \<times> bytes) list \<Rightarrow> bool" for d0 where
  started: "xsk_trace d0 d0 []"
| polled: "xsk_trace d0 d held \<Longrightarrow> 0 < cap \<Longrightarrow> xsk_poll_frames d (batch_with_capacity cap) = (res, d', out) \<Longrightarrow>
    xsk_trace d0 d' (map (\<lambda>f. (f, frame_bytes (xk_pool d') f)) (fb_frames out) @ held)"
| dropped: "xsk_trace d0 d held \<Longrightarrow> f \<in> set (ip_live (xk_pool d)) \<Longrightarrow>
    xsk_trace d0 (d\<lparr>xk_pool := drop_frame f (xk_pool d)\<rparr>) (filter (\<lambda>(g, _). g \<noteq> f) held)"
| kernel: "xsk_trace d0 d held \<Longrightarrow> conforms (xr_frame_size (xk_rings d)) (xr_frames (xk_rings d)) act \<Longrightarrow>
    xsk_trace d0 (kernel_acts act d) held"
| planned: "xsk_trace d0 d held \<Longrightarrow> \<forall>act \<in> set acts. conforms (xr_frame_size (xk_rings d)) (xr_frames (xk_rings d)) act \<Longrightarrow>
    xsk_trace d0 (d\<lparr>xk_script := acts, xk_wakes := ws\<rparr>) held"

definition held_intact :: "xsk_driver \<Rightarrow> (index_frame \<times> bytes) list \<Rightarrow> bool" where
  "held_intact d held \<longleftrightarrow> (\<forall>(f, bs) \<in> set held. f \<in> set (ip_live (xk_pool d)) \<and> frame_bytes (xk_pool d) f = bs)"

lemma held_intact_advances:
  "advances d fs d' \<Longrightarrow> held_intact d held \<Longrightarrow> held_intact d' (map (\<lambda>f. (f, frame_bytes (xk_pool d') f)) fs @ held)"
  by (auto simp: held_intact_def advances_def)

lemma drop_ok:
  assumes "xsk_ok d" "f \<in> set (ip_live (xk_pool d))"
  shows "xsk_ok (d\<lparr>xk_pool := drop_frame f (xk_pool d)\<rparr>)"
proof -
  have "pool_ok (drop_frame f (xk_pool d))" using assms(1) by (intro drop_frame_ok) (simp add: xsk_ok_def Let_def)
  with assms drop_frame_slots [OF assms(2)] show ?thesis
    by (simp add: xsk_ok_def Let_def driver_slots_def) (simp add: drop_frame_def)
qed

lemma trace_ok: "xsk_trace d0 d held \<Longrightarrow> xsk_ok d0 \<Longrightarrow> xsk_ok d \<and> held_intact d held"
proof (induction rule: xsk_trace.induct)
  case started
  then show ?case by (simp add: held_intact_def)
next
  case (polled d held cap res d' out)
  have "0 < spare (batch_with_capacity cap :: index_frame frame_batch)" using polled.hyps(2) by (simp add: batch_defs)
  with polled obtain fs where "advances d fs d'" "extends_batch (batch_with_capacity cap) fs out"
    using xsk_poll_advances [of d _ res d' out] by blast
  moreover from this(2) have "fb_frames out = fs" by (simp add: extends_batch_def batch_with_capacity_def)
  ultimately show ?case using held_intact_advances [of d fs d' held] polled advances_ok by auto
next
  case (dropped d held f)
  have "frame_bytes (drop_frame f (xk_pool d)) g = frame_bytes (xk_pool d) g" for g
    by (simp add: drop_frame_def frame_bytes_def slot_start_def)
  with dropped drop_ok [of d f] show ?case by (auto simp: held_intact_def) (auto simp: drop_frame_def in_set_remove1)
next
  case (kernel d held act)
  then show ?case using kernel_acts_advances [of d act] held_intact_advances [of d "[]"] advances_ok by fastforce
next
  case (planned d held acts ws)
  then show ?case by (auto simp: xsk_ok_def Let_def driver_slots_def held_intact_def)
qed

text \<open>
  C35. Slot custody of the AF_XDP driver. Start from an empty pair of rings over a fresh pool and let polls, frame drops and
  any kernel activity within the kernel contract alternate, also in the middle of a poll. Then each slot sits in exactly
  one place: driver free list, pool freed list, live frame, fill ring, kernel, receive ring. The bytes of a frame the
  client holds are those it had when it was handed out, and it stays inside its slot.
\<close>

theorem xsk_custody:
  assumes "index_pool_new alloc n fs = Inr pool" "0 < fs" "n = 2 ^ k" "k \<le> 31"
    and "xsk_trace (xsk_start (heap_new n start 0) (heap_new n start' blank) st pool n fs) d held"
  shows "mset (xr_free (xk_rings d)) + mset (ip_freed (xk_pool d)) + live_slots (xk_pool d)
      + kernel_slots (xr_frame_size (xk_rings d)) (xr_frames (xk_rings d)) (xk_kernel d) = all_slots (xr_frames (xk_rings d))
    \<and> (\<forall>(f, bs) \<in> set held. frame_bytes (xk_pool d) f = bs \<and> frame_fits (xk_pool d) f)"
proof -
  have len: "length (rm_desc (heap_new n s b)) = unat n" for s :: u32 and b :: 'z by (simp add: heap_new_def)
  have "xsk_ok (xsk_start (heap_new n start 0) (heap_new n start' blank) st pool n fs)"
    by (rule start_ok(1) [OF assms(1,2)]) (use heap_new_ok [OF assms(3,4)] in \<open>simp_all add: heap_new_def\<close>)
  from trace_ok [OF assms(5) this] have "xsk_ok d" "held_intact d held" by simp_all
  then show ?thesis
    by (auto simp: xsk_ok_def kernel_ok_def Let_def driver_slots_def pool_slots_def held_intact_def pool_ok_def add.assoc)
qed

text \<open>A kernel that takes a chunk off the fill ring, writes \<open>bs\<close> at its start and delivers it, when it can.\<close>

definition kernel_deliver :: "bytes \<Rightarrow> kernel_act" where
  "kernel_deliver bs x =
     (case x of (k, rg) \<Rightarrow>
        (case heap_pop (kn_fill k) of
           (None, _) \<Rightarrow> x
         | (Some a, m) \<Rightarrow>
             let k1 = k\<lparr>kn_fill := m, kn_held := a # kn_held k\<rparr>; rg1 = write_at (unat a) bs rg in
             (case heap_push \<lparr>xd_addr = a, xd_len = of_nat (length bs), xd_options = 0\<rparr> (kn_rx k1) of
                (False, _) \<Rightarrow> (k1, rg1)
              | (True, m2) \<Rightarrow> (k1\<lparr>kn_rx := m2, kn_held := remove1 a (kn_held k1)\<rparr>, rg1))))"

lemma kernel_deliver_conforms:
  assumes "length bs \<le> unat fs" "0 < fs"
  shows "conforms fs n (kernel_deliver bs)"
  unfolding conforms_def
proof
  fix x :: "xsk_kernel \<times> region"
  obtain k rg where x: "x = (k, rg)" by fastforce
  have fs: "0 < unat fs" using assms(2) by (simp add: word_less_nat_alt)
  show "(kernel_step fs n)\<^sup>*\<^sup>* x (kernel_deliver bs x)"
  proof (cases "heap_pop (kn_fill k)")
    case (Pair r m)
    show ?thesis
    proof (cases r)
      case None
      then show ?thesis using Pair by (simp add: kernel_deliver_def x)
    next
      case (Some a)
      let ?k1 = "k\<lparr>kn_fill := m, kn_held := a # kn_held k\<rparr>" let ?desc = "\<lparr>xd_addr = a, xd_len = of_nat (length bs), xd_options = 0\<rparr>"
      have s1: "kernel_step fs n (k, rg) (?k1, rg)" using kernel_step.takes Pair Some by simp
      have s2: "kernel_step fs n (?k1, rg) (?k1, write_at (unat a) bs rg)"
        using kernel_step.writes [of a ?k1 0 bs fs n rg] assms(1) by simp
      have run: "(kernel_step fs n)\<^sup>*\<^sup>* x (?k1, write_at (unat a) bs rg)" using s1 s2 by (simp add: x)
      obtain b m2 where push: "heap_push ?desc (kn_rx ?k1) = (b, m2)" by fastforce
      show ?thesis
      proof (cases b)
        case True
        then have "kernel_step fs n (?k1, write_at (unat a) bs rg) (?k1\<lparr>kn_rx := m2, kn_held := remove1 a (kn_held ?k1)\<rparr>, write_at (unat a) bs rg)"
          using kernel_step.delivers [of a ?k1 ?desc fs m2 n] push fs by simp
        with run show ?thesis using push True by (simp add: kernel_deliver_def x Pair Some Let_def)
      next
        case False
        with run show ?thesis using push by (simp add: kernel_deliver_def x Pair Some Let_def)
      qed
    qed
  qed
qed

definition demo_desc :: xdp_desc where
  "demo_desc = \<lparr>xd_addr = 0, xd_len = 0, xd_options = 0\<rparr>"

definition demo_start :: xsk_driver where
  "demo_start = xsk_start (heap_new 2 0xFFFFFFFF 0) (heap_new 2 0 demo_desc) \<lparr>st_rx_dropped = 0, st_rx_ring_full = 0\<rparr>
     \<lparr>ip_region = \<lparr>rg_bytes = (\<lambda>_. 0), rg_size = 65536\<rparr>, ip_stride = 8, ip_count = 2, ip_freed = [], ip_live = []\<rparr> 2 8"

theorem xsk_custody_witness:
  "let d = kernel_acts (kernel_deliver [1, 2, 3]) demo_start in
   mset (xr_free (xk_rings d)) + mset (ip_freed (xk_pool d)) + live_slots (xk_pool d)
      + kernel_slots (xr_frame_size (xk_rings d)) (xr_frames (xk_rings d)) (xk_kernel d) = all_slots (xr_frames (xk_rings d))"
proof -
  let ?pool = "\<lparr>ip_region = \<lparr>rg_bytes = (\<lambda>_. 0), rg_size = 65536\<rparr>, ip_stride = 8, ip_count = 2, ip_freed = [], ip_live = []\<rparr>"
  have new: "index_pool_new (\<lambda>_ _. True) 2 8 = Inr ?pool"
    by (simp add: index_pool_new_def checked_product_def zeroed_def checked_next_multiple_of_def layout_ok_def usize_max_def isize_max_def
        ALIGN_def)
  have fs: "xr_frame_size (xk_rings demo_start) = 8" "xr_frames (xk_rings demo_start) = 2"
    by (simp_all add: demo_start_def xsk_start_def refill_def rings_new_def kernel_turn_def Let_def split: prod.split)
  have "xsk_trace demo_start (kernel_acts (kernel_deliver [1, 2, 3]) demo_start) []"
    by (intro xsk_trace.kernel xsk_trace.started kernel_deliver_conforms) (simp_all add: fs)
  from xsk_custody [OF new _ _ _ this [unfolded demo_start_def], of 1] show ?thesis
    by (simp add: Let_def demo_start_def)
qed

end
