(* ===== verification/Mock_Driver.thy ===== *)
theory Mock_Driver
  imports Bypass
begin

text \<open>
  The mock driver of \<^verbatim>\<open>crates/transports/core/src/bypass/mock.rs\<close>: injected bytes land in a free slot of an
  index pool and are delivered in injection order. Its slots are accounted for as those of the real drivers
  are: each slot sits in exactly one of the free list, the queue, the pool's freed list and a live frame. It keeps the
  driver contract, so the shell over it is a burst source.
\<close>

record mock_driver =
  md_pool :: index_pool
  md_free :: "u32 list"
  md_freed :: "u32 list"
  md_queue :: "(u32 \<times> u32) list"
  md_stats :: driver_stats

text \<open>\<open>None\<close> is the panic over live frames.\<close>

definition mock_new :: "index_pool \<Rightarrow> mock_driver option" where
  "mock_new pool =
     (if length (ip_live pool) \<noteq> 0 then None
      else Some \<lparr>md_pool = snd (drain_freed [] pool), md_free = map of_nat [0..<unat (ip_count pool)],
                 md_freed = [], md_queue = [], md_stats = driver_stats_default\<rparr>)"

definition recycle :: "mock_driver \<Rightarrow> mock_driver" where
  "recycle d =
     (case drain_freed (md_freed d) (md_pool d) of
        (freed, pool) \<Rightarrow> d\<lparr>md_pool := pool, md_free := md_free d @ freed, md_freed := []\<rparr>)"

definition inject :: "bytes \<Rightarrow> mock_driver \<Rightarrow> mock_driver" where
  "inject bs d0 =
     (let d = recycle d0; stride = ip_stride (md_pool d) in
      if \<not> (length bs < 2 ^ 32 \<and> (of_nat (length bs) :: u32) \<le> stride)
      then d\<lparr>md_stats := (md_stats d)\<lparr>ds_truncated := ds_truncated (md_stats d) + 1\<rparr>\<rparr>
      else if md_free d = []
      then d\<lparr>md_stats := (md_stats d)\<lparr>no_buffer := no_buffer (md_stats d) + 1\<rparr>\<rparr>
      else
        let slot = last (md_free d); pool = md_pool d;
            pool' = pool\<lparr>ip_region := write_at (slot_start pool slot) bs (ip_region pool)\<rparr>
        in d\<lparr>md_pool := pool', md_free := butlast (md_free d),
             md_queue := md_queue d @ [(slot, of_nat (length bs))]\<rparr>)"

fun collect_queue ::
  "(u32 \<times> u32) list \<Rightarrow> index_pool \<Rightarrow> nat \<Rightarrow> index_frame frame_batch
     \<Rightarrow> nat \<times> (u32 \<times> u32) list \<times> index_pool \<times> index_frame frame_batch" where
  "collect_queue [] pool pushed out = (pushed, [], pool, out)"
| "collect_queue ((slot, len) # queue) pool pushed out =
     (if spare out = 0 then (pushed, (slot, len) # queue, pool, out)
      else case pool_frame slot 0 len pool of
        (f, pool') \<Rightarrow> collect_queue queue pool' (pushed + 1) (batch_push f out))"

definition mock_poll_frames ::
  "mock_driver \<Rightarrow> index_frame frame_batch \<Rightarrow> (transport_error + polled) \<times> mock_driver \<times> index_frame frame_batch" where
  "mock_poll_frames d0 out =
     (let d = recycle d0 in
      case collect_queue (md_queue d) (md_pool d) 0 out of
        (pushed, queue, pool, out') \<Rightarrow>
          (Inr (if pushed = 0 then Idle else Frames pushed), d\<lparr>md_queue := queue, md_pool := pool\<rparr>, out'))"

definition mock_ops :: "(mock_driver, index_frame) driver_ops" where
  "mock_ops = \<lparr>backend_name = ''mock'', poll_frames = mock_poll_frames, stats_of = md_stats,
     pool_stats_of = (\<lambda>d. index_pool_stats (md_pool d)), frame_len = (\<lambda>d f. unat (if_len f))\<rparr>"

section \<open>Slot custody\<close>

definition mock_slots :: "mock_driver \<Rightarrow> u32 multiset" where
  "mock_slots d = mset (md_free d) + image_mset fst (mset (md_queue d)) + pool_slots (md_pool d)"

definition mock_ok :: "mock_driver \<Rightarrow> bool" where
  "mock_ok d \<longleftrightarrow> mock_slots d = all_slots (ip_count (md_pool d)) \<and> md_freed d = [] \<and> pool_ok (md_pool d)
     \<and> (\<forall>(slot, len) \<in> set (md_queue d). len \<le> ip_stride (md_pool d))"

definition mock_drop :: "index_frame \<Rightarrow> mock_driver \<Rightarrow> mock_driver" where
  "mock_drop f d = d\<lparr>md_pool := drop_frame f (md_pool d)\<rparr>"

lemma recycle_ok: "mock_ok d \<Longrightarrow> mock_ok (recycle d)"
  by (auto simp: mock_ok_def recycle_def mock_slots_def pool_defs pool_ok_def frame_fits_def ac_simps)

lemma recycle_pool:
  "ip_live (md_pool (recycle d)) = ip_live (md_pool d)" "ip_region (md_pool (recycle d)) = ip_region (md_pool d)"
  "ip_stride (md_pool (recycle d)) = ip_stride (md_pool d)" "ip_count (md_pool (recycle d)) = ip_count (md_pool d)"
  "md_queue (recycle d) = md_queue d" "md_stats (recycle d) = md_stats d"
  by (simp_all add: recycle_def drain_freed_def)

lemma mock_new_ok:
  assumes "index_pool_new alloc n stride = Inr pool" "mock_new pool = Some d"
  shows "mock_ok d"
  using index_pool_new_ok [OF assms(1)] assms(2)
  by (auto simp: mock_new_def mock_ok_def mock_slots_def pool_defs all_slots_def pool_ok_def split: if_split_asm)

text \<open>The frame over the first \<open>len\<close> bytes of a slot.\<close>

definition whole_slot :: "u32 \<times> u32 \<Rightarrow> index_frame" where
  "whole_slot = (\<lambda>(slot, len). \<lparr>if_slot = slot, if_offset = 0, if_len = len\<rparr>)"

lemma whole_slot_simps [simp]:
  "whole_slot (slot, len) = \<lparr>if_slot = slot, if_offset = 0, if_len = len\<rparr>" "if_slot (whole_slot q) = fst q"
  "if_offset (whole_slot q) = 0" "if_len (whole_slot q) = snd q"
  by (simp_all add: whole_slot_def case_prod_unfold)

lemma collect_queue_spec:
  "collect_queue queue pool pushed out = (n, queue', pool', out') \<Longrightarrow>
   \<exists>k. k \<le> spare out \<and> n = pushed + k \<and> queue = take k queue @ queue' \<and> k \<le> length queue
     \<and> pool' = pool\<lparr>ip_live := rev (map whole_slot (take k queue)) @ ip_live pool\<rparr>
     \<and> extends_batch out (map whole_slot (take k queue)) out'
     \<and> (queue' = [] \<or> k = spare out)"
proof (induction queue pool pushed out rule: collect_queue.induct)
  case (1 pool pushed out)
  then show ?case by simp
next
  case (2 slot len queue pool pushed out)
  let ?f = "\<lparr>if_slot = slot, if_offset = 0, if_len = len\<rparr>"
  show ?case
  proof (cases "spare out = 0")
    case True
    with 2 show ?thesis by simp
  next
    case False
    have rec: "collect_queue queue (pool\<lparr>ip_live := ?f # ip_live pool\<rparr>) (pushed + 1) (batch_push ?f out) = (n, queue', pool', out')"
      using 2(2) False by (simp add: pool_frame_def)
    obtain k where k: "k \<le> spare (batch_push ?f out)" "n = pushed + 1 + k" "queue = take k queue @ queue'" "k \<le> length queue"
      "pool' = pool\<lparr>ip_live := rev (map whole_slot (take k queue)) @ ?f # ip_live pool\<rparr>"
      "extends_batch (batch_push ?f out) (map whole_slot (take k queue)) out'"
      "queue' = [] \<or> k = spare (batch_push ?f out)"
      using 2(1) [OF False _ rec] by (auto simp: pool_frame_def)
    have one: "extends_batch out [?f] (batch_push ?f out)" using False by (auto simp: extends_batch_def batch_push_def)
    show ?thesis
      using k extends_batch_trans [OF one k(6)] False spare_push [of out ?f]
      by (intro exI [of _ "Suc k"]) auto
  qed
qed

lemma mock_poll_spec:
  assumes "mock_poll_frames d out = (res, d', out')"
  obtains k where "k \<le> spare out" "res = Inr (if k = 0 then Idle else Frames k)" "md_queue d = take k (md_queue d) @ md_queue d'"
    "k \<le> length (md_queue d)" "md_queue d' = [] \<or> k = spare out"
    "d' = (recycle d)\<lparr>md_queue := drop k (md_queue d), md_pool := (md_pool (recycle d))\<lparr>ip_live :=
       rev (map whole_slot (take k (md_queue d))) @ ip_live (md_pool d)\<rparr>\<rparr>"
    "extends_batch out (map whole_slot (take k (md_queue d))) out'"
proof -
  obtain n queue pool where c: "collect_queue (md_queue d) (md_pool (recycle d)) 0 out = (n, queue, pool, out')"
    and r: "res = Inr (if n = 0 then Idle else Frames n)" "d' = (recycle d)\<lparr>md_queue := queue, md_pool := pool\<rparr>"
    using assms by (auto simp: mock_poll_frames_def recycle_pool Let_def split: prod.split_asm)
  from collect_queue_spec [OF c] obtain k where k: "k \<le> spare out" "n = k" "md_queue d = take k (md_queue d) @ queue"
    "k \<le> length (md_queue d)" "queue = [] \<or> k = spare out"
    "pool = (md_pool (recycle d))\<lparr>ip_live := rev (map whole_slot (take k (md_queue d))) @ ip_live (md_pool d)\<rparr>"
    "extends_batch out (map whole_slot (take k (md_queue d))) out'"
    by (auto simp: recycle_pool)
  have "queue = drop k (md_queue d)" using k(3) by (metis append_take_drop_id same_append_eq)
  with k r show thesis by (intro that [of k]) simp_all
qed

lemma mock_poll_ok:
  assumes "mock_ok d" "mock_poll_frames d out = (res, d', out')"
  shows "mock_ok d'"
proof -
  obtain k where d': "d' = (recycle d)\<lparr>md_queue := drop k (md_queue d), md_pool := (md_pool (recycle d))\<lparr>ip_live :=
       rev (map whole_slot (take k (md_queue d))) @ ip_live (md_pool d)\<rparr>\<rparr>"
    using mock_poll_spec [OF assms(2)] by metis
  have ok: "mock_ok (recycle d)" by (rule recycle_ok [OF assms(1)])
  have q: "image_mset fst (mset (drop k (md_queue d))) + image_mset fst (mset (take k (md_queue d))) = image_mset fst (mset (md_queue d))"
    by (metis append_take_drop_id image_mset_union mset_append union_commute)
  have fits: "frame_fits (md_pool d) (whole_slot q)" if "q \<in> set (md_queue d)" for q
  proof -
    have "fst q \<in># image_mset fst (mset (md_queue d))" using that by force
    then have "fst q < ip_count (md_pool d)"
      using assms(1) slots_bounded [of "image_mset fst (mset (md_queue d))" "mset (md_free d) + pool_slots (md_pool d)"]
      by (simp add: mock_ok_def mock_slots_def ac_simps)
    moreover have "snd q \<le> ip_stride (md_pool d)" using assms(1) that by (auto simp: mock_ok_def)
    ultimately show ?thesis by (simp add: frame_fits_def word_le_nat_alt)
  qed
  show ?thesis
    using ok fits q unfolding d'
    by (auto simp: mock_ok_def mock_slots_def pool_defs pool_ok_def frame_fits_def recycle_pool ac_simps multiset.map_comp o_def
        dest: in_set_dropD in_set_takeD)
qed

interpretation mock: stream_driver mock_ops mock_ok gate "\<lambda>d. map whole_slot (md_queue d)" for gate
proof unfold_locales
  fix d out res d' out'
  assume a: "mock_ok d" "0 < spare out" "poll_frames mock_ops d out = (res, d', out')"
  then have p: "mock_poll_frames d out = (res, d', out')" by (simp add: mock_ops_def)
  show "mock_ok d'" by (rule mock_poll_ok [OF a(1) p])
  obtain k where k: "res = Inr (if k = 0 then Idle else Frames k)" "k \<le> length (md_queue d)"
      "extends_batch out (map whole_slot (take k (md_queue d))) out'" "md_queue d = take k (md_queue d) @ md_queue d'"
    using mock_poll_spec [OF p] by metis
  then show "\<exists>fs. extends_batch out fs out' \<and> (\<forall>p. res = Inr p \<longrightarrow> outcome_ok p fs)"
    by (intro exI [of _ "map whole_slot (take k (md_queue d))"]) auto
  show "\<exists>fs. extends_batch out fs out' \<and> map whole_slot (md_queue d) = fs @ map whole_slot (md_queue d')"
    using k(3) arg_cong [OF k(4), of "map whole_slot"] by (intro exI [of _ "map whole_slot (take k (md_queue d))"]) simp
qed

lemma inject_ok: "mock_ok d \<Longrightarrow> mock_ok (inject bs d)"
proof -
  assume ok: "mock_ok d"
  let ?d = "recycle d"
  have r: "mock_ok ?d" by (rule recycle_ok [OF ok])
  show ?thesis
  proof (cases "length bs < 2 ^ 32 \<and> (of_nat (length bs) :: u32) \<le> ip_stride (md_pool ?d) \<and> md_free ?d \<noteq> []")
    case True
    obtain fs sl where "md_free ?d = fs @ [sl]" using True by (cases "md_free ?d" rule: rev_cases) auto
    with r True show ?thesis
      by (auto simp: inject_def Let_def mock_ok_def mock_slots_def pool_ok_def frame_fits_def pool_slots_def live_slots_def write_at_def)
  next
    case False
    with r show ?thesis by (auto simp: inject_def Let_def mock_ok_def mock_slots_def)
  qed
qed

lemma mock_drop_ok: "mock_ok d \<Longrightarrow> f \<in> set (ip_live (md_pool d)) \<Longrightarrow> mock_ok (mock_drop f d)"
  using drop_frame_slots [of f "md_pool d"] drop_frame_ok [of "md_pool d" f]
  by (auto simp: mock_ok_def mock_drop_def mock_slots_def) (auto simp: drop_frame_def)

section \<open>Delivery\<close>

text \<open>The bytes waiting in the queue.\<close>

definition waiting :: "mock_driver \<Rightarrow> bytes list" where
  "waiting d = map (\<lambda>q. frame_bytes (md_pool d) (whole_slot q)) (md_queue d)"

definition accepts :: "mock_driver \<Rightarrow> bytes \<Rightarrow> bool" where
  "accepts d bs \<longleftrightarrow> length bs \<le> unat (ip_stride (md_pool d)) \<and> md_free (recycle d) \<noteq> []"

lemma frame_bytes_cong:
  "ip_region p = ip_region q \<Longrightarrow> ip_stride p = ip_stride q \<Longrightarrow> frame_bytes p f = frame_bytes q f"
  by (simp add: frame_bytes_def slot_start_def)

lemma length_fits_u32:
  "length bs < 2 ^ 32 \<and> (of_nat (length bs) :: u32) \<le> k \<longleftrightarrow> length bs \<le> unat k"
proof
  assume "length bs \<le> unat k"
  moreover have "unat k < 2 ^ 32" using unat_less_pow [of k] by simp
  ultimately show "length bs < 2 ^ 32 \<and> (of_nat (length bs) :: u32) \<le> k" by (simp add: word_le_nat_alt unat_of_nat)
next
  assume "length bs < 2 ^ 32 \<and> (of_nat (length bs) :: u32) \<le> k"
  then show "length bs \<le> unat k" by (elim conjE) (simp add: word_le_nat_alt unat_of_nat)
qed

text \<open>An accepted injection joins the queue, and changes no queued or live bytes.\<close>

lemma inject_accepted:
  assumes ok: "mock_ok d" and acc: "accepts d bs"
  shows "waiting (inject bs d) = waiting d @ [bs]"
    and "f \<in> set (ip_live (md_pool d)) \<Longrightarrow> frame_bytes (md_pool (inject bs d)) f = frame_bytes (md_pool d) f"
proof -
  let ?d = "recycle d" let ?p = "md_pool (recycle d)" let ?s = "last (md_free (recycle d))"
  have ok': "mock_ok ?d" and ne: "md_free ?d \<noteq> []" and len: "length bs \<le> unat (ip_stride (md_pool d))"
    using recycle_ok [OF ok] acc by (auto simp: accepts_def)
  have fits: "length bs < 2 ^ 32" "(of_nat (length bs) :: u32) \<le> ip_stride (md_pool ?d)"
    using len length_fits_u32 [of bs "ip_stride (md_pool d)"] by (auto simp: recycle_pool)
  have inj: "inject bs d = ?d\<lparr>md_pool := ?p\<lparr>ip_region := write_at (slot_start ?p ?s) bs (ip_region ?p)\<rparr>,
      md_free := butlast (md_free ?d), md_queue := md_queue ?d @ [(?s, of_nat (length bs))]\<rparr>"
    using fits ne by (simp add: inject_def Let_def)
  have "?s \<in># mset (md_free ?d)" using ne by simp
  then have apart: "?s \<notin># image_mset fst (mset (md_queue ?d)) + pool_slots ?p"
    using ok' slots_disjoint [of "mset (md_free ?d)" "image_mset fst (mset (md_queue ?d)) + pool_slots ?p" _ ?s]
    by (simp add: mock_ok_def mock_slots_def ac_simps)
  have live: "frame_fits ?p f \<and> if_slot f \<noteq> ?s" if "f \<in> set (ip_live ?p)" for f
  proof -
    have "if_slot f \<in># pool_slots ?p" using that by (simp add: pool_slots_def live_slots_def)
    then show ?thesis using ok' apart that by (auto simp: mock_ok_def pool_ok_def)
  qed
  have queued: "frame_fits ?p (whole_slot q) \<and> fst q \<noteq> ?s" if "q \<in> set (md_queue ?d)" for q
  proof -
    have m: "fst q \<in># image_mset fst (mset (md_queue ?d))" using that by force
    have "fst q < ip_count ?p"
      using ok' slots_bounded [OF _ m, of "mset (md_free ?d) + pool_slots ?p"] by (simp add: mock_ok_def mock_slots_def ac_simps)
    moreover have "snd q \<le> ip_stride ?p" using ok' that by (auto simp: mock_ok_def)
    moreover have "fst q \<noteq> ?s" using apart m by (metis union_iff)
    ultimately show ?thesis by (simp add: frame_fits_def word_le_nat_alt)
  qed
  have same: "frame_bytes ?p f = frame_bytes (md_pool d) f" for f by (rule frame_bytes_cong) (simp_all add: recycle_pool)
  show "frame_bytes (md_pool (inject bs d)) f = frame_bytes (md_pool d) f" if "f \<in> set (ip_live (md_pool d))"
    using live [of f] that write_other_slot [of ?p f ?s bs] len by (simp add: inj same recycle_pool)
  have "frame_bytes (md_pool (inject bs d)) (whole_slot q) = frame_bytes (md_pool d) (whole_slot q)" if "q \<in> set (md_queue ?d)" for q
    using queued [OF that] write_other_slot [of ?p "whole_slot q" ?s bs] len by (simp add: inj same recycle_pool)
  moreover have "frame_bytes (md_pool (inject bs d)) (whole_slot (?s, of_nat (length bs))) = bs"
    using frame_bytes_written [of bs "whole_slot (?s, of_nat (length bs))" ?p] fits by (simp add: inj unat_of_nat)
  ultimately show "waiting (inject bs d) = waiting d @ [bs]"
    by (simp add: waiting_def inj recycle_pool)
qed

lemma inject_refused:
  assumes "\<not> accepts d bs"
  shows "waiting (inject bs d) = waiting d" "frame_bytes (md_pool (inject bs d)) f = frame_bytes (md_pool d) f"
    "ip_live (md_pool (inject bs d)) = ip_live (md_pool d)"
  using assms length_fits_u32 [of bs "ip_stride (md_pool d)"]
  by (auto simp: accepts_def inject_def Let_def waiting_def recycle_pool intro!: frame_bytes_cong)

text \<open>
  A run of the mock: injections, polls with a drained batch, frames dropped by the caller. \<open>acc\<close> lists the accepted
  injections, \<open>got\<close> the bytes of each delivered frame when it was delivered, and \<open>held\<close> the frames still held with those bytes.
\<close>

inductive mock_trace ::
  "mock_driver \<Rightarrow> mock_driver \<Rightarrow> bytes list \<Rightarrow> bytes list \<Rightarrow> (index_frame \<times> bytes) list \<Rightarrow> bool" for d0 where
  start: "mock_trace d0 d0 [] [] []"
| injected: "mock_trace d0 d acc got held \<Longrightarrow> mock_trace d0 (inject bs d) (acc @ (if accepts d bs then [bs] else [])) got held"
| polled: "mock_trace d0 d acc got held \<Longrightarrow> mock_poll_frames d (batch_with_capacity cap) = (res, d', out) \<Longrightarrow>
    mock_trace d0 d' acc (got @ map (frame_bytes (md_pool d')) (fb_frames out))
      (map (\<lambda>f. (f, frame_bytes (md_pool d') f)) (fb_frames out) @ held)"
| dropped: "mock_trace d0 d acc got held \<Longrightarrow> f \<in> set (ip_live (md_pool d)) \<Longrightarrow>
    mock_trace d0 (mock_drop f d) acc got (filter (\<lambda>(g, _). g \<noteq> f) held)"

lemma inject_bytes:
  assumes "mock_ok d" "f \<in> set (ip_live (md_pool d))"
  shows "frame_bytes (md_pool (inject bs d)) f = frame_bytes (md_pool d) f"
  using assms inject_accepted(2) inject_refused(2) by (cases "accepts d bs") auto

lemma inject_live: "ip_live (md_pool (inject bs d)) = ip_live (md_pool d)"
  by (simp add: inject_def Let_def recycle_pool)

lemma poll_waiting:
  assumes "mock_poll_frames d (batch_with_capacity cap) = (res, d', out)"
  shows "waiting d = map (frame_bytes (md_pool d')) (fb_frames out) @ waiting d'"
    and "frame_bytes (md_pool d') f = frame_bytes (md_pool d) f"
    and "set (ip_live (md_pool d')) = set (fb_frames out) \<union> set (ip_live (md_pool d))"
proof -
  obtain k where d': "d' = (recycle d)\<lparr>md_queue := drop k (md_queue d), md_pool := (md_pool (recycle d))\<lparr>ip_live :=
       rev (map whole_slot (take k (md_queue d))) @ ip_live (md_pool d)\<rparr>\<rparr>"
    and out: "extends_batch (batch_with_capacity cap) (map whole_slot (take k (md_queue d))) out"
    using mock_poll_spec [OF assms] by metis
  have fr: "fb_frames out = map whole_slot (take k (md_queue d))"
    using out by (simp add: extends_batch_def batch_with_capacity_def)
  show same: "frame_bytes (md_pool d') f = frame_bytes (md_pool d) f" for f
    by (rule frame_bytes_cong) (simp_all add: d' recycle_pool)
  show "waiting d = map (frame_bytes (md_pool d')) (fb_frames out) @ waiting d'"
    by (simp add: waiting_def fr same comp_def) (simp add: d' flip: map_append)
  show "set (ip_live (md_pool d')) = set (fb_frames out) \<union> set (ip_live (md_pool d))"
    by (simp add: fr d')
qed

text \<open>
  C33. The mock delivers what was injected. In every run from a fresh driver each slot sits in exactly one place, the
  accepted injections are the delivered frames followed by those still queued, byte for byte and in order, and the
  bytes of a frame the caller holds never change until it drops the frame: no injection writes into a slot that is
  queued or held.
\<close>

theorem mock_delivery:
  assumes "mock_ok d0" "md_queue d0 = []" "mock_trace d0 d acc got held"
  shows "mock_ok d \<and> acc = got @ waiting d
    \<and> (\<forall>(f, bs) \<in> set held. frame_bytes (md_pool d) f = bs)"
proof -
  have "mock_ok d \<and> acc = got @ waiting d
      \<and> (\<forall>(f, bs) \<in> set held. f \<in> set (ip_live (md_pool d)) \<and> frame_bytes (md_pool d) f = bs)"
    using assms(3)
  proof induction
    case start
    then show ?case using assms by (simp add: waiting_def)
  next
    case (injected d acc got held bs)
    then show ?case
      using inject_ok [of d bs] inject_accepted(1) [of d bs] inject_refused(1) [of d bs] inject_bytes [of d _ bs] inject_live [of bs d]
      by auto
  next
    case (polled d acc got held cap res d' out)
    then show ?case
      using mock_poll_ok [of d "batch_with_capacity cap" res d' out] poll_waiting [OF polled.hyps(2)] by auto
  next
    case (dropped d acc got held f)
    have "frame_bytes (drop_frame f (md_pool d)) g = frame_bytes (md_pool d) g" for g
      by (rule frame_bytes_cong) (simp_all add: drop_frame_def)
    with dropped show ?case
      using mock_drop_ok [of d f]
      by (auto simp: mock_drop_def waiting_def drop_frame_def in_set_remove1)
  qed
  then show ?thesis by auto
qed

definition demo_pool :: index_pool where
  "demo_pool = \<lparr>ip_region = \<lparr>rg_bytes = (\<lambda>_. 0), rg_size = 65536\<rparr>, ip_stride = 8, ip_count = 2, ip_freed = [], ip_live = []\<rparr>"

theorem mock_delivery_witness:
  "\<exists>d. mock_new demo_pool = Some d \<and> mock_ok (inject [1, 2] d) \<and> waiting (inject [1, 2] d) = [[1, 2]]"
proof -
  obtain d where d: "mock_new demo_pool = Some d" by (simp add: mock_new_def demo_pool_def)
  have new: "index_pool_new (\<lambda>_ _. True) 2 8 = Inr demo_pool"
    by (simp add: index_pool_new_def checked_product_def zeroed_def checked_next_multiple_of_def layout_ok_def usize_max_def isize_max_def
        ALIGN_def demo_pool_def)
  have ok: "mock_ok d" by (rule mock_new_ok [OF new d])
  have q: "md_queue d = []" using d by (auto simp: mock_new_def split: if_split_asm)
  have "accepts d [1, 2]"
    using d by (auto simp: accepts_def mock_new_def demo_pool_def recycle_def drain_freed_def split: if_split_asm)
  then show ?thesis
    using mock_delivery [OF ok q mock_trace.injected [OF mock_trace.start, of d "[1, 2]"]] d by auto
qed

end
