(* ===== verification/Decap.thy ===== *)
theory Decap
  imports Mock_Driver
begin

unbundle bit_operations_syntax

text \<open>
  L2-to-UDP decapsulation of \<^verbatim>\<open>crates/transports/core/src/decap.rs\<close>: the header parser \<^verbatim>\<open>parse_udp\<close> and the
  wrapper \<^verbatim>\<open>UdpDecap\<close>, which turns a source of Ethernet frames into a source of datagrams.

  The wrapped source is a state \<open>'t\<close> with a \<open>recv_burst\<close> operation, and \<open>as_ref\<close> gives the bytes of a frame. A loop that
  the source may keep running forever is \<open>None\<close>.
\<close>

section \<open>Header parser\<close>

definition ETH_HDR :: nat where "ETH_HDR = 14"

definition VLAN_TAG :: nat where "VLAN_TAG = 4"

definition IPV4_HDR :: nat where "IPV4_HDR = 20"

definition UDP_HDR :: nat where "UDP_HDR = 8"

definition ETHERTYPE_IPV4 :: u16 where "ETHERTYPE_IPV4 = 0x0800"

definition ETHERTYPE_VLAN :: u16 where "ETHERTYPE_VLAN = 0x8100"

definition IPPROTO_UDP :: u8 where "IPPROTO_UDP = 17"

definition FRAGMENT_BITS :: u16 where "FRAGMENT_BITS = 0x3fff"

lemmas decap_consts = ETH_HDR_def VLAN_TAG_def IPV4_HDR_def UDP_HDR_def

datatype decap_drop = NotIpv4 | Fragment | WrongDst | DecapTruncated

type_synonym ipv4 = "u8 \<times> u8 \<times> u8 \<times> u8"

text \<open>The first part of \<^verbatim>\<open>parse_udp\<close>: where the IPv4 packet starts, and its bytes.\<close>

definition locate_ipv4 :: "bytes \<Rightarrow> decap_drop + nat \<times> bytes" where
  "locate_ipv4 frame =
     (case split_first_chunk ETH_HDR frame of
        None \<Rightarrow> Inl DecapTruncated
      | Some (eth, rest) \<Rightarrow>
          (let ty = u16_from_be_bytes [eth ! 12, eth ! 13] in
           if ty = ETHERTYPE_IPV4 then Inr (ETH_HDR, rest)
           else if ty = ETHERTYPE_VLAN then
             (case split_first_chunk VLAN_TAG rest of
                None \<Rightarrow> Inl DecapTruncated
              | Some (tag, ip) \<Rightarrow>
                  if u16_from_be_bytes [tag ! 2, tag ! 3] \<noteq> ETHERTYPE_IPV4 then Inl NotIpv4
                  else Inr (ETH_HDR + VLAN_TAG, ip))
           else Inl NotIpv4))"

definition parse_ipv4_udp :: "nat \<Rightarrow> bytes \<Rightarrow> u16 \<Rightarrow> ipv4 option \<Rightarrow> decap_drop + (u32 \<times> u32) \<times> socket_addr" where
  "parse_ipv4_udp l3 ip dst_port dst_ip =
     (case split_first_chunk IPV4_HDR ip of
        None \<Rightarrow> Inl DecapTruncated
      | Some (hdr, _) \<Rightarrow>
          if drop_bit 4 (hdr ! 0) \<noteq> 4 then Inl NotIpv4
          else let ihl = unat (hdr ! 0 AND 0x0f) * 4 in
          if ihl < IPV4_HDR \<or> length ip < ihl then Inl DecapTruncated
          else if u16_from_be_bytes [hdr ! 6, hdr ! 7] AND FRAGMENT_BITS \<noteq> 0 then Inl Fragment
          else if hdr ! 9 \<noteq> IPPROTO_UDP then Inl WrongDst
          else case get_range ihl (unat (u16_from_be_bytes [hdr ! 2, hdr ! 3])) ip of
            None \<Rightarrow> Inl DecapTruncated
          | Some segment \<Rightarrow>
              (case split_first_chunk UDP_HDR segment of
                 None \<Rightarrow> Inl DecapTruncated
               | Some (udp, _) \<Rightarrow>
                   (let dst = (hdr ! 16, hdr ! 17, hdr ! 18, hdr ! 19) in
                    if u16_from_be_bytes [udp ! 2, udp ! 3] \<noteq> dst_port
                       \<or> (case dst_ip of None \<Rightarrow> False | Some want \<Rightarrow> want \<noteq> dst)
                    then Inl WrongDst
                    else let udp_len = unat (u16_from_be_bytes [udp ! 4, udp ! 5]) in
                    if udp_len < UDP_HDR \<or> length segment < udp_len then Inl DecapTruncated
                    else
                      Inr ((of_nat (l3 + ihl + UDP_HDR), of_nat (l3 + ihl + udp_len)),
                           AddrV4 (hdr ! 12) (hdr ! 13) (hdr ! 14) (hdr ! 15) (u16_from_be_bytes [udp ! 0, udp ! 1])))))"

definition parse_udp :: "bytes \<Rightarrow> u16 \<Rightarrow> ipv4 option \<Rightarrow> decap_drop + (u32 \<times> u32) \<times> socket_addr" where
  "parse_udp frame dst_port dst_ip =
     (case locate_ipv4 frame of
        Inl reason \<Rightarrow> Inl reason
      | Inr (l3, ip) \<Rightarrow> parse_ipv4_udp l3 ip dst_port dst_ip)"

section \<open>The wrapper\<close>

record decap_stats =
  not_ipv4 :: u64
  fragment :: u64
  wrong_dst :: u64
  truncated :: u64

definition decap_stats_default :: decap_stats where
  "decap_stats_default = \<lparr>not_ipv4 = 0, fragment = 0, wrong_dst = 0, truncated = 0\<rparr>"

definition count_drop :: "decap_drop \<Rightarrow> decap_stats \<Rightarrow> decap_stats" where
  "count_drop reason s =
     (case reason of
        NotIpv4 \<Rightarrow> s\<lparr>not_ipv4 := not_ipv4 s + 1\<rparr>
      | Fragment \<Rightarrow> s\<lparr>fragment := fragment s + 1\<rparr>
      | WrongDst \<Rightarrow> s\<lparr>wrong_dst := wrong_dst s + 1\<rparr>
      | DecapTruncated \<Rightarrow> s\<lparr>truncated := truncated s + 1\<rparr>)"

definition decap_total :: "decap_stats \<Rightarrow> u64" where
  "decap_total s = not_ipv4 s + fragment s + wrong_dst s + truncated s"

record 'f decap_frame =
  df_frame :: 'f
  df_payload :: "u32 \<times> u32"
  df_peer :: socket_addr

definition decap_bytes :: "('f \<Rightarrow> bytes) \<Rightarrow> 'f decap_frame \<Rightarrow> bytes" where
  "decap_bytes as_ref d =
     (case get_range (unat (fst (df_payload d))) (unat (snd (df_payload d))) (as_ref (df_frame d)) of
        None \<Rightarrow> [] | Some bs \<Rightarrow> bs)"

record ('t, 'f) udp_decap =
  ud_inner :: 't
  ud_port :: u16
  ud_ip :: "ipv4 option"
  ud_collected :: "'f frame_batch"
  ud_pending :: "'f list"
  ud_stats :: decap_stats
  ud_metrics :: metrics

definition udp_decap_new :: "metrics \<Rightarrow> 't \<Rightarrow> u16 \<Rightarrow> ipv4 option \<Rightarrow> nat \<Rightarrow> ('t, 'f) udp_decap" where
  "udp_decap_new m inner dst_port dst_ip burst =
     \<lparr>ud_inner = inner, ud_port = dst_port, ud_ip = dst_ip, ud_collected = batch_with_capacity burst,
      ud_pending = [], ud_stats = decap_stats_default, ud_metrics = m\<rparr>"

text \<open>\<^verbatim>\<open>deliver\<close>, on the pending queue and the counters.\<close>

fun deliver_loop ::
  "('f \<Rightarrow> bytes) \<Rightarrow> u16 \<Rightarrow> ipv4 option \<Rightarrow> 'f list \<Rightarrow> decap_stats \<Rightarrow> nat \<Rightarrow> 'f decap_frame frame_batch
     \<Rightarrow> nat \<times> 'f list \<times> decap_stats \<times> 'f decap_frame frame_batch" where
  "deliver_loop as_ref port ip [] s pushed out = (pushed, [], s, out)"
| "deliver_loop as_ref port ip (frame # pending) s pushed out =
     (if spare out = 0 then (pushed, frame # pending, s, out)
      else case parse_udp (as_ref frame) port ip of
        Inr (payload, peer) \<Rightarrow>
          deliver_loop as_ref port ip pending s (pushed + 1)
            (batch_push \<lparr>df_frame = frame, df_payload = payload, df_peer = peer\<rparr> out)
      | Inl reason \<Rightarrow> deliver_loop as_ref port ip pending (count_drop reason s) pushed out)"

definition deliver ::
  "('f \<Rightarrow> bytes) \<Rightarrow> ('t, 'f) udp_decap \<Rightarrow> 'f decap_frame frame_batch \<Rightarrow> nat \<times> ('t, 'f) udp_decap \<times> 'f decap_frame frame_batch" where
  "deliver as_ref u out =
     (case deliver_loop as_ref (ud_port u) (ud_ip u) (ud_pending u) (ud_stats u) 0 out of
        (pushed, pending, s, out') \<Rightarrow> (pushed, u\<lparr>ud_pending := pending, ud_stats := s\<rparr>, out'))"

partial_function (option) fill ::
  "('t, 'f) recv_op \<Rightarrow> ('f \<Rightarrow> bytes) \<Rightarrow> ('t, 'f) udp_decap \<Rightarrow> 'f decap_frame frame_batch
     \<Rightarrow> ((transport_error + nat) \<times> ('t, 'f) udp_decap \<times> 'f decap_frame frame_batch) option" where
  "fill recv as_ref u out =
     (case deliver as_ref u out of
        (pushed, u1, out1) \<Rightarrow>
          if 0 < pushed \<or> spare out1 = 0 then Some (Inr pushed, u1, out1)
          else
            (case recv (ud_inner u1) (ud_collected u1) of
               (res, t, c) \<Rightarrow>
                 (case res of
                    Inl e \<Rightarrow> Some (Inl e, u1\<lparr>ud_inner := t, ud_collected := c\<rparr>, out1)
                  | Inr n \<Rightarrow>
                      if n = 0 then Some (Inr 0, u1\<lparr>ud_inner := t, ud_collected := c\<rparr>, out1)
                      else
                        (case batch_drain c of
                           (fs, c') \<Rightarrow>
                             fill recv as_ref (u1\<lparr>ud_inner := t, ud_collected := c', ud_pending := ud_pending u1 @ fs\<rparr>) out1))))"

definition decap_recv ::
  "('t, 'f) recv_op \<Rightarrow> ('f \<Rightarrow> bytes) \<Rightarrow> string \<Rightarrow> bool \<Rightarrow> ('t, 'f) udp_decap \<Rightarrow> 'f decap_frame frame_batch
     \<Rightarrow> ((transport_error + nat) \<times> ('t, 'f) udp_decap \<times> 'f decap_frame frame_batch) option" where
  "decap_recv recv as_ref inner_name gate u out =
     (case fill recv as_ref u out of
        None \<Rightarrow> None
      | Some (res, u', out') \<Rightarrow>
          Some (res, u'\<lparr>ud_metrics := record_drops gate inner_name DecapFiltered
                           (decap_total (ud_stats u') - decap_total (ud_stats u)) (ud_metrics u')\<rparr>, out'))"

section \<open>What the parser accepts\<close>

text \<open>
  An Ethernet frame with at most one 802.1Q tag (\<open>pk_vlan\<close> its tag control bytes), an IPv4 header with options, a UDP header
  and a payload, followed by whatever pads the frame. \<open>pk_fl\<close> is the flags and fragment offset field, \<open>pk_total\<close> the total
  length field.
\<close>

record udp_packet =
  pk_macs :: bytes
  pk_vlan :: "bytes option"
  pk_tos :: u8
  pk_total :: u16
  pk_ident :: bytes
  pk_fl :: u16
  pk_ttl :: u8
  pk_hck :: bytes
  pk_src :: ipv4
  pk_dst :: ipv4
  pk_opts :: bytes
  pk_sport :: u16
  pk_dport :: u16
  pk_uck :: bytes
  pk_payload :: bytes
  pk_trailer :: bytes

definition quad :: "ipv4 \<Rightarrow> bytes" where
  "quad = (\<lambda>(a, b, c, d). [a, b, c, d])"

definition link_header :: "udp_packet \<Rightarrow> bytes" where
  "link_header p = pk_macs p @ (case pk_vlan p of None \<Rightarrow> [] | Some tci \<Rightarrow> [0x81, 0] @ tci) @ [0x08, 0]"

definition ip_packet :: "udp_packet \<Rightarrow> bytes" where
  "ip_packet p =
     [of_nat (69 + length (pk_opts p) div 4), pk_tos p] @ u16_to_be_bytes (pk_total p) @ pk_ident p @ u16_to_be_bytes (pk_fl p)
     @ [pk_ttl p, 17] @ pk_hck p @ quad (pk_src p) @ quad (pk_dst p) @ pk_opts p
     @ u16_to_be_bytes (pk_sport p) @ u16_to_be_bytes (pk_dport p) @ u16_to_be_bytes (of_nat (8 + length (pk_payload p)))
     @ pk_uck p @ pk_payload p @ pk_trailer p"

definition packet_ok :: "udp_packet \<Rightarrow> bool" where
  "packet_ok p \<longleftrightarrow>
     length (pk_macs p) = 12 \<and> (case pk_vlan p of None \<Rightarrow> True | Some tci \<Rightarrow> length tci = 2)
     \<and> length (pk_ident p) = 2 \<and> length (pk_hck p) = 2 \<and> length (pk_uck p) = 2
     \<and> 4 dvd length (pk_opts p) \<and> length (pk_opts p) \<le> 40 \<and> pk_fl p AND FRAGMENT_BITS = 0
     \<and> 28 + length (pk_opts p) + length (pk_payload p) \<le> unat (pk_total p)
     \<and> unat (pk_total p) \<le> 28 + length (pk_opts p) + length (pk_payload p) + length (pk_trailer p)"

definition payload_start :: "udp_packet \<Rightarrow> nat" where
  "payload_start p = length (link_header p) + 28 + length (pk_opts p)"

definition sender :: "udp_packet \<Rightarrow> socket_addr" where
  "sender p = (case pk_src p of (a, b, c, d) \<Rightarrow> AddrV4 a b c d (pk_sport p))"

subsection \<open>Header fields\<close>

lemma u16_bytes:
  obtains a b where "u16_to_be_bytes w = [a, b]" "u16_from_be_bytes [a, b] = w"
proof -
  have "length (u16_to_be_bytes w) = 2" by (rule length_to_be_bytes)
  then obtain a b where "u16_to_be_bytes w = [a, b]" by (cases "u16_to_be_bytes w"; cases "tl (u16_to_be_bytes w)") auto
  with u16_be_roundtrip [of w] that show thesis by simp
qed

lemma u16_bytes_of: "u16_to_be_bytes (u16_from_be_bytes [a, b]) = [a, b]"
proof -
  have "be_nat [a, b] < 2 ^ 16" using be_nat_less [of "[a, b]"] by simp
  then have "unat (of_nat (be_nat [a, b]) :: u16) = be_nat [a, b]" by (simp add: unat_of_nat)
  then show ?thesis
    using be_bytes_be_nat [of "[a, b]"] by (simp add: u16_to_be_bytes_def u16_from_be_bytes_def numeral_2_eq_2)
qed

lemma ethertypes [simp]:
  "u16_from_be_bytes [8, 0] = ETHERTYPE_IPV4" "u16_from_be_bytes [0x81, 0] = ETHERTYPE_VLAN" "ETHERTYPE_VLAN \<noteq> ETHERTYPE_IPV4"
  by (simp_all add: u16_from_be_bytes_def be_nat_def ETHERTYPE_IPV4_def ETHERTYPE_VLAN_def)

lemma low_nibble: "unat (b AND 0x0f :: u8) = unat b mod 16"
proof -
  have "b AND 0x0f = take_bit 4 b" by (simp add: take_bit_eq_mask mask_eq_exp_minus_1)
  then show ?thesis by (simp add: take_bit_eq_mod unat_mod)
qed

lemma high_nibble: "drop_bit 4 b = (4 :: u8) \<longleftrightarrow> unat b div 16 = 4"
  by (simp add: word_unat_eq_iff drop_bit_eq_div unat_div)

lemma version_byte:
  assumes "k \<le> 10"
  shows "drop_bit 4 (of_nat (69 + k) :: u8) = 4" "unat (of_nat (69 + k) AND 0x0f :: u8) = 5 + k"
proof -
  have "unat (of_nat (69 + k) :: u8) = 69 + k" using assms by (simp add: unat_of_nat del: of_nat_add)
  moreover have d: "(69 + k) div 16 = 4" by (rule div_nat_eqI) (use assms in simp_all)
  moreover have "(69 + k) mod 16 = 5 + k" using minus_div_mult_eq_mod [of "69 + k" 16] d by simp
  ultimately show "drop_bit 4 (of_nat (69 + k) :: u8) = 4" "unat (of_nat (69 + k) AND 0x0f :: u8) = 5 + k"
    unfolding high_nibble low_nibble by (simp_all del: of_nat_add)
qed

lemma version_byte_of:
  assumes "drop_bit 4 b = (4 :: u8)" "unat (b AND 0x0f) * 4 \<ge> 20"
  shows "b = of_nat (69 + (unat (b AND 0x0f) - 5))" "unat (b AND 0x0f) \<le> 15"
proof -
  have d: "unat b div 16 = 4" "5 \<le> unat b mod 16" using assms by (auto simp: high_nibble low_nibble)
  then have "unat b = 69 + (unat b mod 16 - 5)" using div_mult_mod_eq [of "unat b" 16] by linarith
  then have "of_nat (unat b) = (of_nat (69 + (unat b mod 16 - 5)) :: u8)" by (rule arg_cong)
  then show "b = of_nat (69 + (unat (b AND 0x0f) - 5))"
    unfolding low_nibble by (simp only: of_nat_unat ucast_id)
  show "unat (b AND 0x0f) \<le> 15" by (simp add: low_nibble)
qed

subsection \<open>Acceptance\<close>

lemma last_two:
  assumes "length xs = n + 2"
  obtains ys a b where "xs = ys @ [a, b]" "length ys = n"
proof -
  obtain zs b where z: "xs = zs @ [b]" using assms by (cases xs rule: rev_cases) auto
  then obtain ys a where "zs = ys @ [a]" using assms by (cases zs rule: rev_cases) auto
  with z that [of ys a b] assms show thesis by simp
qed

lemma nth_last_two: "length ys = n \<Longrightarrow> (ys @ [a, b]) ! n = a" "length ys = n \<Longrightarrow> (ys @ [a, b]) ! Suc n = b"
  by (simp_all add: nth_append)

lemma eth_type [simp]: "length macs = 12 \<Longrightarrow> (macs @ [a, b]) ! 12 = a" "length macs = 12 \<Longrightarrow> (macs @ [a, b]) ! 13 = b"
  "length tci = 2 \<Longrightarrow> (tci @ [a, b]) ! 2 = a" "length tci = 2 \<Longrightarrow> (tci @ [a, b]) ! 3 = b"
  using nth_last_two [of macs 12 a b] nth_last_two [of tci 2 a b] by simp_all

lemma locate_untagged:
  assumes "length macs = 12"
  shows "locate_ipv4 (macs @ [a, b] @ rest) =
    (if u16_from_be_bytes [a, b] = ETHERTYPE_IPV4 then Inr (14, rest)
     else if u16_from_be_bytes [a, b] = ETHERTYPE_VLAN then
       (case split_first_chunk 4 rest of
          None \<Rightarrow> Inl DecapTruncated
        | Some (tag, ip) \<Rightarrow> if u16_from_be_bytes [tag ! 2, tag ! 3] \<noteq> ETHERTYPE_IPV4 then Inl NotIpv4 else Inr (18, ip))
     else Inl NotIpv4)"
proof -
  have "split_first_chunk 14 ((macs @ [a, b]) @ rest) = Some (macs @ [a, b], rest)"
    by (rule split_first_chunk_append) (simp add: assms)
  then show ?thesis
    using assms unfolding locate_ipv4_def decap_consts by (simp add: Let_def split: option.split)
qed

lemma locate_encoded:
  assumes "packet_ok p"
  shows "locate_ipv4 (link_header p @ ip) = Inr (length (link_header p), ip)"
proof (cases "pk_vlan p")
  case None
  then show ?thesis
    using assms locate_untagged [of "pk_macs p" 8 0 ip] by (simp add: link_header_def packet_ok_def)
next
  case (Some tci)
  have tci: "length tci = 2" "length (pk_macs p) = 12" using assms Some by (simp_all add: packet_ok_def)
  have "split_first_chunk 4 ((tci @ [8, 0]) @ ip) = Some (tci @ [8, 0], ip)"
    by (rule split_first_chunk_append) (simp add: tci)
  then show ?thesis
    using tci locate_untagged [of "pk_macs p" "0x81" 0 "tci @ [8, 0] @ ip"] by (simp add: link_header_def Some)
qed

lemma ethertype_bytes: "u16_from_be_bytes [a, b] = u16_from_be_bytes [c, d] \<Longrightarrow> a = c \<and> b = d"
proof -
  assume "u16_from_be_bytes [a, b] = u16_from_be_bytes [c, d]"
  from arg_cong [OF this, of u16_to_be_bytes] show ?thesis unfolding u16_bytes_of by simp
qed

lemma locate_decoded:
  assumes "locate_ipv4 frame = Inr (l3, ip)"
  obtains macs vlan where "length macs = 12" "case vlan of None \<Rightarrow> True | Some tci \<Rightarrow> length tci = 2"
    "frame = (macs @ (case vlan of None \<Rightarrow> [] | Some tci \<Rightarrow> [0x81, 0] @ tci) @ [0x08, 0]) @ ip"
    "l3 = 14 + (case vlan of None \<Rightarrow> 0 | Some tci \<Rightarrow> 4)"
proof -
  obtain eth rest where e: "frame = eth @ rest" "length eth = 12 + 2"
    using assms by (auto simp: locate_ipv4_def decap_consts chunk_simps split: option.split_asm)
  obtain macs a b where ab: "eth = macs @ [a, b]" "length macs = 12" using last_two [OF e(2)] .
  have "locate_ipv4 (macs @ [a, b] @ rest) = Inr (l3, ip)" using assms e(1) ab(1) by simp
  note loc = this [unfolded locate_untagged [OF ab(2)]]
  show thesis
  proof (cases "u16_from_be_bytes [a, b] = ETHERTYPE_IPV4")
    case True
    then have "a = 8" "b = 0" using ethertype_bytes [of a b 8 0] by simp_all
    with True loc that [of macs None] ab e(1) show thesis by simp
  next
    case False
    then have v: "u16_from_be_bytes [a, b] = ETHERTYPE_VLAN" using loc by (simp split: if_split_asm)
    then have ab': "a = 0x81" "b = 0" using ethertype_bytes [of a b "0x81" 0] by simp_all
    obtain tag where t: "split_first_chunk 4 rest = Some (tag, ip)" "u16_from_be_bytes [tag ! 2, tag ! 3] = ETHERTYPE_IPV4" "l3 = 18"
      using loc False v by (auto split: option.split_asm if_split_asm)
    then have r: "rest = tag @ ip" "length tag = 2 + 2" by (auto simp: chunk_simps)
    obtain tci c d where tag: "tag = tci @ [c, d]" "length tci = 2" using last_two [OF r(2)] .
    then have "c = 8" "d = 0" using t(2) ethertype_bytes [of c d 8 0] by simp_all
    with tag r ab ab' e(1) t(3) that [of macs "Some tci"] show thesis by simp
  qed
qed

text \<open>The IPv4 stage on a packet cut at its header boundaries.\<close>

definition wants :: "ipv4 option \<Rightarrow> ipv4 \<Rightarrow> bool" where
  "wants dst_ip dst \<longleftrightarrow> (case dst_ip of None \<Rightarrow> True | Some want \<Rightarrow> want = dst)"

lemma get_range_skip:
  "length xs = k \<Longrightarrow> get_range k n (xs @ ys) = (if n < k then None else get_range 0 (n - k) ys)"
  by (auto simp: get_range_def)

lemma parse_cut:
  fixes h0 h1 h2 h3 h4 h5 h6 h7 h8 h9 h10 h11 h12 h13 h14 h15 h16 h17 h18 h19 :: u8
  assumes "length opts = unat (h0 AND 0x0f) * 4 - 20" "20 \<le> unat (h0 AND 0x0f) * 4"
  shows "parse_ipv4_udp l3 ([h0, h1, h2, h3, h4, h5, h6, h7, h8, h9, h10, h11, h12, h13, h14, h15, h16, h17, h18, h19] @ opts @ body) port dip =
    (if drop_bit 4 h0 \<noteq> 4 then Inl NotIpv4
     else if u16_from_be_bytes [h6, h7] AND FRAGMENT_BITS \<noteq> 0 then Inl Fragment
     else if h9 \<noteq> IPPROTO_UDP then Inl WrongDst
     else case get_range 0 (unat (u16_from_be_bytes [h2, h3]) - (20 + length opts)) body of
       None \<Rightarrow> Inl DecapTruncated
     | Some segment \<Rightarrow>
         if unat (u16_from_be_bytes [h2, h3]) < 20 + length opts then Inl DecapTruncated
         else (case split_first_chunk 8 segment of
           None \<Rightarrow> Inl DecapTruncated
         | Some (udp, _) \<Rightarrow>
             if u16_from_be_bytes [udp ! 2, udp ! 3] \<noteq> port \<or> \<not> wants dip (h16, h17, h18, h19) then Inl WrongDst
             else let udp_len = unat (u16_from_be_bytes [udp ! 4, udp ! 5]) in
             if udp_len < 8 \<or> length segment < udp_len then Inl DecapTruncated
             else Inr ((of_nat (l3 + (20 + length opts) + 8), of_nat (l3 + (20 + length opts) + udp_len)),
                       AddrV4 h12 h13 h14 h15 (u16_from_be_bytes [udp ! 0, udp ! 1]))))"
proof -
  let ?n = "unat (u16_from_be_bytes [h2, h3])"
  have chunk: "split_first_chunk 20 ([h0, h1, h2, h3, h4, h5, h6, h7, h8, h9, h10, h11, h12, h13, h14, h15, h16, h17, h18, h19] @ opts @ body) = Some ([h0, h1, h2, h3, h4, h5, h6, h7, h8, h9, h10, h11, h12, h13, h14, h15, h16, h17, h18, h19], opts @ body)"
    by (rule split_first_chunk_append) simp
  have ihl: "unat (h0 AND 0x0f) * 4 = 20 + length opts" using assms by simp
  have seg: "get_range (20 + length opts) ?n ([h0, h1, h2, h3, h4, h5, h6, h7, h8, h9, h10, h11, h12, h13, h14, h15, h16, h17, h18, h19] @ opts @ body) =
      (if ?n < 20 + length opts then None else get_range 0 (?n - (20 + length opts)) body)"
    using get_range_skip [of "[h0, h1, h2, h3, h4, h5, h6, h7, h8, h9, h10, h11, h12, h13, h14, h15, h16, h17, h18, h19] @ opts" "20 + length opts" ?n body]
    by simp
  have none: "(case get_range 0 (?n - (20 + length opts)) body of None \<Rightarrow> Inl DecapTruncated
      | Some segment \<Rightarrow> if ?n < 20 + length opts then Inl DecapTruncated else f segment) =
      (case (if ?n < 20 + length opts then None else get_range 0 (?n - (20 + length opts)) body) of None \<Rightarrow> Inl DecapTruncated
      | Some segment \<Rightarrow> f segment)" for f :: "bytes \<Rightarrow> decap_drop + (u32 \<times> u32) \<times> socket_addr"
    by (auto split: option.split)
  show ?thesis
    unfolding parse_ipv4_udp_def decap_consts chunk option.case prod.case none
    by (simp add: ihl seg [simplified] wants_def Let_def cong: if_cong split: option.split)
qed

definition encode_packet :: "udp_packet \<Rightarrow> bytes" where
  "encode_packet p = link_header p @ ip_packet p"

definition payload_range :: "udp_packet \<Rightarrow> u32 \<times> u32" where
  "payload_range p = (of_nat (payload_start p), of_nat (payload_start p + length (pk_payload p)))"

lemma two_bytes:
  assumes "length xs = 2"
  obtains a b where "xs = [a, b]"
  using assms by (cases xs; cases "tl xs") auto

lemma parse_encoded:
  assumes ok: "packet_ok p" and dst: "wants dip (pk_dst p)"
  shows "parse_udp (encode_packet p) (pk_dport p) dip = Inr (payload_range p, sender p)"
proof -
  have lens: "4 dvd length (pk_opts p)" "length (pk_opts p) \<le> 40" "pk_fl p AND FRAGMENT_BITS = 0"
    "28 + length (pk_opts p) + length (pk_payload p) \<le> unat (pk_total p)"
    "unat (pk_total p) \<le> 28 + length (pk_opts p) + length (pk_payload p) + length (pk_trailer p)"
    using ok by (auto simp: packet_ok_def)
  obtain t0 t1 where t: "u16_to_be_bytes (pk_total p) = [t0, t1]" "u16_from_be_bytes [t0, t1] = pk_total p" by (rule u16_bytes)
  obtain f0 f1 where f: "u16_to_be_bytes (pk_fl p) = [f0, f1]" "u16_from_be_bytes [f0, f1] = pk_fl p" by (rule u16_bytes)
  obtain s0 s1 where sp: "u16_to_be_bytes (pk_sport p) = [s0, s1]" "u16_from_be_bytes [s0, s1] = pk_sport p" by (rule u16_bytes)
  obtain d0 d1 where dp: "u16_to_be_bytes (pk_dport p) = [d0, d1]" "u16_from_be_bytes [d0, d1] = pk_dport p" by (rule u16_bytes)
  define ulen :: u16 where "ulen = of_nat (8 + length (pk_payload p))"
  obtain l0 l1 where l: "u16_to_be_bytes ulen = [l0, l1]" "u16_from_be_bytes [l0, l1] = ulen" by (rule u16_bytes)
  obtain i0 i1 where i: "pk_ident p = [i0, i1]" using ok two_bytes unfolding packet_ok_def by metis
  obtain c0 c1 where c: "pk_hck p = [c0, c1]" using ok two_bytes unfolding packet_ok_def by metis
  obtain k0 k1 where k: "pk_uck p = [k0, k1]" using ok two_bytes unfolding packet_ok_def by metis
  obtain a0 a1 a2 a3 where a: "pk_src p = (a0, a1, a2, a3)" by (metis prod_cases4)
  obtain b0 b1 b2 b3 where b: "pk_dst p = (b0, b1, b2, b3)" by (metis prod_cases4)
  have "unat (pk_total p) < 65536" using unat_less_pow [of "pk_total p"] by simp
  then have "8 + length (pk_payload p) < 65536" using lens(4) by linarith
  then have len: "unat ulen = 8 + length (pk_payload p)" unfolding ulen_def by (simp add: unat_of_nat del: of_nat_add)
  let ?h0 = "of_nat (69 + length (pk_opts p) div 4) :: u8"
  have "length (pk_opts p) div 4 \<le> 10" using lens(2) by simp
  note h0 = version_byte [OF this]
  have opts: "length (pk_opts p) = unat (?h0 AND 0x0f) * 4 - 20" "20 \<le> unat (?h0 AND 0x0f) * 4"
    using lens(1) unfolding h0(2) by auto
  let ?udp = "[s0, s1, d0, d1, l0, l1, k0, k1]"
  have seg: "get_range 0 (unat (pk_total p) - (20 + length (pk_opts p))) (?udp @ pk_payload p @ pk_trailer p) =
      Some (?udp @ take (unat (pk_total p) - (28 + length (pk_opts p))) (pk_payload p @ pk_trailer p))"
    using lens(4,5) by (auto simp: get_range_def take_Cons' numeral_eq_Suc)
  have chunk: "split_first_chunk 8 (?udp @ xs) = Some (?udp, xs)" for xs by (rule split_first_chunk_append) simp
  have ip: "ip_packet p = [?h0, pk_tos p, t0, t1, i0, i1, f0, f1, pk_ttl p, 17, c0, c1, a0, a1, a2, a3, b0, b1, b2, b3] @ pk_opts p
      @ ?udp @ pk_payload p @ pk_trailer p"
    by (simp add: ip_packet_def t f sp dp l i c k a b quad_def flip: ulen_def del: of_nat_add)
  have "parse_ipv4_udp (length (link_header p)) (ip_packet p) (pk_dport p) dip = Inr (payload_range p, sender p)"
    unfolding ip parse_cut [OF opts] t(2) f(2) seg option.case chunk prod.case
    using lens(4) dst
    by (simp add: h0(1) lens(3) IPPROTO_UDP_def dp(2) sp(2) l(2) len b payload_range_def payload_start_def sender_def a Let_def
        add.assoc add.commute add.left_commute del: of_nat_add)
  then show ?thesis
    by (simp add: parse_udp_def encode_packet_def locate_encoded [OF ok])
qed

lemma first_20:
  assumes "20 \<le> length ip"
  obtains h0 h1 h2 h3 h4 h5 h6 h7 h8 h9 h10 h11 h12 h13 h14 h15 h16 h17 h18 h19 r
  where "ip = [h0, h1, h2, h3, h4, h5, h6, h7, h8, h9, h10, h11, h12, h13, h14, h15, h16, h17, h18, h19] @ r"
  using assms that by (auto simp: numeral_eq_Suc Suc_le_length_iff)

lemma first_8:
  assumes "8 \<le> length xs"
  obtains u0 u1 u2 u3 u4 u5 u6 u7 r where "xs = [u0, u1, u2, u3, u4, u5, u6, u7] @ r"
  using assms that by (auto simp: numeral_eq_Suc Suc_le_length_iff)

text \<open>What an accepted IPv4 packet looks like.\<close>

lemma parse_ipv4_udp_parts:
  assumes ip: "parse_ipv4_udp l3 ip port dip = Inr (r, peer)"
  obtains h0 h1 h2 h3 h4 h5 h6 h7 h8 h10 h11 h12 h13 h14 h15 h16 h17 h18 h19 opts body
  where "ip = [h0, h1, h2, h3, h4, h5, h6, h7, h8, 17, h10, h11, h12, h13, h14, h15, h16, h17, h18, h19] @ opts @ body"
    "length opts = unat (h0 AND 0x0f) * 4 - 20" "20 \<le> unat (h0 AND 0x0f) * 4" "drop_bit 4 h0 = 4"
    "u16_from_be_bytes [h6, h7] AND FRAGMENT_BITS = 0"
proof -
  have "20 \<le> length ip"
    using ip by (auto simp: parse_ipv4_udp_def decap_consts split_first_chunk_def split: if_split_asm)
  then obtain h0 h1 h2 h3 h4 h5 h6 h7 h8 h9 h10 h11 h12 h13 h14 h15 h16 h17 h18 h19 rest
    where cut: "ip = [h0, h1, h2, h3, h4, h5, h6, h7, h8, h9, h10, h11, h12, h13, h14, h15, h16, h17, h18, h19] @ rest"
    by (rule first_20)
  let ?hdr = "[h0, h1, h2, h3, h4, h5, h6, h7, h8, h9, h10, h11, h12, h13, h14, h15, h16, h17, h18, h19]"
  have chunk: "split_first_chunk 20 (?hdr @ rest) = Some (?hdr, rest)" by (rule split_first_chunk_append) simp
  have *: "drop_bit 4 h0 = 4" "20 \<le> unat (h0 AND 0x0f) * 4" "unat (h0 AND 0x0f) * 4 \<le> 20 + length rest"
      "u16_from_be_bytes [h6, h7] AND FRAGMENT_BITS = 0" "h9 = 17"
    using ip unfolding cut parse_ipv4_udp_def decap_consts chunk option.case prod.case
    by (auto simp: IPPROTO_UDP_def Let_def not_less split: if_split_asm)
  let ?opts = "take (unat (h0 AND 0x0f) * 4 - 20) rest" and ?body = "drop (unat (h0 AND 0x0f) * 4 - 20) rest"
  show thesis
    using cut * by (intro that [of h0 h1 h2 h3 h4 h5 h6 h7 h8 h10 h11 h12 h13 h14 h15 h16 h17 h18 h19 ?opts ?body]) simp_all
qed

lemma udp_stage_parts:
  assumes "(case get_range 0 n body of
       None \<Rightarrow> Inl DecapTruncated
     | Some segment \<Rightarrow>
         if small then Inl DecapTruncated
         else (case split_first_chunk 8 segment of
           None \<Rightarrow> Inl DecapTruncated
         | Some (udp, _) \<Rightarrow>
             if u16_from_be_bytes [udp ! 2, udp ! 3] \<noteq> port \<or> other then Inl WrongDst
             else let udp_len = unat (u16_from_be_bytes [udp ! 4, udp ! 5]) in
             if udp_len < 8 \<or> length segment < udp_len then Inl DecapTruncated
             else Inr (rg udp_len, addr (u16_from_be_bytes [udp ! 0, udp ! 1])))) = Inr (r, peer)"
  obtains u0 u1 u2 u3 u4 u5 u6 u7 payload trailer
  where "body = [u0, u1, u2, u3, u4, u5, u6, u7] @ payload @ trailer" "\<not> small" "\<not> other"
    "u16_from_be_bytes [u2, u3] = port" "unat (u16_from_be_bytes [u4, u5]) = 8 + length payload"
    "8 + length payload \<le> n" "n \<le> 8 + length payload + length trailer"
    "r = rg (8 + length payload)" "peer = addr (u16_from_be_bytes [u0, u1])"
proof -
  obtain segment udp rest where
    h: "get_range 0 n body = Some segment" "\<not> small" "split_first_chunk 8 segment = Some (udp, rest)" "\<not> other"
      "u16_from_be_bytes [udp ! 2, udp ! 3] = port"
      "8 \<le> unat (u16_from_be_bytes [udp ! 4, udp ! 5])" "unat (u16_from_be_bytes [udp ! 4, udp ! 5]) \<le> length segment"
      "r = rg (unat (u16_from_be_bytes [udp ! 4, udp ! 5]))" "peer = addr (u16_from_be_bytes [udp ! 0, udp ! 1])"
    using assms by (auto simp: Let_def not_less split: if_split_asm option.split_asm)
  have seg: "segment = take n body" "n \<le> length body" "segment = udp @ rest" "length udp = 8"
    using h(1,3) by (auto simp: chunk_simps)
  have "8 \<le> length udp" using seg(4) by simp
  then obtain u0 u1 u2 u3 u4 u5 u6 u7 extra where extra: "udp = [u0, u1, u2, u3, u4, u5, u6, u7] @ extra" by (rule first_8)
  then have udp: "udp = [u0, u1, u2, u3, u4, u5, u6, u7]" using seg(4) by simp
  have body: "body = udp @ rest @ drop n body" using seg by (metis append.assoc append_take_drop_id)
  let ?k = "unat (u16_from_be_bytes [u4, u5]) - 8"
  have n: "n = 8 + length rest" "length segment = 8 + length rest"
    using arg_cong [OF seg(1), of length] arg_cong [OF seg(3), of length] seg(2,4) by simp_all
  have k: "8 \<le> unat (u16_from_be_bytes [u4, u5])" "?k \<le> length rest"
    using h(6,7) n(2) by (simp_all add: udp)
  have "body = udp @ take ?k rest @ (drop ?k rest @ drop n body)" using body by (metis append.assoc append_take_drop_id)
  then show thesis
    using h k n by (intro that [of u0 u1 u2 u3 u4 u5 u6 u7 "take ?k rest" "drop ?k rest @ drop n body"]) (simp_all add: udp)
qed

lemma parse_decoded:
  assumes "parse_udp frame port dip = Inr (r, peer)"
  shows "\<exists>p. packet_ok p \<and> frame = encode_packet p \<and> port = pk_dport p \<and> wants dip (pk_dst p)
    \<and> r = payload_range p \<and> peer = sender p"
proof -
  obtain l3 ip where loc: "locate_ipv4 frame = Inr (l3, ip)" and ip: "parse_ipv4_udp l3 ip port dip = Inr (r, peer)"
    using assms by (auto simp: parse_udp_def split: sum.split_asm)
  obtain macs vlan where link: "length macs = 12" "case vlan of None \<Rightarrow> True | Some tci \<Rightarrow> length tci = 2"
    "frame = (macs @ (case vlan of None \<Rightarrow> [] | Some tci \<Rightarrow> [0x81, 0] @ tci) @ [0x08, 0]) @ ip"
    "l3 = 14 + (case vlan of None \<Rightarrow> 0 | Some tci \<Rightarrow> 4)"
    by (rule locate_decoded [OF loc])
  obtain h0 h1 h2 h3 h4 h5 h6 h7 h8 h10 h11 h12 h13 h14 h15 h16 h17 h18 h19 opts body
    where cut: "ip = [h0, h1, h2, h3, h4, h5, h6, h7, h8, 17, h10, h11, h12, h13, h14, h15, h16, h17, h18, h19] @ opts @ body"
      "length opts = unat (h0 AND 0x0f) * 4 - 20" "20 \<le> unat (h0 AND 0x0f) * 4" "drop_bit 4 h0 = 4"
      "u16_from_be_bytes [h6, h7] AND FRAGMENT_BITS = 0"
    by (rule parse_ipv4_udp_parts [OF ip])
  let ?n = "unat (u16_from_be_bytes [h2, h3])"
  note stage = ip [unfolded cut(1) parse_cut [OF cut(2,3)], simplified cut(4,5) IPPROTO_UDP_def simp_thms if_False if_True]
  obtain u0 u1 u2 u3 u4 u5 u6 u7 payload trailer
    where u: "body = [u0, u1, u2, u3, u4, u5, u6, u7] @ payload @ trailer" "\<not> ?n < 20 + length opts"
    "\<not> \<not> wants dip (h16, h17, h18, h19)" "u16_from_be_bytes [u2, u3] = port" "unat (u16_from_be_bytes [u4, u5]) = 8 + length payload"
    "8 + length payload \<le> ?n - (20 + length opts)" "?n - (20 + length opts) \<le> 8 + length payload + length trailer"
    "r = (of_nat (l3 + (20 + length opts) + 8), of_nat (l3 + (20 + length opts) + (8 + length payload)))"
    "peer = AddrV4 h12 h13 h14 h15 (u16_from_be_bytes [u0, u1])"
    by (rule udp_stage_parts [where rg = "\<lambda>k. (of_nat (l3 + (20 + length opts) + 8), of_nat (l3 + (20 + length opts) + k))"
          and addr = "AddrV4 h12 h13 h14 h15" and small = "?n < 20 + length opts", OF stage])
  have h0: "h0 = of_nat (69 + length opts div 4)" "length opts \<le> 40" "4 dvd length opts"
  proof -
    have d: "length opts = (unat (h0 AND 0x0f) - 5) * 4" using cut(2) by (simp add: diff_mult_distrib)
    then have "length opts div 4 = unat (h0 AND 0x0f) - 5" by simp
    with version_byte_of(1) [OF cut(4,3)] show "h0 = of_nat (69 + length opts div 4)" by (simp only:)
    show "length opts \<le> 40" "4 dvd length opts" using d version_byte_of(2) [OF cut(4,3)] by simp_all
  qed
  have ulen: "of_nat (8 + length payload) = u16_from_be_bytes [u4, u5]" unfolding u(5) [symmetric] by simp
  let ?p = "\<lparr>pk_macs = macs, pk_vlan = vlan, pk_tos = h1, pk_total = u16_from_be_bytes [h2, h3], pk_ident = [h4, h5],
    pk_fl = u16_from_be_bytes [h6, h7], pk_ttl = h8, pk_hck = [h10, h11], pk_src = (h12, h13, h14, h15),
    pk_dst = (h16, h17, h18, h19), pk_opts = opts, pk_sport = u16_from_be_bytes [u0, u1], pk_dport = port,
    pk_uck = [u6, u7], pk_payload = payload, pk_trailer = trailer\<rparr>"
  have "28 + length opts + length payload \<le> ?n" "?n \<le> 28 + length opts + length payload + length trailer"
    using u(2,6,7) by linarith+
  then have ok: "packet_ok ?p" using link(1,2) cut(5) h0(2,3) by (simp add: packet_ok_def)
  have hdr: "length (link_header ?p) = l3" using link(1,2,4) by (cases vlan) (simp_all add: link_header_def)
  have "ip_packet ?p = ip"
    unfolding cut(1) ip_packet_def u(1) by (simp add: u16_bytes_of ulen u(4) [symmetric] quad_def h0(1) [symmetric] del: of_nat_add)
  then have "frame = encode_packet ?p" using link(3) by (simp add: encode_packet_def link_header_def)
  moreover have "r = payload_range ?p" unfolding u(8) payload_range_def payload_start_def hdr by (simp add: add.assoc add.commute)
  moreover have "peer = sender ?p" using u(9) by (simp add: sender_def)
  ultimately show ?thesis using ok u(3) by (intro exI [of _ ?p]) simp_all
qed

text \<open>
  C29. \<^verbatim>\<open>parse_udp\<close> accepts exactly the UDP datagrams to the wanted port and address, and finds exactly their payload.
  A frame is accepted when and only when it is an Ethernet frame with at most one 802.1Q tag around an unfragmented IPv4
  packet, options included, whose UDP destination is the wanted one and whose two length fields agree with each other
  and with the frame. The range is then the range of the UDP payload, trailing padding left out, and the peer is
  the IPv4 source address and the UDP source port.
\<close>

theorem parse_udp_exact:
  "parse_udp frame dst_port dst_ip = Inr (r, peer) \<longleftrightarrow>
     (\<exists>p. packet_ok p \<and> frame = encode_packet p \<and> dst_port = pk_dport p \<and> wants dst_ip (pk_dst p)
        \<and> r = payload_range p \<and> peer = sender p)"
  using parse_decoded parse_encoded by blast

lemma payload_in_range:
  assumes "packet_ok p"
  shows "get_range (unat (fst (payload_range p))) (unat (snd (payload_range p))) (encode_packet p) = Some (pk_payload p)"
proof -
  let ?s = "payload_start p" and ?e = "payload_start p + length (pk_payload p)"
  have lens: "length (pk_opts p) \<le> 40" "28 + length (pk_opts p) + length (pk_payload p) \<le> unat (pk_total p)"
    "length (link_header p) \<le> 18"
    using assms by (auto simp: packet_ok_def link_header_def split: option.split)
  have "unat (pk_total p) < 65536" using unat_less_pow [of "pk_total p"] by simp
  then have "?e < 4294967296" using lens unfolding payload_start_def by linarith
  then have "unat (of_nat ?s :: u32) = ?s" "unat (of_nat ?e :: u32) = ?e" by (simp_all add: unat_of_nat del: of_nat_add)
  moreover obtain front where "encode_packet p = front @ pk_payload p @ pk_trailer p" "length front = ?s"
  proof
    let ?f = "link_header p @ [of_nat (69 + length (pk_opts p) div 4), pk_tos p] @ u16_to_be_bytes (pk_total p) @ pk_ident p
      @ u16_to_be_bytes (pk_fl p) @ [pk_ttl p, 17] @ pk_hck p @ quad (pk_src p) @ quad (pk_dst p) @ pk_opts p
      @ u16_to_be_bytes (pk_sport p) @ u16_to_be_bytes (pk_dport p) @ u16_to_be_bytes (of_nat (8 + length (pk_payload p))) @ pk_uck p"
    show "encode_packet p = ?f @ pk_payload p @ pk_trailer p" by (simp add: encode_packet_def ip_packet_def)
    show "length ?f = ?s"
      using assms
      by (simp add: payload_start_def packet_ok_def quad_def length_to_be_bytes case_prod_unfold del: of_nat_add)
  qed
  ultimately show ?thesis by (simp add: payload_range_def get_range_def)
qed

section \<open>What the wrapper delivers\<close>

text \<open>The datagrams inside a list of frames.\<close>

definition datagram_of :: "('f \<Rightarrow> bytes) \<Rightarrow> u16 \<Rightarrow> ipv4 option \<Rightarrow> 'f \<Rightarrow> 'f decap_frame option" where
  "datagram_of as_ref port ip f =
     (case parse_udp (as_ref f) port ip of
        Inl reason \<Rightarrow> None
      | Inr (payload, peer) \<Rightarrow> Some \<lparr>df_frame = f, df_payload = payload, df_peer = peer\<rparr>)"

definition datagrams :: "('f \<Rightarrow> bytes) \<Rightarrow> u16 \<Rightarrow> ipv4 option \<Rightarrow> 'f list \<Rightarrow> 'f decap_frame list" where
  "datagrams as_ref port ip fs = List.map_filter (datagram_of as_ref port ip) fs"

lemma datagrams_append: "datagrams as_ref port ip (fs @ gs) = datagrams as_ref port ip fs @ datagrams as_ref port ip gs"
  by (simp add: datagrams_def List.map_filter_def)

lemma datagrams_simps [simp]:
  "datagrams as_ref port ip [] = []"
  "datagrams as_ref port ip (f # fs) =
     (case datagram_of as_ref port ip f of None \<Rightarrow> datagrams as_ref port ip fs | Some d \<Rightarrow> d # datagrams as_ref port ip fs)"
  by (simp_all add: datagrams_def List.map_filter_simps split: option.split)

lemma total_count_drop: "decap_total (count_drop reason s) = decap_total s + 1"
  by (cases reason) (simp_all add: decap_total_def count_drop_def)

lemma deliver_loop_spec:
  "deliver_loop as_ref port ip pending s pushed out = (n, pending', s', out') \<Longrightarrow>
   \<exists>taken. pending = taken @ pending' \<and> extends_batch out (datagrams as_ref port ip taken) out'
     \<and> n = pushed + length (datagrams as_ref port ip taken) \<and> (pending' = [] \<or> spare out' = 0)
     \<and> decap_total s' = decap_total s + of_nat (length taken - length (datagrams as_ref port ip taken))
     \<and> length (datagrams as_ref port ip taken) \<le> length taken"
proof (induction as_ref port ip pending s pushed out rule: deliver_loop.induct)
  case (1 as_ref port ip s pushed out)
  then show ?case by simp
next
  case (2 as_ref port ip frame pending s pushed out)
  show ?case
  proof (cases "spare out = 0")
    case True
    with 2(3) show ?thesis by (intro exI [of _ "[]"]) simp
  next
    case room: False
    show ?thesis
    proof (cases "parse_udp (as_ref frame) port ip")
      case (Inl reason)
      with room 2(3) have "deliver_loop as_ref port ip pending (count_drop reason s) pushed out = (n, pending', s', out')" by simp
      from 2(1) [OF room Inl this] obtain taken where
        t: "pending = taken @ pending'" "extends_batch out (datagrams as_ref port ip taken) out'"
          "n = pushed + length (datagrams as_ref port ip taken)" "pending' = [] \<or> spare out' = 0"
          "decap_total s' = decap_total (count_drop reason s) + of_nat (length taken - length (datagrams as_ref port ip taken))"
          "length (datagrams as_ref port ip taken) \<le> length taken" by blast
      have d: "datagrams as_ref port ip (frame # taken) = datagrams as_ref port ip taken" using Inl by (simp add: datagram_of_def)
      have "decap_total s' = decap_total s + of_nat (Suc (length taken) - length (datagrams as_ref port ip taken))"
        using t(5,6) by (simp add: total_count_drop Suc_diff_le)
      with t show ?thesis by (intro exI [of _ "frame # taken"]) (simp only: d, simp)
    next
      case (Inr r)
      obtain payload peer where r: "r = (payload, peer)" by fastforce
      let ?d = "\<lparr>df_frame = frame, df_payload = payload, df_peer = peer\<rparr>"
      have "deliver_loop as_ref port ip pending s (pushed + 1) (batch_push ?d out) = (n, pending', s', out')"
        using room 2(3) Inr r by simp
      from 2(2) [OF room Inr r [symmetric] this] obtain taken where
        t: "pending = taken @ pending'" "extends_batch (batch_push ?d out) (datagrams as_ref port ip taken) out'"
          "n = pushed + 1 + length (datagrams as_ref port ip taken)" "pending' = [] \<or> spare out' = 0"
          "decap_total s' = decap_total s + of_nat (length taken - length (datagrams as_ref port ip taken))"
          "length (datagrams as_ref port ip taken) \<le> length taken" by blast
      have d: "datagrams as_ref port ip (frame # taken) = ?d # datagrams as_ref port ip taken" using Inr r by (simp add: datagram_of_def)
      have "extends_batch out ([?d] @ datagrams as_ref port ip taken) out'"
        using room by (intro extends_batch_trans [OF _ t(2)]) (simp add: extends_batch_def batch_push_def)
      with t show ?thesis by (intro exI [of _ "frame # taken"]) (simp only: d, simp)
    qed
  qed
qed

lemma deliver_spec:
  assumes "deliver as_ref u out = (n, u', out')"
  obtains taken where "ud_pending u = taken @ ud_pending u'"
    "extends_batch out (datagrams as_ref (ud_port u) (ud_ip u) taken) out'"
    "n = length (datagrams as_ref (ud_port u) (ud_ip u) taken)" "ud_pending u' = [] \<or> spare out' = 0"
    "decap_total (ud_stats u') = decap_total (ud_stats u) + of_nat (length taken - n)" "n \<le> length taken"
    "u' = u\<lparr>ud_pending := ud_pending u', ud_stats := ud_stats u'\<rparr>"
proof -
  obtain pending s where l: "deliver_loop as_ref (ud_port u) (ud_ip u) (ud_pending u) (ud_stats u) 0 out = (n, pending, s, out')"
    and u': "u' = u\<lparr>ud_pending := pending, ud_stats := s\<rparr>"
    using assms by (auto simp: deliver_def split: prod.split_asm)
  show thesis using deliver_loop_spec [OF l] u' by (auto intro: that)
qed

text \<open>What one call takes from a wrapper, what it puts into \<open>out\<close>, and what it leaves for later.\<close>

definition coming :: "('f \<Rightarrow> bytes) \<Rightarrow> ('t \<Rightarrow> 'f list) \<Rightarrow> ('t, 'f) udp_decap \<Rightarrow> 'f decap_frame list" where
  "coming as_ref rest_of u = datagrams as_ref (ud_port u) (ud_ip u) (ud_pending u @ rest_of (ud_inner u))"

definition decap_ok :: "('t \<Rightarrow> bool) \<Rightarrow> ('t, 'f) udp_decap \<Rightarrow> bool" where
  "decap_ok src_inv u \<longleftrightarrow> src_inv (ud_inner u) \<and> fb_frames (ud_collected u) = [] \<and> 0 < fb_cap (ud_collected u)"

definition decap_step ::
  "('f \<Rightarrow> bytes) \<Rightarrow> ('t \<Rightarrow> bool) \<Rightarrow> ('t \<Rightarrow> 'f list) \<Rightarrow> ('t, 'f) udp_decap \<Rightarrow> 'f decap_frame frame_batch
     \<Rightarrow> (transport_error + nat) \<times> ('t, 'f) udp_decap \<times> 'f decap_frame frame_batch \<Rightarrow> bool" where
  "decap_step as_ref src_inv rest_of u out r \<longleftrightarrow>
     (case r of (res, u', out') \<Rightarrow>
        decap_ok src_inv u'
        \<and> (\<exists>ds. extends_batch out ds out' \<and> coming as_ref rest_of u = ds @ coming as_ref rest_of u'
             \<and> (case res of Inr n \<Rightarrow> n = length ds | Inl e \<Rightarrow> ds = [])))"

context frame_stream
begin

lemma fill_delivers:
  assumes "decap_ok src_inv u" "0 < spare out"
  shows "\<exists>r. fill recv_burst as_ref u out = Some r \<and> decap_step as_ref src_inv rest_of u out r"
  using assms
proof (induction "length (rest_of (ud_inner u))" arbitrary: u rule: less_induct)
  case less
  obtain n u1 out1 where d: "deliver as_ref u out = (n, u1, out1)" by (metis prod_cases3)
  obtain taken where t: "ud_pending u = taken @ ud_pending u1"
    "extends_batch out (datagrams as_ref (ud_port u) (ud_ip u) taken) out1"
    "n = length (datagrams as_ref (ud_port u) (ud_ip u) taken)" "ud_pending u1 = [] \<or> spare out1 = 0"
    and u1: "ud_inner u1 = ud_inner u" "ud_port u1 = ud_port u" "ud_ip u1 = ud_ip u" "ud_collected u1 = ud_collected u"
    using deliver_spec [OF d] by (metis udp_decap.select_convs udp_decap.surjective udp_decap.update_convs(5,6))
  have ok1: "decap_ok src_inv u1" using less.prems(1) by (simp add: decap_ok_def u1)
  have c1: "coming as_ref rest_of u = datagrams as_ref (ud_port u) (ud_ip u) taken @ coming as_ref rest_of u1"
    unfolding coming_def t(1) u1 append.assoc by (rule datagrams_append)
  show ?case
  proof (cases "0 < n \<or> spare out1 = 0")
    case True
    then have "fill recv_burst as_ref u out = Some (Inr n, u1, out1)" by (subst fill.simps) (simp add: d)
    with ok1 c1 t show ?thesis by (auto simp: decap_step_def)
  next
    case False
    then have none: "datagrams as_ref (ud_port u) (ud_ip u) taken = []" and out1: "out1 = out" and p1: "ud_pending u1 = []"
      using t by (auto simp: extends_batch_def)
    obtain res t' c where r: "recv_burst (ud_inner u1) (ud_collected u1) = (res, t', c)" by (metis prod_cases3)
    have room: "src_inv (ud_inner u1)" "0 < spare (ud_collected u1)" using ok1 by (auto simp: decap_ok_def spare_def)
    obtain fs where fs: "extends_batch (ud_collected u1) fs c" "rest_of (ud_inner u1) = fs @ rest_of t'"
        "\<forall>n. res = Inr n \<longrightarrow> n = length fs" "\<forall>e. res = Inl e \<longrightarrow> fs = []"
      using recv_takes [OF room r] by blast
    have inv: "src_inv t'" by (rule recv_inv [OF room r])
    have c: "fb_frames c = fs" "fb_cap c = fb_cap (ud_collected u1)"
      using extends_batch_frames [OF fs(1)] ok1 by (auto simp: decap_ok_def)
    show ?thesis
    proof (cases "fs = []")
      case True
      let ?u = "u1\<lparr>ud_inner := t', ud_collected := c\<rparr>"
      have "decap_ok src_inv ?u" using ok1 inv c True by (simp add: decap_ok_def)
      moreover have "coming as_ref rest_of ?u = coming as_ref rest_of u1" using fs(2) True by (simp add: coming_def)
      moreover have "fill recv_burst as_ref u out = Some (case res of Inl e \<Rightarrow> Inl e | Inr n \<Rightarrow> Inr 0, ?u, out)"
        using fs(3) True False by (subst fill.simps) (cases res; simp add: d out1 r)
      ultimately show ?thesis using c1 none by (cases res) (auto simp: decap_step_def)
    next
      case ne: False
      let ?u = "u1\<lparr>ud_inner := t', ud_collected := c\<lparr>fb_frames := []\<rparr>, ud_pending := fs\<rparr>"
      obtain m where res: "res = Inr m" "m \<noteq> 0" using fs(3,4) ne by (cases res) auto
      have f: "fill recv_burst as_ref u out = fill recv_burst as_ref ?u out"
        using False res by (subst fill.simps) (simp add: d out1 r p1 batch_drain_def c)
      have "decap_ok src_inv ?u" using ok1 inv c by (simp add: decap_ok_def)
      moreover have "length (rest_of (ud_inner ?u)) < length (rest_of (ud_inner u))" using fs(2) ne u1(1) by simp
      moreover have "coming as_ref rest_of ?u = coming as_ref rest_of u" using c1 none fs(2) p1 by (simp add: coming_def)
      ultimately show ?thesis using less.hyps [of ?u] less.prems(2) unfolding f by (simp add: decap_step_def)
    qed
  qed
qed

end

text \<open>
  C30. \<^verbatim>\<open>UdpDecap\<close> delivers the datagrams of the wrapped source. Over a source that hands out its frames in order and
  reports errors without frames, \<^verbatim>\<open>recv_burst\<close> with room returns, and what it pushes is the next part of the datagrams
  inside the frames that were waiting or still to come: none is lost, reordered or repeated, and an error comes with no
  datagram. Every datagram it pushes is the payload of a well-formed UDP frame for the wanted port, with its sender.
\<close>

theorem decap_delivers:
  assumes "frame_stream recv src_inv rest_of" "decap_ok src_inv u" "0 < spare out"
  shows "\<exists>res u' out' ds. decap_recv recv as_ref inner_name gate u out = Some (res, u', out')
    \<and> decap_ok src_inv u' \<and> extends_batch out ds out' \<and> coming as_ref rest_of u = ds @ coming as_ref rest_of u'
    \<and> (case res of Inr n \<Rightarrow> n = length ds | Inl e \<Rightarrow> ds = [])
    \<and> (\<forall>d \<in> set ds. \<exists>p. packet_ok p \<and> as_ref (df_frame d) = encode_packet p \<and> pk_dport p = ud_port u
          \<and> decap_bytes as_ref d = pk_payload p \<and> df_peer d = sender p)"
proof -
  obtain r where f: "fill recv as_ref u out = Some r" and st: "decap_step as_ref src_inv rest_of u out r"
    using frame_stream.fill_delivers [OF assms] by blast
  obtain res u1 out' where r: "r = (res, u1, out')" by (metis prod_cases3)
  let ?u = "u1\<lparr>ud_metrics := record_drops gate inner_name DecapFiltered (decap_total (ud_stats u1) - decap_total (ud_stats u)) (ud_metrics u1)\<rparr>"
  have rcv: "decap_recv recv as_ref inner_name gate u out = Some (res, ?u, out')" by (simp add: decap_recv_def f r)
  obtain ds where ds: "decap_ok src_inv u1" "extends_batch out ds out'" "coming as_ref rest_of u = ds @ coming as_ref rest_of u1"
      "case res of Inr n \<Rightarrow> n = length ds | Inl e \<Rightarrow> ds = []"
    using st by (auto simp: decap_step_def r)
  have same: "decap_ok src_inv ?u = decap_ok src_inv u1" "coming as_ref rest_of ?u = coming as_ref rest_of u1"
    by (simp_all add: decap_ok_def coming_def)
  have "\<exists>p. packet_ok p \<and> as_ref (df_frame d) = encode_packet p \<and> pk_dport p = ud_port u
      \<and> decap_bytes as_ref d = pk_payload p \<and> df_peer d = sender p" if "d \<in> set ds" for d
  proof -
    have "d \<in> set (coming as_ref rest_of u)" using that ds(3) by simp
    then obtain f where "datagram_of as_ref (ud_port u) (ud_ip u) f = Some d"
      by (auto simp: coming_def datagrams_def List.map_filter_def)
    then have "parse_udp (as_ref (df_frame d)) (ud_port u) (ud_ip u) = Inr (df_payload d, df_peer d)"
      by (auto simp: datagram_of_def split: sum.split_asm)
    from parse_decoded [OF this] obtain p where p: "packet_ok p" "as_ref (df_frame d) = encode_packet p" "pk_dport p = ud_port u"
        "df_payload d = payload_range p" "df_peer d = sender p" by auto
    then have "decap_bytes as_ref d = pk_payload p" using payload_in_range [OF p(1)] by (simp add: decap_bytes_def)
    with p show ?thesis by blast
  qed
  with rcv ds same show ?thesis by (intro exI [of _ res] exI [of _ ?u] exI [of _ out'] exI [of _ ds]) auto
qed

text \<open>The wrapper over the shell of a fresh mock driver.\<close>

theorem decap_delivers_witness:
  "\<exists>m d res u' out' ds. mock_new demo_pool = Some d
    \<and> decap_recv (bypass_recv mock_ops False) (frame_bytes demo_pool) ''mock'' False
        (udp_decap_new m (bypass_new mock_ops m d) 30001 None 1) (batch_with_capacity 1) = Some (res, u', out')
    \<and> extends_batch (batch_with_capacity 1) ds out'"
proof -
  obtain d where d: "mock_new demo_pool = Some d" by (simp add: mock_new_def demo_pool_def)
  obtain m :: metrics where "True" by simp
  have new: "index_pool_new (\<lambda>_ _. True) 2 8 = Inr demo_pool"
    by (simp add: index_pool_new_def checked_product_def zeroed_def checked_next_multiple_of_def layout_ok_def usize_max_def isize_max_def
        ALIGN_def demo_pool_def)
  have ok: "mock_ok d" by (rule mock_new_ok [OF new d])
  let ?u = "udp_decap_new m (bypass_new mock_ops m d) 30001 None 1 :: (mock_driver bypass, index_frame) udp_decap"
  have "decap_ok (\<lambda>t. mock_ok (bt_driver t)) ?u" using ok by (simp add: decap_ok_def udp_decap_new_def bypass_new_def batch_with_capacity_def)
  moreover have "0 < spare (batch_with_capacity 1 :: index_frame decap_frame frame_batch)" by (simp add: batch_defs)
  ultimately show ?thesis
    using decap_delivers [OF mock.stream_shell.frame_stream_axioms, of ?u "batch_with_capacity 1" False "frame_bytes demo_pool" "''mock''" False] d
    by blast
qed

end
