(* ===== verification/Xdp_Program.thy ===== *)
theory Xdp_Program
  imports Decap
begin

unbundle bit_operations_syntax

text \<open>
  The built-in XDP redirect program of \<^verbatim>\<open>crates/transports/afxdp/src/xdp/program.rs\<close>: the instruction bytes that
  \<^verbatim>\<open>instructions\<close> assembles, and what they do on a frame.

  The eBPF machine is modelled as far as the program uses it. Registers hold typed values, as the kernel's verifier sees
  them: numbers, the context, packet addresses and the map. An instruction the verifier rejects (a load outside the
  frame, an unset register, a backward jump) is \<open>None\<close>, so a result \<open>Some v\<close> also says that every load was in bounds.
  The helper \<^verbatim>\<open>bpf_redirect_map\<close> is a parameter.
\<close>

section \<open>Assembler\<close>

definition LDX_W_MEM :: u8 where "LDX_W_MEM = 0x61"
definition LDX_H_MEM :: u8 where "LDX_H_MEM = 0x69"
definition LDX_B_MEM :: u8 where "LDX_B_MEM = 0x71"
definition LD_DW_IMM :: u8 where "LD_DW_IMM = 0x18"
definition MOV64_K :: u8 where "MOV64_K = 0xb7"
definition MOV64_X :: u8 where "MOV64_X = 0xbf"
definition ADD64_K :: u8 where "ADD64_K = 0x07"
definition JA :: u8 where "JA = 0x05"
definition JEQ_K :: u8 where "JEQ_K = 0x15"
definition JGT_X :: u8 where "JGT_X = 0x2d"
definition JNE_K :: u8 where "JNE_K = 0x55"
definition CALL :: u8 where "CALL = 0x85"
definition EXIT :: u8 where "EXIT = 0x95"
definition PSEUDO_MAP_FD :: u8 where "PSEUDO_MAP_FD = 1"

definition MD_DATA :: u16 where "MD_DATA = 0"
definition MD_DATA_END :: u16 where "MD_DATA_END = 4"
definition MD_RX_QUEUE_INDEX :: u16 where "MD_RX_QUEUE_INDEX = 16"
definition XDP_PASS :: u32 where "XDP_PASS = 2"
definition FN_REDIRECT_MAP :: u32 where "FN_REDIRECT_MAP = 51"

definition ETH_TYPE :: u16 where "ETH_TYPE = 12"
definition IP_PROTO :: u16 where "IP_PROTO = 14 + 9"
definition XDP_VLAN_TAG :: u16 where "XDP_VLAN_TAG = 4"
definition HEADERS :: u32 where "HEADERS = 14 + 20 + 8"

definition swap_bytes :: "u16 \<Rightarrow> u16" where
  "swap_bytes w = u16_from_be_bytes (rev (u16_to_be_bytes w))"

definition ETH_P_IP :: u32 where "ETH_P_IP = ucast (swap_bytes 0x0800)"
definition ETH_P_8021Q :: u32 where "ETH_P_8021Q = ucast (swap_bytes 0x8100)"
definition XDP_IPPROTO_UDP :: u32 where "XDP_IPPROTO_UDP = 17"

definition UNTAGGED_PROTO :: u16 where "UNTAGGED_PROTO = 15"
definition UDP_CHECK :: u16 where "UDP_CHECK = 16"
definition PASS :: u16 where "PASS = 23"

lemmas opcodes = LDX_W_MEM_def LDX_H_MEM_def LDX_B_MEM_def LD_DW_IMM_def MOV64_K_def MOV64_X_def ADD64_K_def JA_def
  JEQ_K_def JGT_X_def JNE_K_def CALL_def EXIT_def PSEUDO_MAP_FD_def

lemmas xdp_consts = MD_DATA_def MD_DATA_END_def MD_RX_QUEUE_INDEX_def XDP_PASS_def FN_REDIRECT_MAP_def ETH_TYPE_def IP_PROTO_def
  XDP_VLAN_TAG_def HEADERS_def XDP_IPPROTO_UDP_def UNTAGGED_PROTO_def UDP_CHECK_def PASS_def

definition to_le_bytes16 :: "u16 \<Rightarrow> bytes" where
  "to_le_bytes16 w = rev (be_bytes 2 (unat w))"

definition to_le_bytes32 :: "u32 \<Rightarrow> bytes" where
  "to_le_bytes32 w = rev (be_bytes 4 (unat w))"

definition insn :: "u8 \<Rightarrow> u8 \<Rightarrow> u8 \<Rightarrow> u16 \<Rightarrow> u32 \<Rightarrow> bytes" where
  "insn code dst src off imm =
     (let off = to_le_bytes16 off; imm = to_le_bytes32 imm in
      [code, push_bit 4 src OR dst, off ! 0, off ! 1, imm ! 0, imm ! 1, imm ! 2, imm ! 3])"

definition jump :: "u16 \<Rightarrow> u16 \<Rightarrow> u16" where
  "jump at target = target - at - 1"

definition instructions :: "u32 \<Rightarrow> bytes list" where
  "instructions map_fd =
     [insn LDX_W_MEM 2 1 MD_DATA 0,
      insn LDX_W_MEM 3 1 MD_DATA_END 0,
      insn MOV64_X 4 2 0 0,
      insn ADD64_K 4 0 0 HEADERS,
      insn JGT_X 4 3 (jump 4 PASS) 0,
      insn LDX_H_MEM 4 2 ETH_TYPE 0,
      insn JEQ_K 4 0 (jump 6 UNTAGGED_PROTO) ETH_P_IP,
      insn JNE_K 4 0 (jump 7 PASS) ETH_P_8021Q,
      insn MOV64_X 4 2 0 0,
      insn ADD64_K 4 0 0 (HEADERS + ucast XDP_VLAN_TAG),
      insn JGT_X 4 3 (jump 10 PASS) 0,
      insn LDX_H_MEM 4 2 (ETH_TYPE + XDP_VLAN_TAG) 0,
      insn JNE_K 4 0 (jump 12 PASS) ETH_P_IP,
      insn LDX_B_MEM 4 2 (IP_PROTO + XDP_VLAN_TAG) 0,
      insn JA 0 0 (jump 14 UDP_CHECK) 0,
      insn LDX_B_MEM 4 2 IP_PROTO 0,
      insn JNE_K 4 0 (jump 16 PASS) XDP_IPPROTO_UDP,
      insn LDX_W_MEM 2 1 MD_RX_QUEUE_INDEX 0,
      insn LD_DW_IMM 1 PSEUDO_MAP_FD 0 map_fd,
      insn 0 0 0 0 0,
      insn MOV64_K 3 0 0 XDP_PASS,
      insn CALL 0 0 0 FN_REDIRECT_MAP,
      insn EXIT 0 0 0 0,
      insn MOV64_K 0 0 0 XDP_PASS,
      insn EXIT 0 0 0 0]"

section \<open>Machine\<close>

record bpf_insn =
  bi_code :: u8
  bi_dst :: u8
  bi_src :: u8
  bi_off :: u16
  bi_imm :: u32

definition decode_insn :: "bytes \<Rightarrow> bpf_insn" where
  "decode_insn bs =
     \<lparr>bi_code = bs ! 0, bi_dst = take_bit 4 (bs ! 1), bi_src = drop_bit 4 (bs ! 1),
      bi_off = of_nat (be_nat [bs ! 3, bs ! 2]), bi_imm = of_nat (be_nat [bs ! 7, bs ! 6, bs ! 5, bs ! 4])\<rparr>"

datatype bpf_val = Scalar u64 | Ctx | Packet nat | PacketEnd | MapFd u32

type_synonym bpf_regs = "u8 \<Rightarrow> bpf_val option"

text \<open>A verdict, or the registers and the number of instructions to skip.\<close>

datatype bpf_step = Next bpf_regs nat | Verdict u64

text \<open>The kernel turns loads of the context fields \<^verbatim>\<open>data\<close> and \<^verbatim>\<open>data_end\<close> into packet addresses.\<close>

definition load :: "bytes \<Rightarrow> u32 \<Rightarrow> u8 \<Rightarrow> bpf_val \<Rightarrow> u16 \<Rightarrow> bpf_val option" where
  "load frame queue code base off =
     (case base of
        Ctx \<Rightarrow>
          if code \<noteq> LDX_W_MEM then None
          else if off = MD_DATA then Some (Packet 0)
          else if off = MD_DATA_END then Some PacketEnd
          else if off = MD_RX_QUEUE_INDEX then Some (Scalar (ucast queue))
          else None
      | Packet k \<Rightarrow>
          (let at = k + unat off in
           if 2 ^ 15 \<le> unat off then None
           else if code = LDX_B_MEM \<and> at < length frame then Some (Scalar (ucast (frame ! at)))
           else if code = LDX_H_MEM \<and> at + 1 < length frame
             then Some (Scalar (of_nat (be_nat [frame ! (at + 1), frame ! at])))
           else None)
      | _ \<Rightarrow> None)"

definition branch :: "bpf_regs \<Rightarrow> u16 \<Rightarrow> bool \<Rightarrow> bpf_step option" where
  "branch r off taken = (if 2 ^ 15 \<le> unat off then None else Some (Next r (if taken then unat off else 0)))"

definition step :: "(u32 \<Rightarrow> u64 \<Rightarrow> u64 \<Rightarrow> u64) \<Rightarrow> bytes \<Rightarrow> u32 \<Rightarrow> bpf_insn \<Rightarrow> bpf_regs \<Rightarrow> bpf_step option" where
  "step redirect_map frame queue i r =
     (let code = bi_code i; dst = r (bi_dst i); src = r (bi_src i); imm = (scast (bi_imm i) :: u64);
          set_dst = (\<lambda>v. Some (Next (r(bi_dst i := Some v)) 0)) in
      if code = LDX_W_MEM \<or> code = LDX_H_MEM \<or> code = LDX_B_MEM then
        (case src of None \<Rightarrow> None | Some base \<Rightarrow>
           (case load frame queue code base (bi_off i) of None \<Rightarrow> None | Some v \<Rightarrow> set_dst v))
      else if code = LD_DW_IMM then
        (if bi_src i = PSEUDO_MAP_FD then Some (Next (r(bi_dst i := Some (MapFd (bi_imm i)))) 1) else None)
      else if code = MOV64_K then set_dst (Scalar imm)
      else if code = MOV64_X then (case src of None \<Rightarrow> None | Some v \<Rightarrow> set_dst v)
      else if code = ADD64_K then
        (case dst of
           Some (Scalar v) \<Rightarrow> set_dst (Scalar (v + imm))
         | Some (Packet k) \<Rightarrow> if 2 ^ 31 \<le> unat (bi_imm i) then None else set_dst (Packet (k + unat (bi_imm i)))
         | _ \<Rightarrow> None)
      else if code = JA then branch r (bi_off i) True
      else if code = JEQ_K then (case dst of Some (Scalar v) \<Rightarrow> branch r (bi_off i) (v = imm) | _ \<Rightarrow> None)
      else if code = JNE_K then (case dst of Some (Scalar v) \<Rightarrow> branch r (bi_off i) (v \<noteq> imm) | _ \<Rightarrow> None)
      else if code = JGT_X then
        (case (dst, src) of
           (Some (Scalar v), Some (Scalar w)) \<Rightarrow> branch r (bi_off i) (v > w)
         | (Some (Packet k), Some PacketEnd) \<Rightarrow> branch r (bi_off i) (k > length frame)
         | _ \<Rightarrow> None)
      else if code = CALL \<and> bi_imm i = FN_REDIRECT_MAP then
        (case (r 1, r 2, r 3) of
           (Some (MapFd m), Some (Scalar key), Some (Scalar flags)) \<Rightarrow>
             Some (Next (\<lambda>n. if n = 0 then Some (Scalar (redirect_map m key flags)) else if n \<le> 5 then None else r n) 0)
         | _ \<Rightarrow> None)
      else if code = EXIT then (case r 0 of Some (Scalar v) \<Rightarrow> Some (Verdict v) | _ \<Rightarrow> None)
      else None)"

fun run :: "(u32 \<Rightarrow> u64 \<Rightarrow> u64 \<Rightarrow> u64) \<Rightarrow> bytes \<Rightarrow> u32 \<Rightarrow> bpf_regs \<Rightarrow> bytes list \<Rightarrow> u64 option" where
  "run redirect_map frame queue r [] = None"
| "run redirect_map frame queue r (bs # rest) =
     (case step redirect_map frame queue (decode_insn bs) r of
        None \<Rightarrow> None
      | Some (Verdict v) \<Rightarrow> Some v
      | Some (Next r' skip) \<Rightarrow> run redirect_map frame queue r' (drop skip rest))"

text \<open>A program starts with the context in register 1.\<close>

definition xdp_verdict :: "(u32 \<Rightarrow> u64 \<Rightarrow> u64 \<Rightarrow> u64) \<Rightarrow> bytes \<Rightarrow> u32 \<Rightarrow> bytes list \<Rightarrow> u64 option" where
  "xdp_verdict redirect_map frame queue prog = run redirect_map frame queue [1 \<mapsto> Ctx] prog"

section \<open>Instructions decode to their fields\<close>

lemma packed_nibble:
  assumes "(w :: u8) < 16"
  shows "take_bit 4 w = w" "drop_bit 4 w = 0"
proof -
  have "unat (drop_bit 4 w) = 0" using assms unfolding unat_drop_bit_eq by (simp add: drop_bit_eq_div word_less_nat_alt)
  then show "drop_bit 4 w = 0" by (simp add: unat_eq_0)
  then show "take_bit 4 w = w" by (simp add: take_bit_eq_self_iff_drop_bit_eq_0)
qed

lemma nibbles:
  assumes "dst < 16" "src < (16 :: u8)"
  shows "take_bit 4 (push_bit 4 src OR dst) = dst" "drop_bit 4 (push_bit 4 src OR dst) = src"
proof -
  show "take_bit 4 (push_bit 4 src OR dst) = dst"
    using packed_nibble [OF assms(1)] by (simp add: take_bit_push_bit)
  have "\<not> bit src n" if "4 \<le> n" for n
    using that packed_nibble(1) [OF assms(2)] by (metis bit_take_bit_iff not_le)
  then have "bit (drop_bit 4 (push_bit 4 src)) n \<longleftrightarrow> bit src n" if "n < 8" for n
    using that by (cases "4 \<le> n") (simp_all add: bit_drop_bit_eq bit_push_bit_iff)
  then have "drop_bit 4 (push_bit 4 src) = src" by (intro bit_word_eqI) simp
  then show "drop_bit 4 (push_bit 4 src OR dst) = src" using packed_nibble(2) [OF assms(1)] by simp
qed

lemma rev_bytes:
  "length xs = 2 \<Longrightarrow> [rev xs ! Suc 0, rev xs ! 0] = xs"
  "length ys = 4 \<Longrightarrow> [rev ys ! 3, rev ys ! 2, rev ys ! Suc 0, rev ys ! 0] = ys"
  by (auto simp: numeral_eq_Suc length_Suc_conv)

lemma decode_insn:
  assumes "dst < 16" "src < 16"
  shows "decode_insn (insn code dst src off imm) = \<lparr>bi_code = code, bi_dst = dst, bi_src = src, bi_off = off, bi_imm = imm\<rparr>"
  using nibbles [OF assms] unat_less_pow [of off] unat_less_pow [of imm]
  by (simp add: decode_insn_def insn_def to_le_bytes16_def to_le_bytes32_def Let_def rev_bytes be_nat_be_bytes)

section \<open>What the program does\<close>

definition ethertype_at :: "nat \<Rightarrow> bytes \<Rightarrow> u16" where
  "ethertype_at n frame = u16_from_be_bytes [frame ! n, frame ! (n + 1)]"

text \<open>An IPv4 UDP frame, untagged or under one 802.1Q tag, with room for its headers.\<close>

definition ipv4_udp :: "bytes \<Rightarrow> bool" where
  "ipv4_udp frame \<longleftrightarrow>
     (42 \<le> length frame \<and> ethertype_at 12 frame = 0x0800 \<and> frame ! 23 = 17)
     \<or> (46 \<le> length frame \<and> ethertype_at 12 frame = 0x8100 \<and> ethertype_at 16 frame = 0x0800 \<and> frame ! 27 = 17)"

lemma be_nat_pair: "be_nat [a, b] = unat a * 256 + unat b"
  by (simp add: be_nat_def)

lemma of_nat_u16_inj:
  assumes "m < 65536" "n < 65536"
  shows "(of_nat m :: u64) = of_nat n \<longleftrightarrow> m = n" "(of_nat m :: u16) = of_nat n \<longleftrightarrow> m = n"
proof -
  have "unat (of_nat m :: u64) = m" "unat (of_nat n :: u64) = n" "unat (of_nat m :: u16) = m" "unat (of_nat n :: u16) = n"
    using assms by (simp_all add: unat_of_nat)
  then show "(of_nat m :: u64) = of_nat n \<longleftrightarrow> m = n" "(of_nat m :: u16) = of_nat n \<longleftrightarrow> m = n" by metis+
qed

lemma byte_pair_eq:
  assumes "q < 256" "s < (256 :: nat)"
  shows "p * 256 + q = r * 256 + s \<longleftrightarrow> p = r \<and> q = s"
proof
  assume e: "p * 256 + q = r * 256 + s"
  from arg_cong [OF e, of "\<lambda>x. x div 256"] arg_cong [OF e, of "\<lambda>x. x mod 256"] assms show "p = r \<and> q = s" by simp
qed simp

lemma half_word:
  "(of_nat (be_nat [b, a]) :: u64) = 8 \<longleftrightarrow> u16_from_be_bytes [a, b] = 0x0800"
  "(of_nat (be_nat [b, a]) :: u64) = 0x81 \<longleftrightarrow> u16_from_be_bytes [a, b] = 0x8100"
proof -
  have be: "be_nat [x, y] < 65536" for x y using be_nat_less [of "[x, y]"] by simp
  have *: "(of_nat (be_nat [b, a]) :: u64) = of_nat (p * 256 + q) \<longleftrightarrow> u16_from_be_bytes [a, b] = of_nat (q * 256 + p)"
    if "p < 256" "q < 256" for p q
  proof -
    have lt: "p * 256 + q < 65536" "q * 256 + p < 65536" using that by simp_all
    have "u16_from_be_bytes [a, b] = of_nat (q * 256 + p) \<longleftrightarrow> unat a = q \<and> unat b = p"
      using of_nat_u16_inj(2) [OF be lt(2), of a b] that by (simp only: u16_from_be_bytes_def be_nat_pair byte_pair_eq unat_u8_less)
    moreover have "(of_nat (be_nat [b, a]) :: u64) = of_nat (p * 256 + q) \<longleftrightarrow> unat b = p \<and> unat a = q"
      using of_nat_u16_inj(1) [OF be lt(1), of b a] that by (simp only: be_nat_pair byte_pair_eq unat_u8_less)
    ultimately show ?thesis by blast
  qed
  show "(of_nat (be_nat [b, a]) :: u64) = 8 \<longleftrightarrow> u16_from_be_bytes [a, b] = 0x0800" using * [of 0 8] by simp
  show "(of_nat (be_nat [b, a]) :: u64) = 0x81 \<longleftrightarrow> u16_from_be_bytes [a, b] = 0x8100" using * [of 0 "0x81"] by simp
qed

lemma eth_consts: "ETH_P_IP = 8" "ETH_P_8021Q = 0x81"
proof -
  have "be_bytes 2 n = [of_nat (n div 256 mod 256), of_nat (n mod 256)]" for n by (simp add: numeral_2_eq_2)
  then show "ETH_P_IP = 8" "ETH_P_8021Q = 0x81"
    by (simp_all add: ETH_P_IP_def ETH_P_8021Q_def swap_bytes_def u16_from_be_bytes_def u16_to_be_bytes_def be_nat_pair)
qed

lemma udp_byte: "(ucast (b :: u8) :: u64) = 17 \<longleftrightarrow> b = 17"
proof -
  have "unat b < 18446744073709551616" using unat_u8_less [of b] by linarith
  then have "unat (ucast b :: u64) = unat b" unfolding unsigned_ucast_eq by (simp add: take_bit_nat_eq_self_iff)
  then show ?thesis unfolding word_unat_eq_iff by simp
qed

lemmas run_simps = run.simps decode_insn step_def load_def branch_def opcodes xdp_consts jump_def eth_consts Let_def half_word udp_byte
  xdp_verdict_def instructions_def ipv4_udp_def ethertype_at_def

lemma instructions_verdict:
  "xdp_verdict redirect_map frame queue (instructions map_fd) =
     Some (if ipv4_udp frame then redirect_map map_fd (ucast queue) 2 else 2)"
proof -
  consider (short) "length frame < 42"
    | (untagged) "42 \<le> length frame" "ethertype_at 12 frame = 0x0800"
    | (other) "42 \<le> length frame" "ethertype_at 12 frame \<noteq> 0x0800" "ethertype_at 12 frame \<noteq> 0x8100"
    | (cut) "42 \<le> length frame" "ethertype_at 12 frame = 0x8100" "length frame < 46"
    | (tagged) "46 \<le> length frame" "ethertype_at 12 frame = 0x8100"
    by linarith
  then show ?thesis
  proof cases
    case short
    then show ?thesis by (simp add: run_simps)
  next
    case untagged
    then show ?thesis by (cases "frame ! 23 = 17") (simp_all add: run_simps)
  next
    case other
    then show ?thesis by (simp add: run_simps)
  next
    case cut
    then show ?thesis by (simp add: run_simps)
  next
    case tagged
    then show ?thesis
      by (cases "ethertype_at 16 frame = 0x0800"; cases "frame ! 27 = 17") (simp_all add: run_simps)
  qed
qed

section \<open>The program and the decapsulator\<close>

lemma parse_ipv4_udp_protocol:
  assumes "parse_ipv4_udp l3 ip port dst = Inr r"
  shows "28 \<le> length ip" "ip ! 9 = 17"
proof -
  have "28 \<le> length ip \<and> ip ! 9 = 17"
    using assms
    by (auto simp: parse_ipv4_udp_def decap_consts IPPROTO_UDP_def Let_def chunk_simps nth_append
        split: option.split_asm if_split_asm prod.split_asm)
      (drule arg_cong [of _ _ length], simp)+
  then show "28 \<le> length ip" "ip ! 9 = 17" by simp_all
qed

lemma accepted_is_ipv4_udp:
  assumes "parse_udp frame port dst = Inr r"
  shows "ipv4_udp frame"
proof -
  obtain l3 ip where l: "locate_ipv4 frame = Inr (l3, ip)" and p: "parse_ipv4_udp l3 ip port dst = Inr r"
    using assms by (auto simp: parse_udp_def split: sum.split_asm)
  note ip = parse_ipv4_udp_protocol [OF p]
  consider eth where "frame = eth @ ip" "length eth = 14" "u16_from_be_bytes [eth ! 12, eth ! 13] = 0x0800"
    | eth tag where "frame = eth @ tag @ ip" "length eth = 14" "length tag = 4" "u16_from_be_bytes [eth ! 12, eth ! 13] = 0x8100"
        "u16_from_be_bytes [tag ! 2, tag ! 3] = 0x0800"
    using l by (auto simp: locate_ipv4_def decap_consts ETHERTYPE_IPV4_def ETHERTYPE_VLAN_def Let_def chunk_simps
        split: option.split_asm if_split_asm)
  then show ?thesis
    by cases (use ip in \<open>simp_all add: ipv4_udp_def ethertype_at_def nth_append\<close>)
qed

text \<open>
  C37. The built-in program redirects exactly the IPv4 UDP frames. On every frame and queue the assembled bytes run to a
  verdict without a rejected load or jump: \<^verbatim>\<open>bpf_redirect_map\<close> on the map with the queue as key and \<^verbatim>\<open>XDP_PASS\<close> as fallback for
  a frame with room for its headers that carries IPv4 UDP untagged or under one 802.1Q tag, and \<^verbatim>\<open>XDP_PASS\<close> for every other
  frame. No frame the decapsulator would accept is left to the kernel stack.
\<close>

theorem program_exact:
  "xdp_verdict redirect_map frame queue (instructions map_fd) =
     Some (if ipv4_udp frame then redirect_map map_fd (ucast queue) (ucast XDP_PASS) else ucast XDP_PASS)
   \<and> (\<forall>port dst r. parse_udp frame port dst = Inr r \<longrightarrow> ipv4_udp frame)"
  using accepted_is_ipv4_udp by (auto simp: instructions_verdict XDP_PASS_def)

definition demo_frame :: bytes where
  "demo_frame = [0, 0, 0, 0, 0, 0, 0, 0, 0, 0, 0, 0, 8, 0, 0x45, 0, 0, 29, 0, 0, 0, 0, 64, 17, 0, 0, 10, 0, 0, 1, 239, 0, 0, 1,
     0, 7, 0, 9, 0, 9, 0, 0, 5]"

theorem program_exact_witness:
  "xdp_verdict (\<lambda>m key flags. 4) demo_frame 3 (instructions 7) = Some 4 \<and> (\<exists>r. parse_udp demo_frame 9 None = Inr r)"
proof -
  have p: "\<exists>r. parse_udp demo_frame 9 None = Inr r"
    by (simp add: parse_udp_def locate_ipv4_def parse_ipv4_udp_def demo_frame_def decap_consts split_first_chunk_def get_range_def Let_def
        ETHERTYPE_IPV4_def FRAGMENT_BITS_def IPPROTO_UDP_def u16_from_be_bytes_def be_nat_def)
  then have "ipv4_udp demo_frame" using program_exact [of undefined demo_frame] by blast
  then show ?thesis using p program_exact [of "\<lambda>m key flags. 4" demo_frame 3 7] by simp
qed

end
