(* ===== verification/Xsk_Setup.thy ===== *)
theory Xsk_Setup
  imports Xsk_Custody Xdp_Program Sys_Calls
begin

text \<open>
  Set-up of the AF_XDP transport: \<^verbatim>\<open>config.rs\<close>, the \<^verbatim>\<open>open\<close> path of \<^verbatim>\<open>driver.rs\<close>, the redirect over raw \<^verbatim>\<open>bpf()\<close> (\<^verbatim>\<open>xdp/mod.rs\<close>,
  \<^verbatim>\<open>xdp/map.rs\<close>, \<^verbatim>\<open>xdp/link.rs\<close>, \<^verbatim>\<open>xdp/sys.rs\<close>, the loader of \<^verbatim>\<open>xdp/program.rs\<close>) and \<^verbatim>\<open>AfxdpL2\<close> of \<^verbatim>\<open>lib.rs\<close>, all under
  \<^verbatim>\<open>crates/transports/afxdp/src\<close>.

  The operating system is the parameter \<open>xsk_sys\<close>: one function per system call. A \<^verbatim>\<open>bpf()\<close> attribute block holds what
  its address fields point at. A mapped ring is the ring memory the kernel laid out at the offsets it gave.
\<close>

section \<open>Configuration\<close>

datatype xdp_mode = Skb | Drv

datatype xdp_redirect = Builtin xdp_mode | Pinned bytes

record afxdp_config =
  ac_ifname :: bytes
  ac_queue :: u32
  ac_frames :: u32
  ac_frame_size :: u32
  ac_headroom :: u32
  ac_zero_copy :: bool
  ac_redirect :: xdp_redirect

definition XDP_PACKET_HEADROOM :: u32 where "XDP_PACKET_HEADROOM = 256"

definition MIN_FRAME_SIZE :: u32 where "MIN_FRAME_SIZE = 2048"

definition IFNAMSIZ :: nat where "IFNAMSIZ = 16"

definition afxdp_config_new :: "bytes \<Rightarrow> u32 \<Rightarrow> afxdp_config" where
  "afxdp_config_new ifname queue =
     \<lparr>ac_ifname = ifname, ac_queue = queue, ac_frames = 4096, ac_frame_size = 2048, ac_headroom = 0, ac_zero_copy = False,
      ac_redirect = Builtin Skb\<rparr>"

definition is_power_of_two :: "u32 \<Rightarrow> bool" where
  "is_power_of_two w \<longleftrightarrow> list_ex (\<lambda>k. w = 2 ^ k) [0..<32]"

definition validate_redirect :: "afxdp_config \<Rightarrow> transport_error + unit" where
  "validate_redirect cfg =
     (case ac_redirect cfg of
        Builtin _ \<Rightarrow>
          if ac_queue cfg = 0xFFFFFFFF then Inl (InvalidConfig ''queue'' ''u32::MAX leaves no XSKMAP size'') else Inr ()
      | Pinned path \<Rightarrow>
          if path = [] then Inl (InvalidConfig ''redirect.path'' ''empty'')
          else if 0 \<in> set path then Inl (InvalidConfig ''redirect.path'' ''contains NUL byte'')
          else Inr ())"

definition validate_afxdp :: "afxdp_config \<Rightarrow> transport_error + unit" where
  "validate_afxdp cfg =
     (let name = ac_ifname cfg; sz = ac_frame_size cfg in
      if name = [] then Inl (InvalidConfig ''ifname'' ''empty'')
      else if IFNAMSIZ \<le> length name then Inl (InvalidConfig ''ifname'' ''longer than 15 bytes'')
      else if 0 \<in> set name then Inl (InvalidConfig ''ifname'' ''contains NUL byte'')
      else if \<not> is_power_of_two (ac_frames cfg) then Inl (InvalidConfig ''frames'' ''not a power of two'')
      else if \<not> is_power_of_two sz \<or> sz < MIN_FRAME_SIZE
        then Inl (InvalidConfig ''frame_size'' ''not a power of two of at least 2048'')
      else if sz - XDP_PACKET_HEADROOM \<le> ac_headroom cfg
        then Inl (InvalidConfig ''headroom'' ''leaves no packet room in frame'')
      else validate_redirect cfg)"

section \<open>System calls\<close>

definition MAP_TYPE_XSKMAP :: u32 where "MAP_TYPE_XSKMAP = 17"
definition PROG_TYPE_XDP :: u32 where "PROG_TYPE_XDP = 6"
definition ATTACH_XDP :: u32 where "ATTACH_XDP = 37"
definition NOEXIST :: u64 where "NOEXIST = 1"
definition XDP_FLAGS_SKB_MODE :: u32 where "XDP_FLAGS_SKB_MODE = 2"
definition XDP_FLAGS_DRV_MODE :: u32 where "XDP_FLAGS_DRV_MODE = 4"

record map_create_attr =
  mc_map_type :: u32
  mc_key_size :: u32
  mc_value_size :: u32
  mc_max_entries :: u32
  mc_map_flags :: u32
  mc_inner_map_fd :: u32
  mc_numa_node :: u32
  mc_map_name :: bytes
  mc_map_ifindex :: u32

record map_update_attr =
  mu_map_fd :: u32
  mu_key :: u32
  mu_value :: u32
  mu_flags :: u64

record prog_load_attr =
  pl_prog_type :: u32
  pl_insn_cnt :: u32
  pl_insns :: "bytes list"
  pl_license :: string
  pl_log_level :: u32
  pl_log_size :: u32
  pl_kern_version :: u32
  pl_prog_flags :: u32
  pl_prog_name :: bytes
  pl_prog_ifindex :: u32
  pl_expected_attach_type :: u32

record obj_get_attr =
  ob_pathname :: bytes
  ob_bpf_fd :: u32
  ob_file_flags :: u32

record obj_get_info_attr =
  og_bpf_fd :: u32
  og_info_len :: u32

record link_create_attr =
  lc_prog_fd :: u32
  lc_target_ifindex :: u32
  lc_attach_type :: u32
  lc_flags :: u32

datatype bpf_attr =
    MapCreate map_create_attr
  | MapUpdateElem map_update_attr
  | ProgLoad prog_load_attr
  | ObjGet obj_get_attr
  | ObjGetInfo obj_get_info_attr
  | LinkCreate link_create_attr

record map_info =
  mf_map_type :: u32
  mf_id :: u32
  mf_key_size :: u32
  mf_value_size :: u32
  mf_max_entries :: u32
  mf_map_flags :: u32

record umem_reg =
  ur_len :: u64
  ur_chunk_size :: u32
  ur_headroom :: u32

datatype xsk_opt = UmemReg umem_reg | FillRing u32 | CompletionRing u32 | RxRing u32

record ring_offset =
  ro_producer :: u64
  ro_consumer :: u64
  ro_desc :: u64
  ro_flags :: u64

record mmap_offsets =
  mo_rx :: ring_offset
  mo_fr :: ring_offset

record sockaddr_xdp =
  sx_zero_copy :: bool
  sx_need_wakeup :: bool
  sx_ifindex :: u32
  sx_queue :: u32

text \<open>
  \<open>sys_bpf\<close> returns the non-negative result and, for \<^verbatim>\<open>OBJ_GET_INFO_BY_FD\<close>, what the kernel wrote. \<open>sys_mmap_fill\<close> and
  \<open>sys_mmap_rx\<close> map the ring of the socket at its page offset, \<open>len\<close> bytes long.
\<close>

record 'k xsk_sys =
  sys_if_nametoindex :: "bytes \<Rightarrow> ('k, io_error, u32) call"
  sys_socket :: "('k, io_error, int) call"
  sys_set_opt :: "int \<Rightarrow> xsk_opt \<Rightarrow> ('k, io_error, unit) call"
  sys_mmap_offsets :: "int \<Rightarrow> ('k, io_error, mmap_offsets \<times> nat) call"
  sys_mmap_fill :: "int \<Rightarrow> nat \<Rightarrow> ring_offset \<Rightarrow> ('k, io_error, u64 ring_mem) call"
  sys_mmap_rx :: "int \<Rightarrow> nat \<Rightarrow> ring_offset \<Rightarrow> ('k, io_error, xdp_desc ring_mem) call"
  sys_bind :: "int \<Rightarrow> sockaddr_xdp \<Rightarrow> ('k, io_error, unit) call"
  sys_bpf :: "bpf_attr \<Rightarrow> ('k, io_error, int \<times> map_info) call"
  sys_udp_socket :: "domain \<Rightarrow> ('k, io_error, int) call"
  sys_join :: "int \<Rightarrow> ip_addr \<Rightarrow> u32 \<Rightarrow> ('k, io_error, unit) call"

definition unavailable :: "string \<Rightarrow> io_error option \<Rightarrow> transport_error" where
  "unavailable reason error = Unavailable ''afxdp'' reason error"

definition bpf_error :: "string \<Rightarrow> io_error \<Rightarrow> transport_error" where
  "bpf_error stage error =
     (if raw_os_error error = Some EPERM then unavailable ''needs CAP_BPF and CAP_NET_ADMIN'' (Some error)
      else Io stage error)"

text \<open>The descriptor fits a \<^verbatim>\<open>RawFd\<close>, a 32-bit signed integer.\<close>

definition bpf_fd :: "'k xsk_sys \<Rightarrow> bpf_attr \<Rightarrow> ('k, io_error, int) call" where
  "bpf_fd sys attr =
     attempt (sys_bpf sys attr) (\<lambda>(ret, _). lift (if ret < 2 ^ 31 then Inr ret else Inl (IoError InvalidData None)))"

section \<open>Redirect\<close>

definition ENTRY :: u32 where "ENTRY = 4"
definition XSKMAP_NAME :: bytes where
  "XSKMAP_NAME = [112, 111, 108, 97, 114, 105, 115, 95, 120, 115, 107, 115, 0, 0, 0, 0]"
definition MAP_INFO_LEN :: u32 where "MAP_INFO_LEN = 24"

text \<open>\<^verbatim>\<open>cast_unsigned\<close> of a descriptor.\<close>

definition fd_bits :: "int \<Rightarrow> u32" where "fd_bits fd = of_int fd"

definition xskmap_create :: "'k xsk_sys \<Rightarrow> u32 \<Rightarrow> ('k, transport_error, int) call" where
  "xskmap_create sys entries =
     map_err (bpf_error ''bpf(MAP_CREATE)'')
       (bpf_fd sys (MapCreate \<lparr>mc_map_type = MAP_TYPE_XSKMAP, mc_key_size = ENTRY, mc_value_size = ENTRY, mc_max_entries = entries,
          mc_map_flags = 0, mc_inner_map_fd = 0, mc_numa_node = 0, mc_map_name = XSKMAP_NAME, mc_map_ifindex = 0\<rparr>))"

definition xskmap_info :: "'k xsk_sys \<Rightarrow> int \<Rightarrow> ('k, transport_error, map_info) call" where
  "xskmap_info sys fd =
     attempt (map_err (bpf_error ''bpf(OBJ_GET_INFO_BY_FD)'') (sys_bpf sys (ObjGetInfo \<lparr>og_bpf_fd = fd_bits fd, og_info_len = MAP_INFO_LEN\<rparr>)))
       (\<lambda>(_, info). lift (Inr info))"

definition xskmap_open_pinned :: "'k xsk_sys \<Rightarrow> bytes \<Rightarrow> u32 \<Rightarrow> ('k, transport_error, int) call" where
  "xskmap_open_pinned sys path queue =
     (if 0 \<in> set path then lift (Inl (InvalidConfig ''redirect.path'' ''contains NUL byte''))
      else
        attempt
          (map_err
             (\<lambda>error. if raw_os_error error \<in> {Some ENOENT, Some ENOTDIR, Some EACCES}
                then InvalidConfig ''redirect.path'' ''no pinned object there, or access denied''
                else bpf_error ''bpf(OBJ_GET)'' error)
             (bpf_fd sys (ObjGet \<lparr>ob_pathname = path, ob_bpf_fd = 0, ob_file_flags = 0\<rparr>)))
          (\<lambda>fd. attempt (xskmap_info sys fd) (\<lambda>info. lift
             (if mf_map_type info \<noteq> MAP_TYPE_XSKMAP \<or> mf_key_size info \<noteq> ENTRY \<or> mf_value_size info \<noteq> ENTRY
              then Inl (InvalidConfig ''redirect.path'' ''not an XSKMAP with 4-byte key and value'')
              else if mf_max_entries info \<le> queue then Inl (InvalidConfig ''queue'' ''beyond pinned XSKMAP size'')
              else Inr fd))))"

definition xskmap_insert :: "'k xsk_sys \<Rightarrow> int \<Rightarrow> u32 \<Rightarrow> int \<Rightarrow> ('k, transport_error, unit) call" where
  "xskmap_insert sys map_fd queue xsk =
     attempt
       (map_err
          (\<lambda>error. if raw_os_error error = Some E2BIG then InvalidConfig ''queue'' ''beyond XSKMAP size''
             else if raw_os_error error = Some EEXIST then unavailable ''queue already served'' (Some error)
             else bpf_error ''bpf(MAP_UPDATE_ELEM)'' error)
          (sys_bpf sys (MapUpdateElem \<lparr>mu_map_fd = fd_bits map_fd, mu_key = queue, mu_value = fd_bits xsk, mu_flags = NOEXIST\<rparr>)))
       (\<lambda>_. lift (Inr ()))"

definition LICENSE :: string where "LICENSE = ''Dual MIT/Apache-2.0''"
definition PROG_NAME :: bytes where
  "PROG_NAME = [112, 111, 108, 97, 114, 105, 115, 95, 120, 115, 107, 0, 0, 0, 0, 0]"
definition INSNS :: u32 where "INSNS = 25"
definition LOG_SIZE :: u32 where "LOG_SIZE = 65536"

definition prog_load :: "'k xsk_sys \<Rightarrow> bytes list \<Rightarrow> bool \<Rightarrow> ('k, io_error, int) call" where
  "prog_load sys insns log =
     bpf_fd sys (ProgLoad \<lparr>pl_prog_type = PROG_TYPE_XDP, pl_insn_cnt = INSNS, pl_insns = insns, pl_license = LICENSE,
       pl_log_level = (if log then 1 else 0), pl_log_size = (if log then LOG_SIZE else 0), pl_kern_version = 0, pl_prog_flags = 0,
       pl_prog_name = PROG_NAME, pl_prog_ifindex = 0, pl_expected_attach_type = 0\<rparr>)"

text \<open>A failed load is repeated with the verifier log; both failing returns the first error.\<close>

definition load_program :: "'k xsk_sys \<Rightarrow> bool \<Rightarrow> int \<Rightarrow> ('k, transport_error, int) call" where
  "load_program sys big_endian map_fd k =
     (if big_endian then (Inl (Unsupported ''afxdp'' ''built-in XDP program on big-endian host''), k)
      else
        let insns = instructions (of_int map_fd) in
        case prog_load sys insns False k of
          (Inr fd, k1) \<Rightarrow> (Inr fd, k1)
        | (Inl first, k1) \<Rightarrow>
            if raw_os_error first = Some EPERM then (Inl (bpf_error ''bpf(PROG_LOAD)'' first), k1)
            else map_err (\<lambda>_. bpf_error ''bpf(PROG_LOAD)'' first) (prog_load sys insns True) k1)"

definition link_attach :: "'k xsk_sys \<Rightarrow> int \<Rightarrow> u32 \<Rightarrow> xdp_mode \<Rightarrow> ('k, transport_error, int) call" where
  "link_attach sys prog ifindex mode =
     map_err
       (\<lambda>error. if raw_os_error error = Some EBUSY
          then unavailable ''an XDP program is already attached; use Pinned'' (Some error)
          else bpf_error ''bpf(LINK_CREATE)'' error)
       (bpf_fd sys (LinkCreate \<lparr>lc_prog_fd = fd_bits prog, lc_target_ifindex = ifindex, lc_attach_type = ATTACH_XDP,
          lc_flags = (case mode of Skb \<Rightarrow> XDP_FLAGS_SKB_MODE | Drv \<Rightarrow> XDP_FLAGS_DRV_MODE)\<rparr>))"

definition install :: "'k xsk_sys \<Rightarrow> bool \<Rightarrow> xdp_redirect \<Rightarrow> u32 \<Rightarrow> u32 \<Rightarrow> int \<Rightarrow> ('k, transport_error, int option) call" where
  "install sys big_endian redirect ifindex queue xsk =
     (case redirect of
        Builtin mode \<Rightarrow>
          attempt (xskmap_create sys (queue + 1)) (\<lambda>m.
          attempt (xskmap_insert sys m queue xsk) (\<lambda>_.
          attempt (load_program sys big_endian m) (\<lambda>prog.
          attempt (link_attach sys prog ifindex mode) (\<lambda>link. lift (Inr (Some link))))))
      | Pinned path \<Rightarrow>
          attempt (xskmap_open_pinned sys path queue) (\<lambda>m.
          attempt (xskmap_insert sys m queue xsk) (\<lambda>_. lift (Inr None))))"

section \<open>Opening the socket\<close>

definition MMAP_STAGE :: string where "MMAP_STAGE = ''mmap(XDP ring)''"

definition word_ok :: "nat \<Rightarrow> nat \<Rightarrow> bool" where
  "word_ok desc w \<longleftrightarrow> 4 dvd w \<and> w + 4 \<le> usize_max \<and> w + 4 \<le> desc"

text \<open>The length to map, after the checks on the kernel's offsets for entries of \<open>sz\<close> bytes aligned to \<open>al\<close>.\<close>

definition ring_layout :: "ring_offset \<Rightarrow> u32 \<Rightarrow> nat \<Rightarrow> nat \<Rightarrow> transport_error + nat" where
  "ring_layout off entries sz al =
     (let desc = unat (ro_desc off); bad = Io MMAP_STAGE (IoError InvalidData None) in
      if \<not> (word_ok desc (unat (ro_producer off)) \<and> word_ok desc (unat (ro_consumer off)) \<and> word_ok desc (unat (ro_flags off))
             \<and> al dvd desc) then Inl bad
      else if \<not> (unat entries * sz \<le> usize_max \<and> unat entries * sz + desc \<le> usize_max) then Inl bad
      else Inr (unat entries * sz + desc))"

definition map_ring ::
  "(nat \<Rightarrow> ring_offset \<Rightarrow> ('k, io_error, 'a ring_mem) call) \<Rightarrow> ring_offset \<Rightarrow> u32 \<Rightarrow> nat \<Rightarrow> nat \<Rightarrow> ('k, transport_error, 'a ring_mem) call" where
  "map_ring mmap off entries sz al =
     attempt (lift (ring_layout off entries sz al)) (\<lambda>len. map_err (Io MMAP_STAGE) (mmap len off))"

definition socket_error :: "io_error \<Rightarrow> transport_error" where
  "socket_error error =
     (if raw_os_error error = Some EPERM \<or> raw_os_error error = Some EACCES then unavailable ''needs CAP_NET_RAW'' (Some error)
      else if raw_os_error error = Some EAFNOSUPPORT then unavailable ''kernel built without AF_XDP'' (Some error)
      else Io ''socket(AF_XDP)'' error)"

definition register_umem :: "'k xsk_sys \<Rightarrow> int \<Rightarrow> afxdp_config \<Rightarrow> ('k, transport_error, unit) call" where
  "register_umem sys fd cfg =
     map_err
       (\<lambda>error. if raw_os_error error = Some ENOBUFS
          then unavailable ''RLIMIT_MEMLOCK too low; grant CAP_IPC_LOCK'' (Some error)
          else Io ''setsockopt(XDP_UMEM_REG)'' error)
       (sys_set_opt sys fd (UmemReg \<lparr>ur_len = ucast (ac_frames cfg) * ucast (ac_frame_size cfg), ur_chunk_size = ac_frame_size cfg,
          ur_headroom = ac_headroom cfg\<rparr>))"

fun set_ring_sizes :: "'k xsk_sys \<Rightarrow> int \<Rightarrow> (xsk_opt \<times> string) list \<Rightarrow> ('k, transport_error, unit) call" where
  "set_ring_sizes sys fd [] = lift (Inr ())"
| "set_ring_sizes sys fd ((opt, stage) # opts) =
     attempt (map_err (Io stage) (sys_set_opt sys fd opt)) (\<lambda>_. set_ring_sizes sys fd opts)"

definition RING_SIZES :: "u32 \<Rightarrow> (xsk_opt \<times> string) list" where
  "RING_SIZES entries =
     [(FillRing entries, ''setsockopt(XDP_UMEM_FILL_RING)''), (CompletionRing entries, ''setsockopt(XDP_UMEM_COMPLETION_RING)''),
      (RxRing entries, ''setsockopt(XDP_RX_RING)'')]"

text \<open>Kernels before 5.4 return less than the four rings of four 64-bit offsets.\<close>

definition mmap_offsets :: "'k xsk_sys \<Rightarrow> int \<Rightarrow> ('k, transport_error, mmap_offsets) call" where
  "mmap_offsets sys fd =
     attempt (map_err (Io ''getsockopt(XDP_MMAP_OFFSETS)'') (sys_mmap_offsets sys fd))
       (\<lambda>(off, len). lift (if len < 128 then Inl (unavailable ''kernel predates AF_XDP ring flags (5.4)'' None) else Inr off))"

definition bind_queue :: "'k xsk_sys \<Rightarrow> int \<Rightarrow> afxdp_config \<Rightarrow> u32 \<Rightarrow> ('k, transport_error, unit) call" where
  "bind_queue sys fd cfg ifindex =
     map_err
       (\<lambda>error. if raw_os_error error = Some EBUSY
          then unavailable ''queue busy or previous socket still releasing'' (Some error)
          else Io ''bind(AF_XDP)'' error)
       (sys_bind sys fd \<lparr>sx_zero_copy = ac_zero_copy cfg, sx_need_wakeup = True, sx_ifindex = ifindex, sx_queue = ac_queue cfg\<rparr>)"

definition xsk_open ::
  "'k xsk_sys \<Rightarrow> (nat \<Rightarrow> nat \<Rightarrow> bool) \<Rightarrow> bool \<Rightarrow> afxdp_config \<Rightarrow> u32 \<Rightarrow> ('k, transport_error, xsk_driver \<times> int option) call" where
  "xsk_open sys alloc big_endian cfg ifindex =
     attempt (lift (index_pool_new alloc (ac_frames cfg) (ac_frame_size cfg))) (\<lambda>pool.
     attempt (map_err socket_error (sys_socket sys)) (\<lambda>fd.
     attempt (register_umem sys fd cfg) (\<lambda>_.
     attempt (set_ring_sizes sys fd (RING_SIZES (ac_frames cfg))) (\<lambda>_.
     attempt (mmap_offsets sys fd) (\<lambda>off.
     attempt (map_ring (sys_mmap_fill sys fd) (mo_fr off) (ac_frames cfg) 8 8) (\<lambda>fill.
     attempt (map_ring (sys_mmap_rx sys fd) (mo_rx off) (ac_frames cfg) 16 8) (\<lambda>rx.
     let driver = xsk_start fill rx \<lparr>st_rx_dropped = 0, st_rx_ring_full = 0\<rparr> pool (ac_frames cfg) (ac_frame_size cfg) in
     attempt (bind_queue sys fd cfg ifindex) (\<lambda>_.
     attempt (install sys big_endian (ac_redirect cfg) ifindex (ac_queue cfg) fd) (\<lambda>link.
     lift (Inr (driver, link)))))))))))"

section \<open>The transport\<close>

record afxdp_l2 =
  al_rx :: "xsk_driver bypass"
  al_ifindex :: u32
  al_group_v4 :: "int option"
  al_group_v6 :: "int option"

definition ifindex_of :: "'k xsk_sys \<Rightarrow> bytes \<Rightarrow> ('k, transport_error, u32) call" where
  "ifindex_of sys name =
     (if 0 \<in> set name then lift (Inl (InvalidConfig ''ifname'' ''contains NUL byte''))
      else map_err (Io ''if_nametoindex'') (sys_if_nametoindex sys name))"

definition afxdp_bind ::
  "'k xsk_sys \<Rightarrow> (nat \<Rightarrow> nat \<Rightarrow> bool) \<Rightarrow> bool \<Rightarrow> metrics \<Rightarrow> afxdp_config \<Rightarrow> ('k, transport_error, afxdp_l2) call" where
  "afxdp_bind sys alloc big_endian m cfg =
     attempt (lift (validate_afxdp cfg)) (\<lambda>_.
     attempt (ifindex_of sys (ac_ifname cfg)) (\<lambda>ifindex.
     attempt (xsk_open sys alloc big_endian cfg ifindex) (\<lambda>(driver, link).
     lift (Inr \<lparr>al_rx = bypass_new xsk_ops m driver, al_ifindex = ifindex, al_group_v4 = None, al_group_v6 = None\<rparr>))))"

definition afxdp_recv :: "bool \<Rightarrow> afxdp_l2 \<Rightarrow> index_frame frame_batch \<Rightarrow> (transport_error + nat) \<times> afxdp_l2 \<times> index_frame frame_batch" where
  "afxdp_recv gate a out =
     (case bypass_recv xsk_ops gate (al_rx a) out of (res, t, out') \<Rightarrow> (res, a\<lparr>al_rx := t\<rparr>, out'))"

text \<open>The socket of a slot, opened on first use; a failed open leaves the slot empty.\<close>

definition group_socket :: "'k xsk_sys \<Rightarrow> int option \<Rightarrow> domain \<Rightarrow> ('k, transport_error, int) call" where
  "group_socket sys slot family =
     (case slot of
        Some sock \<Rightarrow> lift (Inr sock)
      | None \<Rightarrow> map_err (Io ''socket(multicast)'') (sys_udp_socket sys family))"

definition afxdp_join :: "'k xsk_sys \<Rightarrow> ip_addr \<Rightarrow> multicast_interface \<Rightarrow> afxdp_l2 \<Rightarrow> 'k \<Rightarrow> (transport_error + unit) \<times> afxdp_l2 \<times> 'k" where
  "afxdp_join sys grp iface a k =
     (if iface \<noteq> multicast_default
      then (Inl (InvalidConfig ''iface'' ''AF_XDP joins on its bound interface only''), a, k)
      else
        let slot = (case grp of IpV4 _ \<Rightarrow> al_group_v4 a | IpV6 _ \<Rightarrow> al_group_v6 a);
            family = (case grp of IpV4 _ \<Rightarrow> DomainV4 | IpV6 _ \<Rightarrow> DomainV6) in
        case group_socket sys slot family k of
          (Inl e, k1) \<Rightarrow> (Inl e, a, k1)
        | (Inr sock, k1) \<Rightarrow>
            let a1 = (case grp of IpV4 _ \<Rightarrow> a\<lparr>al_group_v4 := Some sock\<rparr> | IpV6 _ \<Rightarrow> a\<lparr>al_group_v6 := Some sock\<rparr>) in
            case map_err (Io ''join_multicast'') (sys_join sys sock grp (al_ifindex a)) k1 of (res, k2) \<Rightarrow> (res, a1, k2))"

section \<open>A bound transport is ready\<close>

lemma power_of_two_word: "is_power_of_two w \<Longrightarrow> \<exists>k \<le> 31. unat w = 2 ^ k"
proof -
  assume "is_power_of_two w"
  then obtain k where k: "k < 32" "w = 2 ^ k" by (auto simp: is_power_of_two_def list_ex_iff)
  then have "(2 :: nat) ^ k < 2 ^ 32" by (intro power_strict_increasing) simp_all
  then have "unat (of_nat (2 ^ k) :: u32) = 2 ^ k" unfolding unat_of_nat by simp
  then show ?thesis using k by (intro exI [of _ k]) simp
qed

text \<open>What a validated configuration guarantees to the calls that follow.\<close>

lemma validate_afxdp_bounds:
  assumes "validate_afxdp cfg = Inr ()"
  shows "\<exists>k \<le> 31. unat (ac_frames cfg) = 2 ^ k" "0 < ac_frame_size cfg"
    and "unat (ac_headroom cfg) + 256 < unat (ac_frame_size cfg)"
    and "ac_redirect cfg = Builtin mode \<Longrightarrow> ac_queue cfg < ac_queue cfg + 1"
proof -
  show "\<exists>k \<le> 31. unat (ac_frames cfg) = 2 ^ k"
    using assms by (intro power_of_two_word) (simp add: validate_afxdp_def Let_def split: if_split_asm)
  have fs: "2048 \<le> ac_frame_size cfg" "ac_headroom cfg < ac_frame_size cfg - 256"
    using assms by (simp_all add: validate_afxdp_def MIN_FRAME_SIZE_def XDP_PACKET_HEADROOM_def Let_def not_le not_less split: if_split_asm)
  show "0 < ac_frame_size cfg" using fs(1) by (simp add: word_less_nat_alt word_le_nat_alt)
  show "unat (ac_headroom cfg) + 256 < unat (ac_frame_size cfg)"
    using fs by (simp add: word_less_nat_alt word_le_nat_alt unat_sub)
  show "ac_queue cfg < ac_queue cfg + 1" if "ac_redirect cfg = Builtin mode"
  proof -
    have "(- 1 :: u32) = 0xFFFFFFFF" by simp
    then have "ac_queue cfg \<noteq> - 1" using assms that by (auto simp add: validate_afxdp_def validate_redirect_def Let_def split: if_split_asm)
    then have "1 + ac_queue cfg \<noteq> 0" by (simp add: eq_neg_iff_add_eq_0 add.commute)
    then show ?thesis using unatSuc [of "ac_queue cfg"] by (simp add: word_less_nat_alt add.commute)
  qed
qed

text \<open>
  What the kernel documents of a ring it maps: it starts empty and holds as many entries as the mapped bytes from its
  descriptor offset on.
\<close>

definition fresh_ring :: "nat \<Rightarrow> nat \<Rightarrow> ring_offset \<Rightarrow> 'a ring_mem \<Rightarrow> bool" where
  "fresh_ring sz len off m \<longleftrightarrow> rm_producer m = rm_consumer m \<and> length (rm_desc m) = (len - unat (ro_desc off)) div sz"

definition maps_fresh :: "'k xsk_sys \<Rightarrow> bool" where
  "maps_fresh sys \<longleftrightarrow>
     (\<forall>fd len off k m k'. sys_mmap_fill sys fd len off k = (Inr m, k') \<longrightarrow> fresh_ring 8 len off m)
     \<and> (\<forall>fd len off k m k'. sys_mmap_rx sys fd len off k = (Inr m, k') \<longrightarrow> fresh_ring 16 len off m)"

lemma map_ring_fresh:
  assumes "map_ring mmap off entries sz al k = (Inr m, k')" "0 < sz" "\<exists>j \<le> 31. unat entries = 2 ^ j"
    and "\<And>len k m k'. mmap len off k = (Inr m, k') \<Longrightarrow> fresh_ring sz len off m"
  shows "ring_ok m" "ring_queue m = []" "length (rm_desc m) = unat entries"
proof -
  obtain len k1 where "ring_layout off entries sz al = Inr len" "mmap len off k1 = (Inr m, k')"
    using assms(1) by (auto simp: map_ring_def call_simps)
  then have "fresh_ring sz len off m" "len = unat entries * sz + unat (ro_desc off)"
    using assms(4) by (auto simp: ring_layout_def Let_def split: if_split_asm)
  then show "ring_ok m" "ring_queue m = []" "length (rm_desc m) = unat entries"
    using assms(2,3) by (simp_all add: fresh_ring_def ring_ok_def ring_queue_def circ_def)
qed

text \<open>The first refill puts every chunk address into the fill ring.\<close>

definition chunk_addrs :: "u32 \<Rightarrow> u32 \<Rightarrow> u64 list" where
  "chunk_addrs fs n = map (\<lambda>slot. ucast (of_nat slot :: u32) * ucast fs) (rev [0..<unat n])"

lemma start_fills:
  assumes pool: "index_pool_new alloc n fs = Inr pool"
    and fr: "ring_ok fr" "ring_queue fr = []" "length (rm_desc fr) = unat n"
  shows "ring_queue (kn_fill (xk_kernel (xsk_start fr rx st pool n fs))) = chunk_addrs fs n"
proof -
  have freed: "drain_freed [] pool = ([], pool\<lparr>ip_freed := []\<rparr>)"
    using pool by (auto simp: index_pool_new_def drain_freed_def split: sum.split_asm if_split_asm)
  have "n = of_nat (length (rm_desc fr))" using fr(3) by simp
  then have side: "producer_ok (producer_new fr n) fr" by (simp add: producer_ok_def producer_new_def)
  let ?items = "map (\<lambda>slot. ucast slot * ucast fs) (rev (map of_nat [0..<unat n] :: u32 list)) :: u64 list"
  obtain c left s' m' where p: "produce (producer_new fr n) fr ?items = (c, left, s', m')" by (metis prod_cases4)
  from produce_spec(3) [OF fr(1) side p] have "ring_queue m' = ?items" by (simp add: fr(2,3))
  then show ?thesis
    using p by (simp add: xsk_start_def refill_def rings_new_def freed kernel_turn_def Let_def chunk_addrs_def rev_map o_def)
qed

lemma xsk_open_ready:
  assumes "maps_fresh sys" "validate_afxdp cfg = Inr ()" "xsk_open sys alloc be cfg ifindex k = (Inr (d, link), k')"
  shows "xsk_ok d" "ip_live (xk_pool d) = []" "ring_queue (kn_fill (xk_kernel d)) = chunk_addrs (ac_frame_size cfg) (ac_frames cfg)"
proof -
  note v = validate_afxdp_bounds [OF assms(2)]
  obtain pool fd fr k1 k2 rx k3 k4 and off :: mmap_offsets where pool: "index_pool_new alloc (ac_frames cfg) (ac_frame_size cfg) = Inr pool"
    and fr: "map_ring (sys_mmap_fill sys fd) (mo_fr off) (ac_frames cfg) 8 8 k1 = (Inr fr, k2)"
    and rx: "map_ring (sys_mmap_rx sys fd) (mo_rx off) (ac_frames cfg) 16 8 k3 = (Inr rx, k4)"
    and d: "xsk_start fr rx \<lparr>st_rx_dropped = 0, st_rx_ring_full = 0\<rparr> pool (ac_frames cfg) (ac_frame_size cfg) = d"
    using assms(3) unfolding xsk_open_def Let_def call_simps sum.inject prod.inject by blast
  note f = map_ring_fresh [OF fr _ v(1)] and r = map_ring_fresh [OF rx _ v(1)]
  have fresh: "sys_mmap_fill sys fd len off k = (Inr m, k') \<Longrightarrow> fresh_ring 8 len off m"
    "sys_mmap_rx sys fd len off k = (Inr m', k') \<Longrightarrow> fresh_ring 16 len off m'" for len off k m m' k'
    using assms(1) unfolding maps_fresh_def by blast+
  show "xsk_ok d" "ip_live (xk_pool d) = []"
    unfolding d [symmetric] using f r fresh by (intro start_ok [OF pool v(2)]; simp)+
  show "ring_queue (kn_fill (xk_kernel d)) = chunk_addrs (ac_frame_size cfg) (ac_frames cfg)"
    unfolding d [symmetric] using f fresh by (intro start_fills [OF pool]; simp)+
qed

text \<open>
  C38. Binding the AF_XDP transport. An invalid configuration is refused before any system call. A successful bind leaves a
  driver whose invariant holds, whose fill ring offers the kernel every chunk of the region once, whose frames are as long
  as configured with packet room behind both headrooms, and for which no frame is handed out yet. Mapped rings start
  empty, as the kernel documents.
\<close>

theorem bind_ready:
  assumes "maps_fresh sys" "afxdp_bind sys alloc be m cfg k = (res, k')"
  shows "case res of
      Inl e \<Rightarrow> validate_afxdp cfg \<noteq> Inr () \<longrightarrow> validate_afxdp cfg = Inl e \<and> k' = k
    | Inr a \<Rightarrow>
        let d = bt_driver (al_rx a) in
        validate_afxdp cfg = Inr () \<and> xsk_ok d \<and> ip_live (xk_pool d) = []
        \<and> ring_queue (kn_fill (xk_kernel d)) = chunk_addrs (ac_frame_size cfg) (ac_frames cfg)
        \<and> unat (ac_headroom cfg) + 256 < unat (ac_frame_size cfg)"
proof (cases res)
  case (Inl e)
  then show ?thesis using assms(2) by (auto simp: afxdp_bind_def attempt_lift split: sum.split_asm)
next
  case (Inr a)
  then obtain ifindex d link k1 where v: "validate_afxdp cfg = Inr ()" and o: "xsk_open sys alloc be cfg ifindex k1 = (Inr (d, link), k')"
    and a: "bt_driver (al_rx a) = d"
    using assms(2) by (auto simp: afxdp_bind_def call_simps bypass_new_def)
  show ?thesis using xsk_open_ready [OF assms(1) v o] validate_afxdp_bounds(3) [OF v] v by (simp add: Inr a Let_def)
qed

text \<open>A kernel that numbers descriptors, lays rings out at fixed offsets and logs the \<^verbatim>\<open>bpf()\<close> blocks it is given.\<close>

definition demo_offset :: ring_offset where
  "demo_offset = \<lparr>ro_producer = 0, ro_consumer = 64, ro_desc = 256, ro_flags = 128\<rparr>"

definition demo_sys :: "bpf_attr list xsk_sys" where
  "demo_sys =
     \<lparr>sys_if_nametoindex = (\<lambda>_. lift (Inr 3)), sys_socket = lift (Inr 7), sys_set_opt = (\<lambda>_ _. lift (Inr ())),
      sys_mmap_offsets = (\<lambda>_. lift (Inr (\<lparr>mo_rx = demo_offset, mo_fr = demo_offset\<rparr>, 128))),
      sys_mmap_fill = (\<lambda>_ len off. lift (Inr \<lparr>rm_producer = 0, rm_consumer = 0, rm_flags = 0, rm_desc = replicate ((len - unat (ro_desc off)) div 8) 0\<rparr>)),
      sys_mmap_rx = (\<lambda>_ len off. lift (Inr \<lparr>rm_producer = 0, rm_consumer = 0, rm_flags = 0, rm_desc = replicate ((len - unat (ro_desc off)) div 16) demo_desc\<rparr>)),
      sys_bind = (\<lambda>_ _. lift (Inr ())),
      sys_bpf = (\<lambda>attr log. (Inr (int (length log) + 8, \<lparr>mf_map_type = 17, mf_id = 1, mf_key_size = 4, mf_value_size = 4, mf_max_entries = 4, mf_map_flags = 0\<rparr>),
         log @ [attr])),
      sys_udp_socket = (\<lambda>_. lift (Inr 9)), sys_join = (\<lambda>_ _ _. lift (Inr ()))\<rparr>"

lemma demo_maps_fresh: "maps_fresh demo_sys"
  by (simp add: maps_fresh_def fresh_ring_def demo_sys_def call_simps)

definition demo_config :: afxdp_config where
  "demo_config = (afxdp_config_new [101, 116, 104, 48] 1)\<lparr>ac_frames := 2\<rparr>"

lemmas call_defs = attempt_def map_err_def lift_def

lemma demo_install: "\<exists>log. install demo_sys False (Builtin Skb) 3 1 7 [] = (Inr (Some 11), log) \<and> length log = 4"
  by (simp add: install_def xskmap_create_def xskmap_insert_def load_program_def prog_load_def link_attach_def bpf_fd_def demo_sys_def
      call_defs Let_def)

lemma demo_open:
  "\<exists>d log. xsk_open demo_sys (\<lambda>_ _. True) False demo_config 3 [] = (Inr (d, Some 11), log) \<and> length log = 4"
proof -
  have "\<exists>pool. index_pool_new (\<lambda>_ _. True) 2 2048 = Inr pool"
    by (simp add: index_pool_new_def checked_product_def zeroed_def checked_next_multiple_of_def layout_ok_def usize_max_def isize_max_def
        ALIGN_def)
  then show ?thesis
    using demo_install
    by (auto simp: xsk_open_def register_umem_def mmap_offsets_def map_ring_def ring_layout_def word_ok_def bind_queue_def
        demo_config_def afxdp_config_new_def RING_SIZES_def demo_sys_def demo_offset_def call_defs usize_max_def Let_def)
qed

theorem bind_ready_witness:
  "case afxdp_bind demo_sys (\<lambda>_ _. True) False \<lparr>recv_packets = (\<lambda>_. 0), recv_bytes = (\<lambda>_. 0), recv_drops = (\<lambda>_ _. 0)\<rparr> demo_config [] of
     (Inl _, _) \<Rightarrow> False
   | (Inr a, log) \<Rightarrow> ring_queue (kn_fill (xk_kernel (bt_driver (al_rx a)))) = [2048, 0] \<and> length log = 4"
  (is "case ?bind of (Inl _, _) \<Rightarrow> _ | (Inr a, log) \<Rightarrow> ?P a log")
proof -
  have "validate_afxdp demo_config = Inr ()"
    by (simp add: validate_afxdp_def validate_redirect_def demo_config_def afxdp_config_new_def IFNAMSIZ_def is_power_of_two_def
        MIN_FRAME_SIZE_def XDP_PACKET_HEADROOM_def upt_rec)
  moreover have "ifindex_of demo_sys (ac_ifname demo_config) [] = (Inr 3, [])"
    by (simp add: ifindex_of_def demo_config_def afxdp_config_new_def demo_sys_def call_defs)
  ultimately obtain a log where bind: "?bind = (Inr a, log)" "length log = 4"
    using demo_open by (auto simp: afxdp_bind_def call_defs)
  have "chunk_addrs (ac_frame_size demo_config) (ac_frames demo_config) = [2048, 0]"
    by (simp add: chunk_addrs_def demo_config_def afxdp_config_new_def upt_rec)
  with bind_ready [OF demo_maps_fresh bind(1)] bind show ?thesis by (simp add: Let_def)
qed

end
