(* ===== verification/Socket_Recv.thy ===== *)
theory Socket_Recv
  imports Pools Bypass Sys_Calls
begin

text \<open>
  Datagram receive over kernel sockets: the burst loop of \<^verbatim>\<open>crates/transports/socket/src/recv.rs\<close> that every UDP type shares, and
  the types over it (\<^verbatim>\<open>UdpSocket\<close>, \<^verbatim>\<open>AsyncUdp\<close>, \<^verbatim>\<open>MioUdp\<close>), on Linux. \<^verbatim>\<open>socket2\<close> is the parameter \<open>udp_io\<close>: one function per
  call, over the kernel state \<open>'k\<close>. What the kernel documents of these calls is \<open>udp_contract\<close>: a receive takes the next
  arrival, a datagram or a pending error, and a call that would block takes none.
\<close>

section \<open>Frames and the socket\<close>

definition NO_PEER :: socket_addr where
  "NO_PEER = AddrV4 0 0 0 0 0"

record udp_frame =
  uf_slab :: vec_slab
  uf_peer :: socket_addr

definition udp_bytes :: "udp_frame \<Rightarrow> bytes" where
  "udp_bytes f = slab_bytes (uf_slab f)"

text \<open>
  \<open>recv_from cap\<close> is \<^verbatim>\<open>recvfrom\<close> with \<^verbatim>\<open>MSG_TRUNC\<close> into \<open>cap\<close> bytes: the bytes written, the length of the whole datagram and
  the sender, when it is an IP address.
\<close>

record 'k udp_io =
  recv_from :: "nat \<Rightarrow> ('k, io_error, bytes \<times> nat \<times> socket_addr option) call"
  peek_sender :: "('k, io_error, unit) call"
  sys_send_to :: "bytes \<Rightarrow> socket_addr \<Rightarrow> ('k, io_error, nat) call"

text \<open>The receive metrics of the process are the last field.\<close>

record 'k udp_socket =
  us_sock :: 'k
  us_pool :: vec_pool
  us_deferred :: "transport_error option"
  us_metrics :: metrics

section \<open>The burst loop\<close>

definition datagram :: "'k udp_io \<Rightarrow> nat \<Rightarrow> ('k, io_error, bytes \<times> nat \<times> bool \<times> socket_addr option) call" where
  "datagram io cap = attempt (recv_from io cap) (\<lambda>(bs, len, from). lift (Inr (bs, min len cap, cap < len, from)))"

definition peek_ready :: "'k udp_io \<Rightarrow> ('k, io_error, unit) call" where
  "peek_ready io = peek_sender io"

definition exhausted :: "'k udp_io \<Rightarrow> vec_pool \<Rightarrow> ('k, transport_error, nat) call" where
  "exhausted io pool k =
     (case peek_ready io k of
        (Inr _, k') \<Rightarrow>
          let st = vec_pool_stats pool in (Inl (PoolExhausted (ps_in_use st) (ps_capacity st)), k')
      | (Inl e, k') \<Rightarrow> if error_kind e = WouldBlock then (Inr 0, k') else (Inl (Io ''peek'' e), k'))"

type_synonym 'k burst_result = "(transport_error + nat) \<times> 'k udp_socket \<times> udp_frame frame_batch"

definition burst_done :: "string \<Rightarrow> bool \<Rightarrow> nat \<Rightarrow> u64 \<Rightarrow> 'k udp_socket \<Rightarrow> udp_frame frame_batch \<Rightarrow> 'k burst_result" where
  "burst_done name gate pushed bs u out =
     (Inr pushed, u\<lparr>us_metrics := record_recv_burst gate name (of_nat pushed) bs (us_metrics u)\<rparr>, out)"

text \<open>
  The loop returns at once, or goes on with a new socket and batch. A slab that takes no frame goes back to the pool.
\<close>

datatype 'k burst_pass = Return "'k burst_result" | Continue nat u64 "'k udp_socket" "udp_frame frame_batch"

definition burst_step ::
  "string \<Rightarrow> 'k udp_io \<Rightarrow> bool \<Rightarrow> nat \<Rightarrow> u64 \<Rightarrow> 'k udp_socket \<Rightarrow> udp_frame frame_batch \<Rightarrow> 'k burst_pass" where
  "burst_step name io gate pushed bs u out =
     (if spare out = 0 then Return (burst_done name gate pushed bs u out)
      else case acquire (us_pool u) of
        (None, pool) \<Rightarrow>
          if pushed = 0 then (case exhausted io pool (us_sock u) of (res, k) \<Rightarrow> Return (res, u\<lparr>us_sock := k\<rparr>, out))
          else Return (burst_done name gate pushed bs u out)
      | (Some slab, pool) \<Rightarrow>
          (case datagram io (length (vs_buf slab)) (us_sock u) of
             (Inr (written, len, trunc, from), k) \<Rightarrow>
               let slab = fill_buf written slab in
               if trunc then
                 Continue pushed bs
                   (u\<lparr>us_sock := k, us_pool := drop_slab slab pool, us_metrics := record_drops gate name DropTruncated 1 (us_metrics u)\<rparr>) out
               else
                 Continue (pushed + 1) (bs + of_nat len) (u\<lparr>us_sock := k, us_pool := pool\<rparr>)
                   (batch_push \<lparr>uf_slab = set_len len slab, uf_peer = (case from of None \<Rightarrow> NO_PEER | Some a \<Rightarrow> a)\<rparr> out)
           | (Inl e, k) \<Rightarrow>
               let u = u\<lparr>us_sock := k, us_pool := drop_slab slab pool\<rparr> in
               if error_kind e = WouldBlock then Return (burst_done name gate pushed bs u out)
               else if pushed = 0 then Return (Inl (Io ''recv_from'' e), u, out)
               else Return (burst_done name gate pushed bs (u\<lparr>us_deferred := Some (Io ''recv_from'' e)\<rparr>) out)))"

text \<open>A kernel that hands out cut datagrams without end keeps the loop running: \<open>None\<close>.\<close>

partial_function (option) burst_loop ::
  "string \<Rightarrow> 'k udp_io \<Rightarrow> bool \<Rightarrow> nat \<Rightarrow> u64 \<Rightarrow> 'k udp_socket \<Rightarrow> udp_frame frame_batch \<Rightarrow> 'k burst_result option" where
  "burst_loop name io gate pushed bs u out =
     (case burst_step name io gate pushed bs u out of
        Return r \<Rightarrow> Some r
      | Continue pushed' bs' u' out' \<Rightarrow> burst_loop name io gate pushed' bs' u' out')"

definition burst :: "string \<Rightarrow> 'k udp_io \<Rightarrow> bool \<Rightarrow> 'k udp_socket \<Rightarrow> udp_frame frame_batch \<Rightarrow> 'k burst_result option" where
  "burst name io gate u out =
     (case us_deferred u of
        Some e \<Rightarrow> Some (Inl e, u\<lparr>us_deferred := None\<rparr>, out)
      | None \<Rightarrow> burst_loop name io gate 0 0 u out)"

section \<open>The UDP types\<close>

definition UDP_NAME :: string where "UDP_NAME = ''udp''"
definition TOKIO_UDP_NAME :: string where "TOKIO_UDP_NAME = ''tokio-udp''"
definition MIO_UDP_NAME :: string where "MIO_UDP_NAME = ''mio-udp''"

definition udp_recv_burst :: "'k udp_io \<Rightarrow> bool \<Rightarrow> 'k udp_socket \<Rightarrow> udp_frame frame_batch \<Rightarrow> 'k burst_result option" where
  "udp_recv_burst io gate u out = burst UDP_NAME io gate u out"

definition async_recv_burst :: "'k udp_io \<Rightarrow> bool \<Rightarrow> 'k udp_socket \<Rightarrow> udp_frame frame_batch \<Rightarrow> 'k burst_result option" where
  "async_recv_burst io gate u out = burst TOKIO_UDP_NAME io gate u out"

text \<open>\<^verbatim>\<open>try_io\<close> of \<^verbatim>\<open>mio\<close> runs a call and, on Windows, re-arms interest when it would block.\<close>

definition mio_recv_burst ::
  "(('k, io_error, bytes \<times> nat \<times> socket_addr option) call \<Rightarrow> ('k, io_error, bytes \<times> nat \<times> socket_addr option) call)
   \<Rightarrow> (('k, io_error, unit) call \<Rightarrow> ('k, io_error, unit) call)
   \<Rightarrow> 'k udp_io \<Rightarrow> bool \<Rightarrow> 'k udp_socket \<Rightarrow> udp_frame frame_batch \<Rightarrow> 'k burst_result option" where
  "mio_recv_burst try_recv try_peek io gate u out =
     burst MIO_UDP_NAME (io\<lparr>recv_from := \<lambda>cap. try_recv (recv_from io cap), peek_sender := try_peek (peek_sender io)\<rparr>) gate u out"

text \<open>The wrapped error keeps the OS error inside; its own kind is \<^verbatim>\<open>WouldBlock\<close> and it has no errno.\<close>

definition sent :: "io_error + nat \<Rightarrow> transport_error + nat" where
  "sent result =
     (case result of
        Inr n \<Rightarrow> Inr n
      | Inl e \<Rightarrow> Inl (Io ''send_to'' (if raw_os_error e = Some ENOBUFS then IoError WouldBlock None else e)))"

definition udp_send_to :: "'k udp_io \<Rightarrow> 'k udp_socket \<Rightarrow> bytes \<Rightarrow> socket_addr \<Rightarrow> (transport_error + nat) \<times> 'k udp_socket" where
  "udp_send_to io u buf to =
     (case sys_send_to io buf to (us_sock u) of (r, k) \<Rightarrow> (sent r, u\<lparr>us_sock := k\<rparr>))"

text \<open>
  \<^verbatim>\<open>AsyncUdp::ready\<close>: \<open>readable\<close> awaits the reactor, \<open>None\<close> while it never reports. \<open>clear\<close> is what \<^verbatim>\<open>try_io\<close> of \<^verbatim>\<open>tokio\<close> does when
  its call would block: the cached readiness is dropped.
\<close>

partial_function (option) udp_ready ::
  "('k \<Rightarrow> ((io_error + unit) \<times> 'k) option) \<Rightarrow> ('k \<Rightarrow> 'k) \<Rightarrow> 'k udp_io \<Rightarrow> 'k \<Rightarrow> ((transport_error + unit) \<times> 'k) option" where
  "udp_ready readable clear io k =
     (case readable k of
        None \<Rightarrow> None
      | Some (Inl e, k1) \<Rightarrow> Some (Inl (Io ''readable'' e), k1)
      | Some (Inr _, k1) \<Rightarrow>
          (case peek_ready io k1 of
             (Inr _, k2) \<Rightarrow> Some (Inr (), k2)
           | (Inl e, k2) \<Rightarrow>
               if error_kind e = WouldBlock then udp_ready readable clear io (clear k2)
               else Some (Inl (Io ''peek'' e), k2)))"

end
