(* ===== verification/Socket_Delivery.thy ===== *)
theory Socket_Delivery
  imports Socket_Recv
begin

text \<open>
  What the datagram receive loop guarantees over a kernel that keeps \<open>udp_contract\<close>: the arrivals that fit a slab reach the
  client once, in order, errors in their place among the datagrams, and every slab stays accounted for.
\<close>

section \<open>What the kernel promises\<close>

datatype arrival = Datagram bytes "socket_addr option" | Fault io_error

definition udp_contract :: "('k, 'z) udp_io_scheme \<Rightarrow> ('k \<Rightarrow> arrival list) \<Rightarrow> bool" where
  "udp_contract io coming \<longleftrightarrow>
     (\<forall>cap k bs len from k'. recv_from io cap k = (Inr (bs, len, from), k') \<longrightarrow>
        (\<exists>d. coming k = Datagram d from # coming k' \<and> len = length d \<and> bs = take cap d))
     \<and> (\<forall>cap k e k'. recv_from io cap k = (Inl e, k') \<longrightarrow>
          coming k = (if error_kind e = WouldBlock then coming k' else Fault e # coming k'))
     \<and> (\<forall>k k'. peek_sender io k = (Inr (), k') \<longrightarrow> coming k' = coming k \<and> (\<exists>d from rest. coming k = Datagram d from # rest))
     \<and> (\<forall>k e k'. peek_sender io k = (Inl e, k') \<longrightarrow>
          coming k = (if error_kind e = WouldBlock then coming k' else Fault e # coming k'))"

text \<open>What the client may see of the arrivals: those that fit a slab, and the errors.\<close>

definition fits :: "nat \<Rightarrow> arrival \<Rightarrow> bool" where
  "fits sz a = (case a of Datagram d _ \<Rightarrow> length d \<le> sz | Fault _ \<Rightarrow> True)"

definition peer_of :: "socket_addr option \<Rightarrow> socket_addr" where
  "peer_of from = (case from of None \<Rightarrow> NO_PEER | Some a \<Rightarrow> a)"

datatype seen = SeenFrame bytes socket_addr | SeenError io_error

fun as_seen :: "arrival \<Rightarrow> seen" where
  "as_seen (Datagram d from) = SeenFrame d (peer_of from)"
| "as_seen (Fault e) = SeenError e"

definition seen_frames :: "udp_frame list \<Rightarrow> seen list" where
  "seen_frames fs = map (\<lambda>f. SeenFrame (udp_bytes f) (uf_peer f)) fs"

definition seen_error :: "transport_error option \<Rightarrow> seen list" where
  "seen_error e = (case e of Some (Io _ err) \<Rightarrow> [SeenError err] | _ \<Rightarrow> [])"

definition result_error :: "transport_error + 'a \<Rightarrow> transport_error option" where
  "result_error r = (case r of Inl e \<Rightarrow> Some e | Inr _ \<Rightarrow> None)"

section \<open>One call\<close>

definition burst_moves ::
  "('k \<Rightarrow> arrival list) \<Rightarrow> string \<Rightarrow> bool \<Rightarrow> nat \<Rightarrow> 'k udp_socket \<Rightarrow> arrival list \<Rightarrow> udp_frame list \<Rightarrow> 'k udp_socket \<Rightarrow> bool" where
  "burst_moves coming name gate sz u taken fs u' \<longleftrightarrow>
     coming (us_sock u) = taken @ coming (us_sock u')
     \<and> vec_pool_ok sz (us_pool u') \<and> vp_live (us_pool u') = vp_live (us_pool u) + length fs
     \<and> vp_capacity (us_pool u') = vp_capacity (us_pool u)
     \<and> (\<forall>f \<in> set fs. slab_ok sz (uf_slab f))
     \<and> recv_drops (us_metrics u') name DropTruncated
         = recv_drops (us_metrics u) name DropTruncated + (if gate then of_nat (length (filter (\<lambda>a. \<not> fits sz a) taken)) else 0)"

text \<open>The result counts the frames pushed; an error comes with none and leaves none behind.\<close>

definition counted :: "transport_error + nat \<Rightarrow> nat \<Rightarrow> udp_frame list \<Rightarrow> 'k udp_socket \<Rightarrow> bool" where
  "counted res pushed fs u = (case res of Inr n \<Rightarrow> n = pushed + length fs | Inl _ \<Rightarrow> pushed = 0 \<and> fs = [] \<and> us_deferred u = None)"

lemma burst_moves_trans:
  "burst_moves coming name gate sz u ts fs u1 \<Longrightarrow> burst_moves coming name gate sz u1 ts' fs' u2 \<Longrightarrow>
   burst_moves coming name gate sz u (ts @ ts') (fs @ fs') u2"
  by (auto simp: burst_moves_def)

lemma drop_acquired:
  assumes "vec_pool_ok sz p" "acquire p = (Some s, p')" "length (vs_buf s') = sz"
  shows "vec_pool_ok sz (drop_slab s' p')" "vp_live (drop_slab s' p') = vp_live p" "vp_capacity (drop_slab s' p') = vp_capacity p"
    "vp_live p' = vp_live p + 1" "vp_capacity p' = vp_capacity p"
proof -
  have l: "vp_live p' = vp_live p + 1" "vp_capacity p' = vp_capacity p" using assms(2) by (auto simp: acquire_def split: if_split_asm)
  then show "vp_live (drop_slab s' p') = vp_live p" "vp_capacity (drop_slab s' p') = vp_capacity p"
    "vp_live p' = vp_live p + 1" "vp_capacity p' = vp_capacity p" by (simp_all add: drop_slab_def)
  show "vec_pool_ok sz (drop_slab s' p')"
    using acquire_Some(1) [OF assms(1,2)] l assms(3) by (auto simp: drop_slab_def vec_pool_ok_def)
qed

lemma record_recv_drops [simp]: "recv_drops (record_recv_burst gate name n bs m) = recv_drops m"
  by (simp add: record_recv_burst_def)

lemma record_drops_one:
  "recv_drops (record_drops gate name r 1 m) name r = recv_drops m name r + (if gate then 1 else 0)"
  by (simp add: record_drops_def)

lemma udp_contractD:
  assumes "udp_contract io coming"
  shows "recv_from io cap k = (Inr (bs, len, from), k') \<Longrightarrow>
      \<exists>d. coming k = Datagram d from # coming k' \<and> len = length d \<and> bs = take cap d"
    and "recv_from io cap k = (Inl e, k') \<Longrightarrow> coming k = (if error_kind e = WouldBlock then coming k' else Fault e # coming k')"
    and "peek_sender io k = (Inr (), k') \<Longrightarrow> coming k' = coming k \<and> (\<exists>d from rest. coming k = Datagram d from # rest)"
    and "peek_sender io k = (Inl e, k') \<Longrightarrow> coming k = (if error_kind e = WouldBlock then coming k' else Fault e # coming k')"
  using assms unfolding udp_contract_def by blast+

lemma datagram_contract:
  assumes "udp_contract io coming" "datagram io cap k = (Inr (bs, len, trunc, from), k')"
  obtains d where "coming k = Datagram d from # coming k'" "bs = take cap d" "trunc \<longleftrightarrow> cap < length d" "len = min (length d) cap"
proof -
  obtain n where n: "recv_from io cap k = (Inr (bs, n, from), k')" "len = min n cap" "trunc \<longleftrightarrow> cap < n"
    using assms(2) by (auto simp: datagram_def call_simps)
  from udp_contractD(1) [OF assms(1) n(1)] n(2,3) that show ?thesis by blast
qed

lemma datagram_fails:
  assumes "udp_contract io coming" "datagram io cap k = (Inl e, k')"
  shows "coming k = (if error_kind e = WouldBlock then coming k' else Fault e # coming k')"
  using assms(2) by (intro udp_contractD(2) [OF assms(1)]) (auto simp: datagram_def call_simps split: prod.split_asm)

lemma burst_step_continue:
  assumes c: "udp_contract io coming" and ok: "vec_pool_ok sz (us_pool u)"
    and s: "burst_step name io gate pushed bs u out = Continue pushed' bs' u' out'"
  shows "\<exists>a fs. burst_moves coming name gate sz u [a] fs u' \<and> extends_batch out fs out' \<and> pushed' = pushed + length fs
    \<and> us_deferred u' = us_deferred u \<and> seen_frames fs = map as_seen (filter (fits sz) [a])"
proof -
  obtain slab pool where q: "acquire (us_pool u) = (Some slab, pool)" and sp: "0 < spare out"
    using s by (auto simp: burst_step_def burst_done_def split: if_split_asm prod.split_asm option.split_asm)
  note slab = acquire_Some [OF ok q]
  have buf: "length (vs_buf slab) = sz" using slab(2) by (simp add: slab_ok_def)
  obtain written len trunc "from" k where d: "datagram io sz (us_sock u) = (Inr (written, len, trunc, from), k)"
    using s q sp buf by (auto simp: burst_step_def burst_done_def Let_def split: if_split_asm prod.split_asm sum.split_asm)
  obtain d where g: "coming (us_sock u) = Datagram d from # coming k" "written = take sz d" "trunc \<longleftrightarrow> sz < length d" "len = min (length d) sz"
    by (rule datagram_contract [OF c d])
  show ?thesis
  proof (cases trunc)
    case True
    have "length (vs_buf (fill_buf written slab)) = sz" using buf by (simp add: fill_buf_def g(2))
    note p = drop_acquired [OF ok q this]
    show ?thesis
      using s q sp buf d True p g
      by (intro exI [of _ "Datagram d from"] exI [of _ "[]"])
         (auto simp: burst_step_def burst_moves_def fits_def record_drops_one seen_frames_def)
  next
    case False
    let ?f = "\<lparr>uf_slab = set_len len (fill_buf written slab), uf_peer = peer_of from\<rparr>"
    have d_le: "length d \<le> sz" "written = d" "len = length d" using False g by simp_all
    have b: "udp_bytes ?f = d" "slab_ok sz (uf_slab ?f)"
      using filled_bytes [OF slab(2) d_le(1)] set_len_ok [OF fill_buf_ok [OF slab(2) d_le(1)]] d_le by (simp_all add: udp_bytes_def)
    have eq: "u' = u\<lparr>us_sock := k, us_pool := pool\<rparr>" "out' = batch_push ?f out" "pushed' = pushed + 1"
      using s q sp buf d False by (simp_all add: burst_step_def peer_of_def Let_def)
    show ?thesis
      using drop_acquired(4,5) [OF ok q buf] slab(1) b g(1) d_le sp extends_batch_push [OF extends_batch_nil, of out ?f]
      by (intro exI [of _ "Datagram d from"] exI [of _ "[?f]"])
         (simp add: eq burst_moves_def fits_def seen_frames_def)
  qed
qed

lemma exhausted_contract:
  assumes "udp_contract io coming" "exhausted io pool k = (r, k')"
  shows "\<exists>taken. coming k = taken @ coming k' \<and> filter (\<lambda>a. \<not> fits sz a) taken = []
    \<and> seen_error (result_error r) = map as_seen (filter (fits sz) taken) \<and> (case r of Inr n \<Rightarrow> n = 0 | Inl _ \<Rightarrow> True)"
proof (cases "peek_sender io k")
  case (Pair p k1)
  show ?thesis
  proof (cases p)
    case (Inl e)
    have c: "coming k = (if error_kind e = WouldBlock then coming k1 else Fault e # coming k1)"
      using Pair Inl by (intro udp_contractD(4) [OF assms(1)]) simp
    show ?thesis
    proof (cases "error_kind e = WouldBlock")
      case True
      then have "r = Inr 0" "k' = k1" using assms(2) Pair Inl by (simp_all add: exhausted_def peek_ready_def)
      with True c show ?thesis by (intro exI [of _ "[]"]) (simp add: seen_error_def result_error_def)
    next
      case False
      then have "r = Inl (Io ''peek'' e)" "k' = k1" using assms(2) Pair Inl by (simp_all add: exhausted_def peek_ready_def)
      with False c show ?thesis by (intro exI [of _ "[Fault e]"]) (simp add: seen_error_def result_error_def fits_def)
    qed
  next
    case (Inr x)
    have c: "coming k1 = coming k" by (rule udp_contractD(3) [OF assms(1), THEN conjunct1]) (simp add: Pair Inr)
    have "k' = k1" "r = Inl (PoolExhausted (ps_in_use (vec_pool_stats pool)) (ps_capacity (vec_pool_stats pool)))"
      using assms(2) Pair Inr by (simp_all add: exhausted_def peek_ready_def Let_def)
    with c show ?thesis by (intro exI [of _ "[]"]) (simp add: seen_error_def result_error_def)
  qed
qed

lemma burst_step_return:
  assumes c: "udp_contract io coming" and ok: "vec_pool_ok sz (us_pool u)" and def: "us_deferred u = None"
    and s: "burst_step name io gate pushed bs u out = Return (res, u', out')"
  shows "out' = out \<and> (\<exists>taken. burst_moves coming name gate sz u taken [] u'
      \<and> seen_error (result_error res) @ seen_error (us_deferred u') = map as_seen (filter (fits sz) taken))
    \<and> counted res pushed [] u'"
proof -
  have stay: "burst_moves coming name gate sz u [] [] u" using ok by (simp add: burst_moves_def)
  consider (full) "spare out = 0" | (empty) pool where "0 < spare out" "acquire (us_pool u) = (None, pool)"
    | (recv) slab pool where "0 < spare out" "acquire (us_pool u) = (Some slab, pool)"
    by (metis (no_types) gr0I not_Some_eq prod.collapse)
  then show ?thesis
  proof cases
    case full
    then show ?thesis
      using s stay def by (auto simp: burst_step_def burst_done_def burst_moves_def counted_def result_error_def seen_error_def intro!: exI [of _ "[]"])
  next
    case empty
    show ?thesis
    proof (cases "pushed = 0")
      case True
      obtain r k where x: "exhausted io pool (us_sock u) = (r, k)" by fastforce
      have eq: "res = r" "u' = u\<lparr>us_sock := k\<rparr>" "out' = out" using s empty True x by (simp_all add: burst_step_def)
      obtain taken where "coming (us_sock u) = taken @ coming k" "filter (\<lambda>a. \<not> fits sz a) taken = []"
        "seen_error (result_error r) = map as_seen (filter (fits sz) taken)" "case r of Inr n \<Rightarrow> n = 0 | Inl _ \<Rightarrow> True"
        using exhausted_contract [OF c x] by blast
      then show ?thesis
        using ok def True
        by (intro conjI exI [of _ taken]) (simp_all add: eq burst_moves_def counted_def seen_error_def [of None] split: sum.split_asm)
    next
      case False
      then show ?thesis
        using s empty stay def
        by (auto simp: burst_step_def burst_done_def burst_moves_def counted_def result_error_def seen_error_def intro!: exI [of _ "[]"])
    qed
  next
    case recv
    have buf: "length (vs_buf slab) = sz" using acquire_Some(2) [OF ok recv(2)] by (simp add: slab_ok_def)
    obtain e k where d: "datagram io sz (us_sock u) = (Inl e, k)"
      using s recv buf by (auto simp: burst_step_def Let_def split: if_split_asm prod.split_asm sum.split_asm)
    note p = drop_acquired [OF ok recv(2) buf] and g = datagram_fails [OF c d]
    show ?thesis
    proof (cases "error_kind e = WouldBlock")
      case True
      then show ?thesis
        using s recv buf d g p def
        by (auto simp: burst_step_def burst_done_def burst_moves_def counted_def result_error_def seen_error_def intro!: exI [of _ "[]"])
    next
      case False
      show ?thesis
      proof (cases "pushed = 0")
        case True
        then show ?thesis
          using False s recv buf d g p def
          by (intro conjI exI [of _ "[Fault e]"])
             (auto simp: burst_step_def burst_moves_def counted_def result_error_def seen_error_def fits_def Let_def)
      next
        case pushed: False
        then show ?thesis
          using False s recv buf d g p def
          by (intro conjI exI [of _ "[Fault e]"])
             (auto simp: burst_step_def burst_done_def burst_moves_def counted_def result_error_def seen_error_def fits_def Let_def)
      qed
    qed
  qed
qed

lemma burst_loop_spec:
  assumes c: "udp_contract io coming" and "vec_pool_ok sz (us_pool u)" "us_deferred u = None"
  shows "\<exists>res u' out' taken fs. burst_loop name io gate pushed bs u out = Some (res, u', out')
    \<and> burst_moves coming name gate sz u taken fs u' \<and> extends_batch out fs out'
    \<and> seen_frames fs @ seen_error (result_error res) @ seen_error (us_deferred u') = map as_seen (filter (fits sz) taken)
    \<and> counted res pushed fs u'"
  using assms(2,3)
proof (induction "length (coming (us_sock u))" arbitrary: pushed bs u out rule: less_induct)
  case less
  show ?case
  proof (cases "burst_step name io gate pushed bs u out")
    case (Return r)
    obtain res u' out' where r: "r = (res, u', out')" by (cases r)
    have loop: "burst_loop name io gate pushed bs u out = Some (res, u', out')"
      by (simp add: burst_loop.simps [of name io gate pushed bs u out] Return r)
    from burst_step_return [OF c less.prems Return [unfolded r]] obtain taken where "out' = out" "counted res pushed [] u'"
      "burst_moves coming name gate sz u taken [] u'"
      "seen_error (result_error res) @ seen_error (us_deferred u') = map as_seen (filter (fits sz) taken)" by blast
    with loop show ?thesis
      by (intro exI [of _ res] exI [of _ u'] exI [of _ out'] exI [of _ taken] exI [of _ "[]"]) (simp add: seen_frames_def)
  next
    case (Continue pushed1 bs1 u1 out1)
    obtain a fs1 where m1: "burst_moves coming name gate sz u [a] fs1 u1" "extends_batch out fs1 out1" "pushed1 = pushed + length fs1"
      "us_deferred u1 = us_deferred u" "seen_frames fs1 = map as_seen (filter (fits sz) [a])"
      using burst_step_continue [OF c less.prems(1) Continue] by blast
    have "length (coming (us_sock u1)) < length (coming (us_sock u))" "vec_pool_ok sz (us_pool u1)" "us_deferred u1 = None"
      using m1(1,4) less.prems(2) by (simp_all add: burst_moves_def)
    from less.hyps [OF this, of pushed1 bs1 out1] obtain res u' out' taken fs
      where l: "burst_loop name io gate pushed1 bs1 u1 out1 = Some (res, u', out')"
        and m2: "burst_moves coming name gate sz u1 taken fs u'" "extends_batch out1 fs out'"
        and e: "seen_frames fs @ seen_error (result_error res) @ seen_error (us_deferred u') = map as_seen (filter (fits sz) taken)"
        and r: "counted res pushed1 fs u'"
      by blast
    have loop: "burst_loop name io gate pushed bs u out = Some (res, u', out')"
      by (simp add: burst_loop.simps [of name io gate pushed bs u out] Continue l)
    have "seen_frames (fs1 @ fs) @ seen_error (result_error res) @ seen_error (us_deferred u') = map as_seen (filter (fits sz) ([a] @ taken))"
      using e m1(5) by (simp add: seen_frames_def)
    moreover have "counted res pushed (fs1 @ fs) u'" using r m1(3) by (simp add: counted_def split: sum.split_asm)
    ultimately show ?thesis
      using loop burst_moves_trans [OF m1(1) m2(1)] extends_batch_trans [OF m1(2) m2(2)]
      by (intro exI [of _ res] exI [of _ u'] exI [of _ out'] exI [of _ "[a] @ taken"] exI [of _ "fs1 @ fs"]) (intro conjI)
  qed
qed

section \<open>Readiness\<close>

text \<open>\<^verbatim>\<open>ready\<close> resolves only on a socket that has a datagram queued, never on a drained one.\<close>

lemmas udp_ready_induct = udp_ready.raw_induct [rotated]

lemma ready_sound:
  assumes "udp_ready readable clear io k = Some (Inr (), k')" "udp_contract io coming"
  shows "\<exists>d from rest. coming k' = Datagram d from # rest"
proof -
  let ?P = "\<lambda>i k (r :: transport_error + unit, k'). i = io \<and> r = Inr () \<longrightarrow> (\<exists>d from rest. coming k' = Datagram d from # rest)"
  have "?P io k (Inr (), k')"
  proof (rule udp_ready_induct [where P = "\<lambda>_ _. ?P", OF assms(1)])
    fix aw rd cl i k y
    assume ih: "\<And>rd cl i k y. aw rd cl i k = Some y \<Longrightarrow> ?P i k y"
      and step: "(case rd k of None \<Rightarrow> None | Some (Inl e, k1) \<Rightarrow> Some (Inl (Io ''readable'' e), k1)
        | Some (Inr _, k1) \<Rightarrow> (case peek_ready i k1 of
            (Inr _, k2) \<Rightarrow> Some (Inr (), k2)
          | (Inl e, k2) \<Rightarrow> if error_kind e = WouldBlock then aw rd cl i (cl k2) else Some (Inl (Io ''peek'' e), k2))) = Some y"
    have peeked: "coming k2 = coming k1 \<and> (\<exists>d from rest. coming k1 = Datagram d from # rest)" if "peek_ready io k1 = (Inr (), k2)" for k1 k2
      using that by (intro udp_contractD(3) [OF assms(2)]) (simp add: peek_ready_def)
    show "?P i k y"
      using step by (auto split: option.split_asm prod.split_asm sum.split_asm if_split_asm dest: ih peeked)
  qed
  then show ?thesis by simp
qed

section \<open>A run of a client\<close>

text \<open>
  The client calls \<^verbatim>\<open>recv_burst\<close> and drops frames it holds in any order, and the kernel works in between without undoing what
  is to come. \<open>log\<close> is what the client has seen, in order.
\<close>

inductive udp_trace ::
  "'k udp_io \<Rightarrow> ('k \<Rightarrow> arrival list) \<Rightarrow> string \<Rightarrow> bool \<Rightarrow> 'k udp_socket \<Rightarrow> 'k udp_socket \<Rightarrow> udp_frame list \<Rightarrow> seen list \<Rightarrow> bool"
  for io coming name gate u0 where
  bound: "udp_trace io coming name gate u0 u0 [] []"
| recv: "udp_trace io coming name gate u0 u held log \<Longrightarrow> burst name io gate u out = Some (res, u', out') \<Longrightarrow>
    fb_frames out' = fb_frames out @ fs \<Longrightarrow>
    udp_trace io coming name gate u0 u' (held @ fs) (log @ seen_frames fs @ seen_error (result_error res))"
| drop: "udp_trace io coming name gate u0 u held log \<Longrightarrow> f \<in> set held \<Longrightarrow>
    udp_trace io coming name gate u0 (u\<lparr>us_pool := drop_slab (uf_slab f) (us_pool u)\<rparr>) (remove1 f held) log"
| kernel: "udp_trace io coming name gate u0 u held log \<Longrightarrow> coming k = coming (us_sock u) \<Longrightarrow>
    udp_trace io coming name gate u0 (u\<lparr>us_sock := k\<rparr>) held log"

definition run_ok ::
  "('k \<Rightarrow> arrival list) \<Rightarrow> string \<Rightarrow> bool \<Rightarrow> nat \<Rightarrow> 'k udp_socket \<Rightarrow> 'k udp_socket \<Rightarrow> udp_frame list \<Rightarrow> seen list \<Rightarrow> arrival list \<Rightarrow> bool" where
  "run_ok coming name gate sz u0 u held log taken \<longleftrightarrow>
     coming (us_sock u0) = taken @ coming (us_sock u)
     \<and> log @ seen_error (us_deferred u) = map as_seen (filter (fits sz) taken)
     \<and> recv_drops (us_metrics u) name DropTruncated = recv_drops (us_metrics u0) name DropTruncated
         + (if gate then of_nat (length (filter (\<lambda>a. \<not> fits sz a) taken)) else 0)
     \<and> vec_pool_ok sz (us_pool u) \<and> vp_capacity (us_pool u) = vp_capacity (us_pool u0)
     \<and> vp_live (us_pool u) = length held \<and> (\<forall>f \<in> set held. slab_ok sz (uf_slab f))"

lemma burst_keeps_trace:
  assumes c: "udp_contract io coming" and ok: "run_ok coming name gate sz u0 u held log taken"
    and b: "burst name io gate u out = Some (res, u', out')" and fs: "fb_frames out' = fb_frames out @ fs"
  shows "\<exists>taken'. run_ok coming name gate sz u0 u' (held @ fs) (log @ seen_frames fs @ seen_error (result_error res)) taken'"
proof (cases "us_deferred u")
  case None
  have pool: "vec_pool_ok sz (us_pool u)" using ok by (simp add: run_ok_def)
  obtain more gs where m: "burst_moves coming name gate sz u more gs u'" "extends_batch out gs out'"
    "seen_frames gs @ seen_error (result_error res) @ seen_error (us_deferred u') = map as_seen (filter (fits sz) more)"
    using burst_loop_spec [OF c pool None, of name gate 0 0 out] b by (auto simp: burst_def None)
  have "gs = fs" using extends_batch_frames [OF m(2)] fs by simp
  with m ok None show ?thesis
    by (intro exI [of _ "taken @ more"]) (auto simp: run_ok_def burst_moves_def seen_error_def [of None])
next
  case (Some e)
  then have "res = Inl e" "u' = u\<lparr>us_deferred := None\<rparr>" "fs = []" using b fs by (auto simp: burst_def)
  with ok Some show ?thesis
    by (intro exI [of _ taken]) (simp add: run_ok_def seen_frames_def result_error_def seen_error_def [of None])
qed

lemma drop_keeps_trace:
  assumes "run_ok coming name gate sz u0 u held log taken" "f \<in> set held"
  shows "run_ok coming name gate sz u0 (u\<lparr>us_pool := drop_slab (uf_slab f) (us_pool u)\<rparr>) (remove1 f held) log taken"
proof -
  have l: "vp_live (us_pool u) = length held" "0 < length held" "slab_ok sz (uf_slab f)" using assms by (auto simp: run_ok_def)
  then have "vec_pool_ok sz (drop_slab (uf_slab f) (us_pool u))" using assms(1) by (intro drop_slab_ok) (simp_all add: run_ok_def)
  with l assms show ?thesis by (auto simp: run_ok_def drop_slab_def length_remove1 dest: notin_set_remove1)
qed

lemma udp_trace_ok:
  assumes "udp_trace io coming name gate u0 u held log" "udp_contract io coming" "vec_pool_ok sz (us_pool u0)"
    "vp_live (us_pool u0) = 0" "us_deferred u0 = None"
  shows "\<exists>taken. run_ok coming name gate sz u0 u held log taken"
  using assms(1)
proof induction
  case bound
  show ?case using assms(3-5) by (intro exI [of _ "[]"]) (simp add: run_ok_def seen_error_def)
next
  case (recv u held log out res u' out' fs)
  then show ?case using burst_keeps_trace [OF assms(2)] by blast
next
  case (drop u held log f)
  then show ?case using drop_keeps_trace by blast
next
  case (kernel u held log k)
  then show ?case by (auto simp: run_ok_def)
qed

lemma vec_pool_new_fields: "vec_pool_new alloc n sz = Inr p \<Longrightarrow> vp_live p = 0 \<and> vp_capacity p = n"
  by (auto simp: vec_pool_new_def split: if_split_asm sum.split_asm)


text \<open>A kernel that plays back a list of arrivals.\<close>

definition script_io :: "arrival list udp_io" where
  "script_io =
     \<lparr>recv_from = (\<lambda>cap k. case k of
        [] \<Rightarrow> (Inl (IoError WouldBlock (Some 11)), [])
      | Datagram d from # k' \<Rightarrow> (Inr (take cap d, length d, from), k')
      | Fault e # k' \<Rightarrow> (Inl e, if error_kind e = WouldBlock then k else k')),
      peek_sender = (\<lambda>k. case k of
        [] \<Rightarrow> (Inl (IoError WouldBlock (Some 11)), [])
      | Datagram d from # k' \<Rightarrow> (Inr (), k)
      | Fault e # k' \<Rightarrow> (Inl e, if error_kind e = WouldBlock then k else k')),
      sys_send_to = (\<lambda>buf to k. (Inr (length buf), k))\<rparr>"

lemma script_io_contract: "udp_contract script_io (\<lambda>k. k)"
  by (auto simp: udp_contract_def script_io_def split: list.split_asm arrival.split_asm if_split_asm)

definition demo_udp :: "arrival list udp_socket" where
  "demo_udp = \<lparr>us_sock = [Datagram [1, 2, 3] None, Datagram [4, 5] (Some (AddrV4 10 0 0 1 9)), Fault (IoError OtherKind (Some 5)), Datagram [6] None],
     us_pool = \<lparr>vp_free = [[0, 0], [0, 0]], vp_capacity = 2, vp_live = 0\<rparr>, us_deferred = None,
     us_metrics = \<lparr>recv_packets = (\<lambda>_. 0), recv_bytes = (\<lambda>_. 0), recv_drops = (\<lambda>_ _. 0)\<rparr>\<rparr>"

text \<open>The first datagram is too long for a slab, the second arrives, the error behind it waits.\<close>

lemma demo_burst:
  "\<exists>u f. udp_recv_burst script_io True demo_udp (batch_with_capacity 4) = Some (Inr 1, u, \<lparr>fb_frames = [f], fb_cap = 4\<rparr>)
     \<and> us_deferred u = Some (Io ''recv_from'' (IoError OtherKind (Some 5))) \<and> us_sock u = [Datagram [6] None]
     \<and> udp_bytes f = [4, 5] \<and> uf_peer f = AddrV4 10 0 0 1 9"
  by (simp add: udp_recv_burst_def burst_def demo_udp_def burst_loop.simps burst_step_def burst_done_def acquire_def datagram_def attempt_def
      lift_def script_io_def batch_with_capacity_def spare_def batch_push_def fill_buf_def set_len_def drop_slab_def udp_bytes_def slab_bytes_def)


end
