(* ===== verification/Socket_Setup.thy ===== *)
theory Socket_Setup
  imports Socket_Recv
begin

text \<open>
  Set-up of the kernel sockets of \<^verbatim>\<open>crates/transports/socket/src\<close>: \<^verbatim>\<open>config.rs\<close>, \<^verbatim>\<open>sockopt.rs\<close>, the constructors and multicast joins of
  \<^verbatim>\<open>udp.rs\<close>, \<^verbatim>\<open>tokio/\<close> and \<^verbatim>\<open>mio/\<close>, and \<^verbatim>\<open>ReadySet\<close> of \<^verbatim>\<open>mio/ready.rs\<close>. The target the crate is compiled for is an argument of the
  checks that depend on it. \<^verbatim>\<open>socket2\<close>, \<^verbatim>\<open>mio\<close> and \<^verbatim>\<open>tokio\<close> are the parameters \<open>sock_sys\<close> and \<open>poll_sys\<close>.
\<close>

section \<open>Configuration\<close>

record target =
  tg_unix :: bool
  tg_linux :: bool

definition C_INT_MAX :: u32 where "C_INT_MAX = 0x7FFFFFFF"

record udp_config =
  uc_bind :: socket_addr
  uc_reuse_addr :: bool
  uc_reuse_port :: bool
  uc_recv_buf :: "u32 option"
  uc_send_buf :: "u32 option"
  uc_busy_poll_us :: "u32 option"
  uc_slab_count :: nat
  uc_slab_size :: nat

definition udp_config_new :: "socket_addr \<Rightarrow> udp_config" where
  "udp_config_new bind =
     \<lparr>uc_bind = bind, uc_reuse_addr = False, uc_reuse_port = False, uc_recv_buf = None, uc_send_buf = None, uc_busy_poll_us = None,
      uc_slab_count = 1024, uc_slab_size = 2048\<rparr>"

definition opt_at_most :: "string \<Rightarrow> u32 option \<Rightarrow> u32 \<Rightarrow> transport_error + unit" where
  "opt_at_most field value limit = (case value of None \<Rightarrow> Inr () | Some v \<Rightarrow> at_most field v limit)"

definition buffer_sizes :: "u32 option \<Rightarrow> u32 option \<Rightarrow> transport_error + unit" where
  "buffer_sizes recv_buf send_buf =
     (case opt_at_most ''recv_buf'' recv_buf C_INT_MAX of
        Inl e \<Rightarrow> Inl e
      | Inr _ \<Rightarrow> opt_at_most ''send_buf'' send_buf C_INT_MAX)"

definition validate_udp :: "target \<Rightarrow> udp_config \<Rightarrow> transport_error + unit" where
  "validate_udp tg cfg =
     (if \<not> tg_unix tg \<and> uc_reuse_port cfg then Inl (InvalidConfig ''reuse_port'' ''SO_REUSEPORT unavailable on this OS'')
      else
        case (case uc_busy_poll_us cfg of
                None \<Rightarrow> Inr ()
              | Some us \<Rightarrow>
                  if \<not> tg_linux tg then Inl (InvalidConfig ''busy_poll_us'' ''SO_BUSY_POLL is Linux only'')
                  else at_most ''busy_poll_us'' us C_INT_MAX) of
          Inl e \<Rightarrow> Inl e
        | Inr _ \<Rightarrow> buffer_sizes (uc_recv_buf cfg) (uc_send_buf cfg))"

text \<open>\<^verbatim>\<open>Duration\<close> is a number of nanoseconds.\<close>

record tcp_config =
  tc_remote :: socket_addr
  tc_local :: "socket_addr option"
  tc_recv_buf :: "u32 option"
  tc_send_buf :: "u32 option"
  tc_nodelay :: bool
  tc_connect_timeout :: nat

definition tcp_config_new :: "socket_addr \<Rightarrow> tcp_config" where
  "tcp_config_new remote =
     \<lparr>tc_remote = remote, tc_local = None, tc_recv_buf = None, tc_send_buf = None, tc_nodelay = False, tc_connect_timeout = 5000000000\<rparr>"

fun is_unspecified :: "socket_addr \<Rightarrow> bool" where
  "is_unspecified (AddrV4 a b c d _) \<longleftrightarrow> a = 0 \<and> b = 0 \<and> c = 0 \<and> d = 0"
| "is_unspecified (AddrV6 segs _ _ _) \<longleftrightarrow> list_all (\<lambda>s. s = 0) segs"

fun port_of :: "socket_addr \<Rightarrow> u16" where
  "port_of (AddrV4 _ _ _ _ p) = p"
| "port_of (AddrV6 _ p _ _) = p"

definition validate_tcp :: "tcp_config \<Rightarrow> transport_error + unit" where
  "validate_tcp cfg =
     (if is_unspecified (tc_remote cfg) \<or> port_of (tc_remote cfg) = 0
      then Inl (InvalidConfig ''remote'' ''unspecified address or port 0'')
      else if tc_connect_timeout cfg = 0 then Inl (InvalidConfig ''connect_timeout'' ''zero timeout'')
      else buffer_sizes (tc_recv_buf cfg) (tc_send_buf cfg))"

section \<open>Socket options\<close>

datatype sock_type = Dgram | Strm

datatype sock_opt = ReuseAddr | ReusePort | RecvBuf u32 | SendBuf u32 | BusyPoll u32 | Nonblocking | TcpNodelay

text \<open>A socket is known by its descriptor.\<close>

record 'k sock_sys =
  ss_socket :: "domain \<Rightarrow> sock_type \<Rightarrow> ('k, io_error, int) call"
  ss_set :: "int \<Rightarrow> sock_opt \<Rightarrow> ('k, io_error, unit) call"
  ss_bind :: "int \<Rightarrow> socket_addr \<Rightarrow> ('k, io_error, unit) call"
  ss_connect :: "int \<Rightarrow> socket_addr \<Rightarrow> nat \<Rightarrow> ('k, io_error, unit) call"
  ss_local_addr :: "int \<Rightarrow> ('k, io_error, socket_addr option) call"
  ss_join_v4 :: "int \<Rightarrow> ipv4_addr \<Rightarrow> ipv4_addr \<Rightarrow> ('k, io_error, unit) call"
  ss_join_v6 :: "int \<Rightarrow> u16 list \<Rightarrow> u32 \<Rightarrow> ('k, io_error, unit) call"

fun domain_of :: "socket_addr \<Rightarrow> domain" where
  "domain_of (AddrV4 _ _ _ _ _) = DomainV4"
| "domain_of (AddrV6 _ _ _ _) = DomainV6"

definition set_opt :: "'k sock_sys \<Rightarrow> int \<Rightarrow> string \<Rightarrow> sock_opt \<Rightarrow> ('k, transport_error, unit) call" where
  "set_opt sys fd stage opt = map_err (Io stage) (ss_set sys fd opt)"

definition buffers :: "'k sock_sys \<Rightarrow> int \<Rightarrow> u32 option \<Rightarrow> u32 option \<Rightarrow> ('k, transport_error, unit) call" where
  "buffers sys fd recv_buf send_buf =
     attempt (when_some recv_buf (\<lambda>n. set_opt sys fd ''setsockopt(SO_RCVBUF)'' (RecvBuf n))) (\<lambda>_.
     when_some send_buf (\<lambda>n. set_opt sys fd ''setsockopt(SO_SNDBUF)'' (SendBuf n)))"

definition sockopt_udp :: "'k sock_sys \<Rightarrow> target \<Rightarrow> udp_config \<Rightarrow> ('k, transport_error, int) call" where
  "sockopt_udp sys tg cfg =
     attempt (map_err (Io ''socket'') (ss_socket sys (domain_of (uc_bind cfg)) Dgram)) (\<lambda>fd.
     attempt (when_set (uc_reuse_addr cfg) (set_opt sys fd ''setsockopt(SO_REUSEADDR)'' ReuseAddr)) (\<lambda>_.
     attempt (when_set (tg_unix tg \<and> uc_reuse_port cfg) (set_opt sys fd ''setsockopt(SO_REUSEPORT)'' ReusePort)) (\<lambda>_.
     attempt (buffers sys fd (uc_recv_buf cfg) (uc_send_buf cfg)) (\<lambda>_.
     attempt (if tg_linux tg then when_some (uc_busy_poll_us cfg) (\<lambda>us. set_opt sys fd ''setsockopt(SO_BUSY_POLL)'' (BusyPoll us))
              else lift (Inr ())) (\<lambda>_.
     attempt (set_opt sys fd ''set_nonblocking'' Nonblocking) (\<lambda>_.
     attempt (map_err (Bind (uc_bind cfg)) (ss_bind sys fd (uc_bind cfg))) (\<lambda>_. lift (Inr fd))))))))"

definition sockopt_tcp :: "'k sock_sys \<Rightarrow> tcp_config \<Rightarrow> ('k, transport_error, int) call" where
  "sockopt_tcp sys cfg =
     attempt (map_err (Io ''socket'') (ss_socket sys (domain_of (tc_remote cfg)) Strm)) (\<lambda>fd.
     attempt (buffers sys fd (tc_recv_buf cfg) (tc_send_buf cfg)) (\<lambda>_.
     attempt (when_set (tc_nodelay cfg) (set_opt sys fd ''setsockopt(TCP_NODELAY)'' TcpNodelay)) (\<lambda>_.
     attempt (when_some (tc_local cfg) (\<lambda>local. map_err (Bind local) (ss_bind sys fd local))) (\<lambda>_. lift (Inr fd)))))"

section \<open>Constructors\<close>

text \<open>The bound socket is its descriptor until the receive side takes it over.\<close>

definition udp_bind :: "'k sock_sys \<Rightarrow> (nat \<Rightarrow> nat \<Rightarrow> bool) \<Rightarrow> target \<Rightarrow> metrics \<Rightarrow> udp_config \<Rightarrow> ('k, transport_error, int udp_socket) call" where
  "udp_bind sys alloc tg m cfg =
     attempt (lift (validate_udp tg cfg)) (\<lambda>_.
     attempt (lift (vec_pool_new alloc (uc_slab_count cfg) (uc_slab_size cfg))) (\<lambda>pool.
     attempt (sockopt_udp sys tg cfg) (\<lambda>fd.
     lift (Inr \<lparr>us_sock = fd, us_pool = pool, us_deferred = None, us_metrics = m\<rparr>))))"

definition udp_local_addr :: "'k sock_sys \<Rightarrow> int \<Rightarrow> ('k, transport_error, socket_addr) call" where
  "udp_local_addr sys fd =
     attempt (map_err (Io ''getsockname'') (ss_local_addr sys fd)) (\<lambda>addr.
     lift (case addr of Some a \<Rightarrow> Inr a | None \<Rightarrow> Inl (Io ''getsockname'' (IoError KindUnsupported None))))"

definition udp_join :: "'k sock_sys \<Rightarrow> int \<Rightarrow> ip_addr \<Rightarrow> multicast_interface \<Rightarrow> ('k, transport_error, unit) call" where
  "udp_join sys fd grp iface =
     (case grp of
        IpV4 g \<Rightarrow>
          if mi_v6_scope_id iface \<noteq> None then lift (Inl (InvalidConfig ''iface.v6_scope_id'' ''set for IPv4 group''))
          else map_err (Io ''join_multicast'') (ss_join_v4 sys fd g (case mi_v4 iface of None \<Rightarrow> (0, 0, 0, 0) | Some a \<Rightarrow> a))
      | IpV6 g \<Rightarrow>
          if mi_v4 iface \<noteq> None then lift (Inl (InvalidConfig ''iface.v4'' ''set for IPv6 group''))
          else map_err (Io ''join_multicast'') (ss_join_v6 sys fd g (case mi_v6_scope_id iface of None \<Rightarrow> 0 | Some i \<Rightarrow> i)))"

definition NO_RUNTIME :: transport_error where
  "NO_RUNTIME = Unavailable ''tokio'' ''no tokio runtime on this thread'' None"

text \<open>\<open>register\<close> is the registration with the reactor; the pool and a deferred error move along.\<close>

definition async_from_socket ::
  "bool \<Rightarrow> (int \<Rightarrow> ('k, io_error, 's) call) \<Rightarrow> int udp_socket \<Rightarrow> ('k, transport_error, 's udp_socket) call" where
  "async_from_socket in_runtime register s =
     (if \<not> in_runtime then lift (Inl NO_RUNTIME)
      else attempt (map_err (Io ''register'') (register (us_sock s))) (\<lambda>sock.
        lift (Inr \<lparr>us_sock = sock, us_pool = us_pool s, us_deferred = us_deferred s, us_metrics = us_metrics s\<rparr>)))"

definition mio_from_socket :: "(int \<Rightarrow> 's) \<Rightarrow> int udp_socket \<Rightarrow> 's udp_socket" where
  "mio_from_socket from_std s =
     \<lparr>us_sock = from_std (us_sock s), us_pool = us_pool s, us_deferred = us_deferred s, us_metrics = us_metrics s\<rparr>"

definition mio_connect :: "'k sock_sys \<Rightarrow> tcp_config \<Rightarrow> ('k, transport_error, int) call" where
  "mio_connect sys cfg =
     attempt (lift (validate_tcp cfg)) (\<lambda>_.
     attempt (sockopt_tcp sys cfg) (\<lambda>fd.
     attempt (map_err (Connect (tc_remote cfg)) (ss_connect sys fd (tc_remote cfg) (tc_connect_timeout cfg))) (\<lambda>_.
     attempt (set_opt sys fd ''set_nonblocking'' Nonblocking) (\<lambda>_. lift (Inr fd)))))"

text \<open>
  \<open>connect\<close> is the awaited connect under \<^verbatim>\<open>tokio::time::timeout\<close>: the outcome of the handshake, or \<open>None\<close> when the time ran out first.
\<close>

definition tokio_connect ::
  "'k sock_sys \<Rightarrow> bool \<Rightarrow> (int \<Rightarrow> socket_addr \<Rightarrow> nat \<Rightarrow> 'k \<Rightarrow> (io_error + 's) option \<times> 'k) \<Rightarrow> tcp_config \<Rightarrow> ('k, transport_error, 's) call" where
  "tokio_connect sys in_runtime connect cfg =
     attempt (lift (validate_tcp cfg)) (\<lambda>_.
     if \<not> in_runtime then lift (Inl NO_RUNTIME)
     else
       attempt (sockopt_tcp sys cfg) (\<lambda>fd.
       attempt (set_opt sys fd ''set_nonblocking'' Nonblocking) (\<lambda>_ k.
         case connect fd (tc_remote cfg) (tc_connect_timeout cfg) k of
           (Some (Inr sock), k') \<Rightarrow> (Inr sock, k')
         | (Some (Inl e), k') \<Rightarrow> (Inl (Connect (tc_remote cfg) e), k')
         | (None, k') \<Rightarrow> (Inl (Connect (tc_remote cfg) (IoError TimedOut None)), k'))))"

section \<open>Readiness set\<close>

definition MAX_EVENTS :: nat where "MAX_EVENTS = 2 ^ 16"

record poll_event =
  ev_token :: nat
  ev_readable :: bool
  ev_read_closed :: bool
  ev_error :: bool
  ev_writable :: bool
  ev_write_closed :: bool

record ready =
  rd_token :: nat
  rd_readable :: bool
  rd_writable :: bool

datatype interest = Readable | ReadableWritable

definition UDP_INTEREST :: interest where "UDP_INTEREST = Readable"
definition TCP_INTEREST :: interest where "TCP_INTEREST = ReadableWritable"

record 'k poll_sys =
  pl_create :: "('k, io_error, unit) call"
  pl_register :: "int \<Rightarrow> nat \<Rightarrow> interest \<Rightarrow> ('k, io_error, unit) call"
  pl_deregister :: "int \<Rightarrow> ('k, io_error, unit) call"
  pl_poll :: "nat \<Rightarrow> nat option \<Rightarrow> ('k, io_error, poll_event list) call"

text \<open>A set is known by the capacity of its event buffer; the poll itself is in the environment.\<close>

record ready_set =
  rs_capacity :: nat

definition ready_set_new :: "'k poll_sys \<Rightarrow> nat \<Rightarrow> ('k, transport_error, ready_set) call" where
  "ready_set_new sys events =
     (if MAX_EVENTS < events then lift (Inl (InvalidConfig ''events'' ''above 65536''))
      else attempt (map_err (Io ''poll_create'') (pl_create sys)) (\<lambda>_. lift (Inr \<lparr>rs_capacity = events\<rparr>)))"

definition ready_register :: "'k poll_sys \<Rightarrow> int \<Rightarrow> interest \<Rightarrow> nat \<Rightarrow> ('k, transport_error, unit) call" where
  "ready_register sys src interest token = map_err (Io ''register'') (pl_register sys src token interest)"

definition ready_deregister :: "'k poll_sys \<Rightarrow> int \<Rightarrow> ('k, transport_error, unit) call" where
  "ready_deregister sys src = map_err (Io ''deregister'') (pl_deregister sys src)"

definition report_of :: "poll_event \<Rightarrow> ready" where
  "report_of ev =
     \<lparr>rd_token = ev_token ev, rd_readable = ev_readable ev \<or> ev_read_closed ev \<or> ev_error ev,
      rd_writable = ev_writable ev \<or> ev_write_closed ev\<rparr>"

text \<open>The old contents of \<open>ready\<close> are dropped in every case.\<close>

definition ready_wait :: "'k poll_sys \<Rightarrow> ready_set \<Rightarrow> nat option \<Rightarrow> ready list \<Rightarrow> 'k \<Rightarrow> (transport_error + unit) \<times> ready list \<times> 'k" where
  "ready_wait sys rs timeout ready k =
     (case pl_poll sys (rs_capacity rs) timeout k of
        (Inr events, k') \<Rightarrow> (Inr (), map report_of events, k')
      | (Inl e, k') \<Rightarrow> if error_kind e = Interrupted then (Inr (), [], k') else (Inl (Io ''poll'' e), [], k'))"

section \<open>What a constructor guarantees\<close>

text \<open>The options a configuration asks for, in the order they are applied.\<close>

definition opts_of_option :: "('a \<Rightarrow> 'b) \<Rightarrow> 'a option \<Rightarrow> 'b list" where
  "opts_of_option f x = (case x of None \<Rightarrow> [] | Some v \<Rightarrow> [f v])"

definition buffer_options :: "u32 option \<Rightarrow> u32 option \<Rightarrow> sock_opt list" where
  "buffer_options r s = opts_of_option RecvBuf r @ opts_of_option SendBuf s"

definition udp_options :: "udp_config \<Rightarrow> sock_opt list" where
  "udp_options cfg =
     (if uc_reuse_addr cfg then [ReuseAddr] else []) @ (if uc_reuse_port cfg then [ReusePort] else [])
     @ buffer_options (uc_recv_buf cfg) (uc_send_buf cfg) @ opts_of_option BusyPoll (uc_busy_poll_us cfg) @ [Nonblocking]"

definition tcp_options :: "tcp_config \<Rightarrow> sock_opt list" where
  "tcp_options cfg = buffer_options (tc_recv_buf cfg) (tc_send_buf cfg) @ (if tc_nodelay cfg then [TcpNodelay] else [])"

text \<open>The environment went from \<open>k\<close> to \<open>k'\<close> by setting these options on the socket, each successfully.\<close>

inductive sets_options :: "'k sock_sys \<Rightarrow> int \<Rightarrow> sock_opt list \<Rightarrow> 'k \<Rightarrow> 'k \<Rightarrow> bool" for sys fd where
  none: "sets_options sys fd [] k k"
| one: "ss_set sys fd opt k = (Inr (), k1) \<Longrightarrow> sets_options sys fd opts k1 k2 \<Longrightarrow> sets_options sys fd (opt # opts) k k2"

lemma sets_options_append:
  "sets_options sys fd as k k1 \<Longrightarrow> sets_options sys fd bs k1 k2 \<Longrightarrow> sets_options sys fd (as @ bs) k k2"
  by (induction rule: sets_options.induct) (auto intro: sets_options.intros)

lemma set_opt_sets: "set_opt sys fd stage opt k = (Inr x, k') \<Longrightarrow> sets_options sys fd [opt] k k'"
  by (auto simp: set_opt_def call_simps intro: sets_options.intros)

lemma when_set_sets:
  "when_set b (set_opt sys fd stage opt) k = (Inr x, k') \<Longrightarrow> sets_options sys fd (if b then [opt] else []) k k'"
  by (auto simp: when_set_def call_simps intro: sets_options.intros dest: set_opt_sets)

lemma when_some_sets:
  "when_some v (\<lambda>n. set_opt sys fd stage (opt n)) k = (Inr x, k') \<Longrightarrow> sets_options sys fd (opts_of_option opt v) k k'"
  by (auto simp: when_some_def opts_of_option_def call_simps intro: sets_options.intros dest: set_opt_sets split: option.split_asm)

lemma buffers_sets: "buffers sys fd r s k = (Inr x, k') \<Longrightarrow> sets_options sys fd (buffer_options r s) k k'"
  unfolding buffers_def call_simps buffer_options_def by (blast intro: sets_options_append when_some_sets)

lemma validate_udp_target:
  assumes "validate_udp tg cfg = Inr ()"
  shows "uc_reuse_port cfg \<Longrightarrow> tg_unix tg" "uc_busy_poll_us cfg \<noteq> None \<Longrightarrow> tg_linux tg"
  using assms by (auto simp: validate_udp_def split: if_split_asm option.split_asm sum.split_asm)

text \<open>
  A bound UDP socket has every option of its configuration applied, none left out for the platform, before the bind; its
  pool is whole and nothing is deferred.
\<close>

lemma udp_bind_ready:
  assumes "udp_bind sys alloc tg m cfg k = (Inr u, k')"
  shows "\<exists>k1 k2. ss_socket sys (domain_of (uc_bind cfg)) Dgram k = (Inr (us_sock u), k1)
      \<and> sets_options sys (us_sock u) (udp_options cfg) k1 k2 \<and> ss_bind sys (us_sock u) (uc_bind cfg) k2 = (Inr (), k')"
    and "vec_pool_new alloc (uc_slab_count cfg) (uc_slab_size cfg) = Inr (us_pool u)" "us_deferred u = None"
proof -
  have v: "validate_udp tg cfg = Inr ()" and p: "vec_pool_new alloc (uc_slab_count cfg) (uc_slab_size cfg) = Inr (us_pool u)"
    and s: "sockopt_udp sys tg cfg k = (Inr (us_sock u), k')" and d: "us_deferred u = None"
    using assms by (auto simp: udp_bind_def call_simps)
  show "vec_pool_new alloc (uc_slab_count cfg) (uc_slab_size cfg) = Inr (us_pool u)" "us_deferred u = None" by (fact p d)+
  let ?fd = "us_sock u"
  obtain k1 k2 k3 k4 k5 k6 where c: "ss_socket sys (domain_of (uc_bind cfg)) Dgram k = (Inr ?fd, k1)"
    "when_set (uc_reuse_addr cfg) (set_opt sys ?fd ''setsockopt(SO_REUSEADDR)'' ReuseAddr) k1 = (Inr (), k2)"
    "when_set (tg_unix tg \<and> uc_reuse_port cfg) (set_opt sys ?fd ''setsockopt(SO_REUSEPORT)'' ReusePort) k2 = (Inr (), k3)"
    "buffers sys ?fd (uc_recv_buf cfg) (uc_send_buf cfg) k3 = (Inr (), k4)"
    "(if tg_linux tg then when_some (uc_busy_poll_us cfg) (\<lambda>us. set_opt sys ?fd ''setsockopt(SO_BUSY_POLL)'' (BusyPoll us))
      else lift (Inr ())) k4 = (Inr (), k5)"
    "set_opt sys ?fd ''set_nonblocking'' Nonblocking k5 = (Inr (), k6)" "ss_bind sys ?fd (uc_bind cfg) k6 = (Inr (), k')"
    using s by (auto simp: sockopt_udp_def call_simps)
  have "sets_options sys ?fd (if uc_reuse_port cfg then [ReusePort] else []) k2 k3"
    using when_set_sets [OF c(3)] validate_udp_target(1) [OF v] by (cases "uc_reuse_port cfg") simp_all
  moreover have "sets_options sys ?fd (opts_of_option BusyPoll (uc_busy_poll_us cfg)) k4 k5"
  proof (cases "tg_linux tg")
    case True
    then show ?thesis using c(5) by (intro when_some_sets) simp
  next
    case False
    then show ?thesis using c(5) validate_udp_target(2) [OF v] by (auto simp: opts_of_option_def call_simps intro: sets_options.none split: option.split)
  qed
  ultimately have "sets_options sys ?fd (udp_options cfg) k1 k6"
    unfolding udp_options_def
    using when_set_sets [OF c(2)] buffers_sets [OF c(4)] set_opt_sets [OF c(6)] by (blast intro: sets_options_append)
  with c(1,7) show "\<exists>k1 k2. ss_socket sys (domain_of (uc_bind cfg)) Dgram k = (Inr ?fd, k1)
      \<and> sets_options sys ?fd (udp_options cfg) k1 k2 \<and> ss_bind sys ?fd (uc_bind cfg) k2 = (Inr (), k')" by blast
qed

lemma udp_bind_refuses:
  "validate_udp tg cfg = Inl e \<Longrightarrow> udp_bind sys alloc tg m cfg k = (Inl e, k)"
  by (simp add: udp_bind_def attempt_lift)

lemma connect_refuses:
  assumes "validate_tcp cfg = Inl e"
  shows "mio_connect sys cfg k = (Inl e, k)" "tokio_connect sys in_runtime connect cfg k = (Inl e, k)"
  using assms by (simp_all add: mio_connect_def tokio_connect_def attempt_lift)

text \<open>A join that names an interface of the other family never reaches the kernel.\<close>

lemma join_family_mismatch:
  "mi_v6_scope_id iface \<noteq> None \<Longrightarrow> \<exists>e. udp_join sys fd (IpV4 g) iface k = (Inl e, k)"
  "mi_v4 iface \<noteq> None \<Longrightarrow> \<exists>e. udp_join sys fd (IpV6 h) iface k = (Inl e, k)"
  by (auto simp: udp_join_def lift_def)

text \<open>A report says readable whenever a receive can make progress: data, a closed peer or a pending error.\<close>

lemma wait_reports:
  assumes "ready_wait sys rs timeout old k = (Inr (), reports, k')"
  shows "reports = [] \<or> (\<exists>events. pl_poll sys (rs_capacity rs) timeout k = (Inr events, k') \<and> reports = map report_of events)"
  using assms by (auto simp: ready_wait_def split: prod.split_asm sum.split_asm if_split_asm)

end
