(* ===== verification/Socket_Tcp.thy ===== *)
theory Socket_Tcp
  imports Soup_Outbound Socket_Recv
begin

text \<open>
  The TCP streams of \<^verbatim>\<open>crates/transports/socket/src\<close>: \<^verbatim>\<open>recv::stream\<close>, \<^verbatim>\<open>written\<close> of \<^verbatim>\<open>lib.rs\<close>, and the stream operations of
  \<^verbatim>\<open>tokio/tcp.rs\<close> and \<^verbatim>\<open>mio/tcp.rs\<close>. Over a kernel that keeps \<open>tcp_contract\<close> they give the contracts the SoupBinTCP client relies on.
\<close>

section \<open>Streams\<close>

record 'k tcp_io =
  tcp_recv :: "nat \<Rightarrow> ('k, io_error, bytes) call"
  tcp_write :: "bytes \<Rightarrow> ('k, io_error, nat) call"
  tcp_peek :: "('k, io_error, nat) call"

text \<open>The bytes received stand for \<^verbatim>\<open>Ok(n)\<close> and the first \<open>n\<close> bytes of the destination.\<close>

definition stream :: "'k tcp_io \<Rightarrow> nat \<Rightarrow> ('k, transport_error, bytes) call" where
  "stream io cap k =
     (if cap = 0 then (Inr [], k)
      else case tcp_recv io cap k of
        (Inr bs, k') \<Rightarrow> if bs = [] then (Inl PeerClosed, k') else (Inr bs, k')
      | (Inl e, k') \<Rightarrow> if error_kind e = WouldBlock then (Inr [], k') else (Inl (Io ''recv'' e), k'))"

definition written_result :: "io_error + nat \<Rightarrow> transport_error + nat" where
  "written_result result =
     (case result of
        Inr n \<Rightarrow> Inr n
      | Inl e \<Rightarrow> if error_kind e = WouldBlock then Inr 0 else Inl (Io ''send'' e))"

definition tcp_try_send :: "'k tcp_io \<Rightarrow> bytes \<Rightarrow> ('k, transport_error, nat) call" where
  "tcp_try_send io buf k = (case tcp_write io buf k of (r, k') \<Rightarrow> (written_result r, k'))"

text \<open>\<^verbatim>\<open>write_all\<close> awaits until the whole buffer is written; its outcome is a parameter.\<close>

definition tcp_send_all :: "(bytes \<Rightarrow> ('k, io_error, unit) call) \<Rightarrow> bytes \<Rightarrow> ('k, transport_error, unit) call" where
  "tcp_send_all write_all buf = map_err (Io ''send_all'') (write_all buf)"

definition peek_byte :: "'k tcp_io \<Rightarrow> ('k, io_error, unit) call" where
  "peek_byte io = attempt (tcp_peek io) (\<lambda>_. lift (Inr ()))"

partial_function (option) tcp_ready ::
  "('k \<Rightarrow> ((io_error + unit) \<times> 'k) option) \<Rightarrow> ('k \<Rightarrow> 'k) \<Rightarrow> 'k tcp_io \<Rightarrow> 'k \<Rightarrow> ((transport_error + unit) \<times> 'k) option" where
  "tcp_ready readable clear io k =
     (case readable k of
        None \<Rightarrow> None
      | Some (Inl e, k1) \<Rightarrow> Some (Inl (Io ''readable'' e), k1)
      | Some (Inr _, k1) \<Rightarrow>
          (case peek_byte io k1 of
             (Inr _, k2) \<Rightarrow> Some (Inr (), k2)
           | (Inl e, k2) \<Rightarrow>
               if error_kind e = WouldBlock then tcp_ready readable clear io (clear k2)
               else Some (Inl (Io ''peek'' e), k2)))"

section \<open>The contracts of the session client\<close>

text \<open>What the kernel documents of a connected socket: it hands out the peer's bytes in order and takes a prefix of a write.\<close>

definition tcp_contract :: "'k tcp_io \<Rightarrow> ('k \<Rightarrow> bytes) \<Rightarrow> ('k \<Rightarrow> bytes) \<Rightarrow> bool" where
  "tcp_contract io input output \<longleftrightarrow>
     (\<forall>n k bs k'. tcp_recv io n k = (Inr bs, k') \<longrightarrow> input k = bs @ input k' \<and> length bs \<le> n \<and> output k' = output k)
     \<and> (\<forall>n k e k'. tcp_recv io n k = (Inl e, k') \<longrightarrow> input k' = input k \<and> output k' = output k)
     \<and> (\<forall>buf k n k'. tcp_write io buf k = (Inr n, k') \<longrightarrow> n \<le> length buf \<and> output k' = output k @ take n buf \<and> input k' = input k)
     \<and> (\<forall>buf k e k'. tcp_write io buf k = (Inl e, k') \<longrightarrow> output k' = output k \<and> input k' = input k)"

lemma tcp_contractD:
  assumes "tcp_contract io input output"
  shows "tcp_recv io n k = (Inr bs, k') \<Longrightarrow> input k = bs @ input k' \<and> length bs \<le> n \<and> output k' = output k"
    and "tcp_recv io n k = (Inl e, k') \<Longrightarrow> input k' = input k \<and> output k' = output k"
    and "tcp_write io buf k = (Inr m, k') \<Longrightarrow> m \<le> length buf \<and> output k' = output k @ take m buf \<and> input k' = input k"
    and "tcp_write io buf k = (Inl e, k') \<Longrightarrow> output k' = output k \<and> input k' = input k"
  using assms unfolding tcp_contract_def by blast+

lemma stream_received:
  assumes c: "tcp_contract io input output" and s: "stream io n k = (r, k')"
  shows "output k' = output k \<and> (case r of Inr bs \<Rightarrow> input k = bs @ input k' \<and> length bs \<le> n | Inl _ \<Rightarrow> input k' = input k)"
proof (cases "n = 0")
  case True
  then show ?thesis using s by (auto simp: stream_def)
next
  case False
  obtain q k1 where q: "tcp_recv io n k = (q, k1)" by fastforce
  then show ?thesis
    using tcp_contractD(1,2) [OF c] s False by (cases q) (auto simp: stream_def split: if_split_asm)
qed

lemma try_send_written:
  assumes c: "tcp_contract io input output" and s: "tcp_try_send io buf k = (r, k')"
  shows "input k' = input k \<and> (case r of Inr n \<Rightarrow> n \<le> length buf \<and> output k' = output k @ take n buf | Inl _ \<Rightarrow> output k' = output k)"
proof -
  obtain q where q: "tcp_write io buf k = (q, k')" "r = written_result q" using s by (auto simp: tcp_try_send_def split: prod.split_asm)
  then show ?thesis using tcp_contractD(3,4) [OF c] by (cases q) (auto simp: written_result_def)
qed

text \<open>The stream a session client is given: plain or compressed, its buffer growth and its inflater are the client's.\<close>

definition tcp_stream :: "bool \<Rightarrow> (bytes \<Rightarrow> nat \<Rightarrow> nat) \<Rightarrow> 'z inflate_ops \<Rightarrow> 'k tcp_io \<Rightarrow> ('k, 'z) stream_io" where
  "tcp_stream zipped grow ops io =
     \<lparr>compressed = zipped, recv_into = (\<lambda>t n. stream io n t), try_send = (\<lambda>t buf. tcp_try_send io buf t), reserve_spare = grow,
      inflate_ops = ops\<rparr>"

lemma tcp_stream_contract:
  assumes "tcp_contract io input output"
  shows "stream_contract (tcp_stream zipped grow ops io) input" "send_contract (tcp_stream zipped grow ops io) output"
proof -
  note r = stream_received [OF assms] and w = try_send_written [OF assms]
  show "stream_contract (tcp_stream zipped grow ops io) input"
    unfolding stream_contract_def tcp_stream_def stream_io.simps using r w by fastforce
  show "send_contract (tcp_stream zipped grow ops io) output"
    unfolding send_contract_def tcp_stream_def stream_io.simps using r w by fastforce
qed

text \<open>A closed peer is never mistaken for an idle one.\<close>

lemma stream_closed:
  "0 < n \<Longrightarrow> stream io n k = (Inl PeerClosed, k') \<longleftrightarrow> tcp_recv io n k = (Inr [], k')"
  by (auto simp: stream_def split: prod.splits sum.splits if_splits)

end
