(* ===== verification/Uring_Driver.thy ===== *)
theory Uring_Driver
  imports Pools Bypass Sys_Calls
begin

text \<open>
  The receive engine of \<^verbatim>\<open>crates/transports/io-uring/src\<close>: completion classification (\<^verbatim>\<open>completion.rs\<close>), the producer side of the
  buffer ring (\<^verbatim>\<open>ring_mem.rs\<close>) and the driver (\<^verbatim>\<open>driver.rs\<close>): fleet of receives, completions, refill, teardown.

  The \<^verbatim>\<open>io-uring\<close> crate and the kernel behind it are the parameter \<open>uring_io\<close>. A call the kernel can run during takes and
  returns its state \<open>'k\<close> together with the memory region of the pool. \<^verbatim>\<open>completion()\<close> is a snapshot of the queue: entries
  that arrive later are seen by the next snapshot, and dropping it releases the entries read.
\<close>

unbundle bit_operations_syntax

section \<open>Completions\<close>

record cqe =
  cq_user_data :: u64
  cq_result :: u32
  cq_flags :: u32

datatype completion =
    Data u16 u32 bool
  | Truncated u16 bool
  | EmptyDatagram bool
  | NoBuffers
  | Failed u32

definition EIO :: u32 where "EIO = 5"

text \<open>\<open>more\<close> and \<open>buffer_select\<close> read the flags of a completion entry. \<^verbatim>\<open>i32\<close> results are words read with \<open>sint\<close>.\<close>

definition classify :: "(u32 \<Rightarrow> bool) \<Rightarrow> (u32 \<Rightarrow> u16 option) \<Rightarrow> u32 \<Rightarrow> u32 \<Rightarrow> u32 \<Rightarrow> bool \<Rightarrow> completion" where
  "classify more_flag buffer_select res flags slot_size multishot =
     (if sint res < 0 then (if res = - of_int ENOBUFS then NoBuffers else Failed (- res))
      else
        let rearm = (\<not> (multishot \<and> more_flag flags)) in
        case buffer_select flags of
          None \<Rightarrow> if res = 0 then EmptyDatagram rearm else Failed EIO
        | Some slot \<Rightarrow> if slot_size < res then Truncated slot rearm else Data slot res rearm)"

text \<open>\<^verbatim>\<open>io::Error::from_raw_os_error\<close>, with the kinds the standard library gives the error numbers the kinds of the model name.\<close>

definition from_raw_os_error :: "u32 \<Rightarrow> io_error" where
  "from_raw_os_error errno =
     (let n = sint errno in
      IoError (if n = 11 then WouldBlock else if n = 4 then Interrupted else if n = 22 then InvalidInput
               else if n = 38 \<or> n = 95 then KindUnsupported else if n = 1 \<or> n = 13 then PermissionDenied
               else if n = 110 then TimedOut else if n = 12 then OutOfMemory else OtherKind) (Some n))"

section \<open>Buffer ring\<close>

text \<open>
  Entries as address, length and buffer id; \<open>br_published\<close> is the tail word the kernel reads, inside entry 0. An entry takes
  16 bytes; \<open>br_addr\<close> is the address of the mapping.
\<close>

record buf_ring =
  br_addr :: u64
  br_bytes :: nat
  br_entries :: "(u64 \<times> u32 \<times> u16) list"
  br_mask :: u16
  br_tail :: u16
  br_published :: u16

definition ring_mem_new :: "(nat \<Rightarrow> ('k, io_error, u64) call) \<Rightarrow> u16 \<Rightarrow> ('k, transport_error, buf_ring) call" where
  "ring_mem_new mmap cnt =
     attempt (map_err (Io ''mmap'') (mmap (unat cnt * 16))) (\<lambda>raw.
     lift (if raw = 0 then Inl (Io ''mmap'' (IoError OutOfMemory None))
           else Inr \<lparr>br_addr = raw, br_bytes = unat cnt * 16, br_entries = replicate (unat cnt) (0, 0, 0), br_mask = cnt - 1, br_tail = 0,
             br_published = 0\<rparr>))"

definition br_push :: "u64 \<Rightarrow> u32 \<Rightarrow> u16 \<Rightarrow> buf_ring \<Rightarrow> buf_ring" where
  "br_push addr len bid r =
     r\<lparr>br_entries := (br_entries r)[unat (br_tail r AND br_mask r) := (addr, len, bid)], br_tail := br_tail r + 1\<rparr>"

definition br_publish :: "buf_ring \<Rightarrow> buf_ring" where
  "br_publish r = r\<lparr>br_published := br_tail r\<rparr>"

section \<open>Fleet\<close>

record fleet =
  fl_depth :: u32
  fl_armed :: u32
  fl_starved :: bool

definition fleet_new :: "u32 \<Rightarrow> fleet" where
  "fleet_new depth = \<lparr>fl_depth = depth, fl_armed = 0, fl_starved = False\<rparr>"

definition sat_sub32 :: "u32 \<Rightarrow> u32 \<Rightarrow> u32" where
  "sat_sub32 a b = (if b \<le> a then a - b else 0)"

definition wanted :: "fleet \<Rightarrow> u32" where
  "wanted f = (if fl_starved f then 0 else sat_sub32 (fl_depth f) (fl_armed f))"

fun completion_ends :: "completion \<Rightarrow> bool" where
  "completion_ends (Data _ _ rearm) = rearm"
| "completion_ends (Truncated _ rearm) = rearm"
| "completion_ends (EmptyDatagram rearm) = rearm"
| "completion_ends NoBuffers = True"
| "completion_ends (Failed _) = True"

definition fleet_complete :: "completion \<Rightarrow> fleet \<Rightarrow> fleet" where
  "fleet_complete c f =
     (let f1 = (if c = NoBuffers then f\<lparr>fl_starved := True\<rparr> else f) in
      if completion_ends c then f1\<lparr>fl_armed := sat_sub32 (fl_armed f1) 1\<rparr> else f1)"

definition fleet_refilled :: "nat \<Rightarrow> fleet \<Rightarrow> fleet" where
  "fleet_refilled slots f = (if 0 < slots then f\<lparr>fl_starved := False\<rparr> else f)"

section \<open>Driver state\<close>

datatype recv_path = Legacy | BufRing | Multishot

definition UD_RECV :: u64 where "UD_RECV = 1"
definition UD_PROVIDE :: u64 where "UD_PROVIDE = 2"
definition UD_CANCEL :: u64 where "UD_CANCEL = 3"
definition UD_PROBE :: u64 where "UD_PROBE = 4"
definition BGID :: u16 where "BGID = 0"
definition CANCEL_WAIT :: nat where "CANCEL_WAIT = 1000000000"

text \<open>\<^verbatim>\<open>ProvideBuffers\<close> has address, length, count, group and first id; the receives ask for \<^verbatim>\<open>MSG_TRUNC\<close>.\<close>

datatype sq_op =
    ProvideBuffers u64 u32 u16 u16 u16
  | RecvSelect int u32 u16
  | RecvMulti int u16
  | AsyncCancel u64

record sqe =
  sq_op :: sq_op
  sq_user_data :: u64
  sq_skip_success :: bool

record 'k uring_io =
  sq_push :: "sqe \<Rightarrow> 'k \<Rightarrow> bool \<times> 'k"
  sq_is_empty :: "'k \<Rightarrow> bool"
  cq_overflow :: "'k \<Rightarrow> bool"
  ring_submit :: "'k \<times> region \<Rightarrow> (io_error + unit) \<times> 'k \<times> region"
  ring_submit_wait :: "nat \<Rightarrow> 'k \<times> region \<Rightarrow> (io_error + unit) \<times> 'k \<times> region"
  ring_completion :: "'k \<times> region \<Rightarrow> cqe list \<times> 'k \<times> region"
  cq_release :: "nat \<Rightarrow> 'k \<Rightarrow> 'k"
  ring_tail_stored :: "buf_ring \<Rightarrow> 'k \<Rightarrow> 'k"
  cqe_more :: "u32 \<Rightarrow> bool"
  cqe_buffer :: "u32 \<Rightarrow> u16 option"

text \<open>\<open>ud_base\<close> is the address of the pool region.\<close>

record 'k uring_driver =
  ud_ring :: 'k
  ud_pool :: index_pool
  ud_base :: u64
  ud_buf_ring :: "buf_ring option"
  ud_sock :: int
  ud_path :: recv_path
  ud_slot_size :: u32
  ud_skip_success :: bool
  ud_fleet :: fleet
  ud_back :: "u32 list"
  ud_stats :: driver_stats

definition kernel_call :: "('k \<times> region \<Rightarrow> 'r \<times> 'k \<times> region) \<Rightarrow> 'k uring_driver \<Rightarrow> 'r \<times> 'k uring_driver" where
  "kernel_call f d =
     (case f (ud_ring d, ip_region (ud_pool d)) of
        (r, k, rg) \<Rightarrow> (r, d\<lparr>ud_ring := k, ud_pool := (ud_pool d)\<lparr>ip_region := rg\<rparr>\<rparr>))"

section \<open>Submission\<close>

definition EAGAIN :: int where "EAGAIN = 11"
definition EINTR :: int where "EINTR = 4"
definition ETIME :: int where "ETIME = 62"

definition enter :: "'k uring_io \<Rightarrow> 'k uring_driver \<Rightarrow> (transport_error + unit) \<times> 'k uring_driver" where
  "enter io d =
     (let d1 = d\<lparr>ud_stats := (ud_stats d)\<lparr>syscalls := syscalls (ud_stats d) + 1\<rparr>\<rparr> in
      case kernel_call (ring_submit io) d1 of
        (Inr _, d2) \<Rightarrow> (Inr (), d2)
      | (Inl e, d2) \<Rightarrow>
          if raw_os_error e \<in> {Some EAGAIN, Some EBUSY, Some EINTR} then (Inr (), d2) else (Inl (Io ''io_uring_enter'' e), d2))"

definition push :: "'k uring_io \<Rightarrow> sqe \<Rightarrow> 'k uring_driver \<Rightarrow> (transport_error + unit) \<times> 'k uring_driver" where
  "push io e d =
     (case sq_push io e (ud_ring d) of
        (True, k) \<Rightarrow> (Inr (), d\<lparr>ud_ring := k\<rparr>)
      | (False, k) \<Rightarrow>
          (case enter io (d\<lparr>ud_ring := k\<rparr>) of
             (Inl err, d1) \<Rightarrow> (Inl err, d1)
           | (Inr _, d1) \<Rightarrow>
               (case sq_push io e (ud_ring d1) of
                  (True, k2) \<Rightarrow> (Inr (), d1\<lparr>ud_ring := k2\<rparr>)
                | (False, k2) \<Rightarrow> (Inl (Io ''io_uring submission queue'' (IoError WouldBlock None)), d1\<lparr>ud_ring := k2\<rparr>))))"

definition submit_if_needed :: "'k uring_io \<Rightarrow> 'k uring_driver \<Rightarrow> (transport_error + unit) \<times> 'k uring_driver" where
  "submit_if_needed io d =
     (if sq_is_empty io (ud_ring d) \<and> \<not> cq_overflow io (ud_ring d) then (Inr (), d) else enter io d)"

section \<open>Refill\<close>

definition id16 :: "nat \<Rightarrow> u16" where
  "id16 v = of_nat v"

text \<open>Length of the run of consecutive slots that starts at \<open>first\<close>.\<close>

definition run_length :: "u32 \<Rightarrow> u32 list \<Rightarrow> nat" where
  "run_length first xs = length (takeWhile (\<lambda>(slot, nxt). slot = nxt) (zip xs (map (\<lambda>i. first + of_nat i) [0..<length xs])))"

lemma run_length_pos: "0 < run_length x (x # xs)"
  unfolding run_length_def length_Cons upt_conv_Cons [OF zero_less_Suc] by simp

lemma run_length_le: "run_length x xs \<le> length xs"
  by (metis (no_types, lifting) length_takeWhile_le length_zip length_map length_upt diff_zero min.idem run_length_def)

function provide_loop :: "(u32 \<Rightarrow> nat \<Rightarrow> 's \<Rightarrow> (transport_error + unit) \<times> 's) \<Rightarrow> u32 list \<Rightarrow> 's \<Rightarrow> (transport_error + unit) \<times> u32 list \<times> 's" where
  "provide_loop provide [] s = (Inr (), [], s)"
| "provide_loop provide (x # xs) s =
     (case provide x (run_length x (x # xs)) s of
        (Inl e, s') \<Rightarrow> (Inl e, x # xs, s')
      | (Inr _, s') \<Rightarrow> provide_loop provide (drop (run_length x (x # xs)) (x # xs)) s')"
  by pat_completeness auto
termination
  by (relation "measure (\<lambda>(_, xs, _). length xs)") (use run_length_pos in auto)

text \<open>The slots still to hand out are returned with the result.\<close>

definition provide_runs :: "(u32 \<Rightarrow> nat \<Rightarrow> 's \<Rightarrow> (transport_error + unit) \<times> 's) \<Rightarrow> u32 list \<Rightarrow> 's \<Rightarrow> (transport_error + unit) \<times> u32 list \<times> 's" where
  "provide_runs provide back s = provide_loop provide (sort back) s"

definition slot_addr :: "'k uring_driver \<Rightarrow> u32 \<Rightarrow> u64" where
  "slot_addr d slot = ud_base d + ucast slot * ucast (ip_stride (ud_pool d))"

definition provide_entry :: "'k uring_driver \<Rightarrow> u32 \<Rightarrow> nat \<Rightarrow> sqe" where
  "provide_entry d first run =
     \<lparr>sq_op = ProvideBuffers (slot_addr d first) (ud_slot_size d) (id16 run) BGID (id16 (unat first)), sq_user_data = UD_PROVIDE,
      sq_skip_success = ud_skip_success d\<rparr>"

definition hand_over :: "'k uring_io \<Rightarrow> u32 list \<Rightarrow> 'k uring_driver \<Rightarrow> (transport_error + unit) \<times> u32 list \<times> 'k uring_driver" where
  "hand_over io back d =
     (case ud_buf_ring d of
        Some ring \<Rightarrow>
          let ring = br_publish (fold (\<lambda>slot. br_push (slot_addr d slot) (ud_slot_size d) (id16 (unat slot))) back ring) in
          (Inr (), [], d\<lparr>ud_buf_ring := Some ring, ud_ring := ring_tail_stored io ring (ud_ring d)\<rparr>)
      | None \<Rightarrow> provide_runs (\<lambda>first run d. push io (provide_entry d first run) d) back d)"

definition give_back :: "'k uring_io \<Rightarrow> 'k uring_driver \<Rightarrow> (transport_error + unit) \<times> 'k uring_driver" where
  "give_back io d =
     (if ud_back d = [] then (Inr (), d)
      else case hand_over io (ud_back d) (d\<lparr>ud_back := []\<rparr>) of
        (handed, back, d1) \<Rightarrow>
          (handed, d1\<lparr>ud_fleet := fleet_refilled (length (ud_back d) - length back) (ud_fleet d1), ud_back := back\<rparr>))"

section \<open>Receives\<close>

definition recv_entry :: "'k uring_driver \<Rightarrow> sqe" where
  "recv_entry d =
     \<lparr>sq_op = (case ud_path d of Multishot \<Rightarrow> RecvMulti (ud_sock d) BGID | _ \<Rightarrow> RecvSelect (ud_sock d) (ud_slot_size d) BGID),
      sq_user_data = UD_RECV, sq_skip_success = False\<rparr>"

fun arm_loop :: "'k uring_io \<Rightarrow> sqe \<Rightarrow> nat \<Rightarrow> 'k uring_driver \<Rightarrow> (transport_error + unit) \<times> 'k uring_driver" where
  "arm_loop io e 0 d = (Inr (), d)"
| "arm_loop io e (Suc n) d =
     (case push io e d of
        (Inl err, d1) \<Rightarrow> (Inl err, d1)
      | (Inr _, d1) \<Rightarrow> arm_loop io e n (d1\<lparr>ud_fleet := (ud_fleet d1)\<lparr>fl_armed := fl_armed (ud_fleet d1) + 1\<rparr>\<rparr>))"

definition arm :: "'k uring_io \<Rightarrow> 'k uring_driver \<Rightarrow> (transport_error + unit) \<times> 'k uring_driver" where
  "arm io d = arm_loop io (recv_entry d) (unat (wanted (ud_fleet d))) d"

definition classify_cqe :: "'k uring_io \<Rightarrow> 'k uring_driver \<Rightarrow> cqe \<Rightarrow> completion" where
  "classify_cqe io d c = classify (cqe_more io) (cqe_buffer io) (cq_result c) (cq_flags c) (ud_slot_size d) (ud_path d = Multishot)"

text \<open>Over a snapshot; \<open>n\<close> counts the entries read.\<close>

fun complete_loop ::
  "'k uring_io \<Rightarrow> cqe list \<Rightarrow> nat \<Rightarrow> nat \<Rightarrow> 'k uring_driver \<Rightarrow> index_frame frame_batch
     \<Rightarrow> (transport_error + nat) \<times> nat \<times> 'k uring_driver \<times> index_frame frame_batch" where
  "complete_loop io [] n pushed d out = (Inr pushed, n, d, out)"
| "complete_loop io (c # cs) n pushed d out =
     (if spare out = 0 then (Inr pushed, n, d, out)
      else if cq_user_data c = UD_RECV then
        let compl = classify_cqe io d c; d1 = d\<lparr>ud_fleet := fleet_complete compl (ud_fleet d)\<rparr> in
        case compl of
          Data slot len _ \<Rightarrow>
            (case pool_frame (ucast slot) 0 len (ud_pool d1) of
               (f, pool) \<Rightarrow> complete_loop io cs (n + 1) (pushed + 1) (d1\<lparr>ud_pool := pool\<rparr>) (batch_push f out))
        | Truncated slot _ \<Rightarrow>
            complete_loop io cs (n + 1) pushed
              (d1\<lparr>ud_stats := (ud_stats d1)\<lparr>ds_truncated := ds_truncated (ud_stats d1) + 1\<rparr>, ud_back := ud_back d1 @ [ucast slot]\<rparr>) out
        | EmptyDatagram _ \<Rightarrow> complete_loop io cs (n + 1) pushed d1 out
        | NoBuffers \<Rightarrow>
            complete_loop io cs (n + 1) pushed (d1\<lparr>ud_stats := (ud_stats d1)\<lparr>no_buffer := no_buffer (ud_stats d1) + 1\<rparr>\<rparr>) out
        | Failed errno \<Rightarrow> (Inl (Io ''io_uring recv'' (from_raw_os_error errno)), n + 1, d1, out)
      else if cq_user_data c = UD_PROVIDE \<and> sint (cq_result c) < 0 then
        (Inl (Io ''io_uring provide buffers'' (from_raw_os_error (- cq_result c))), n + 1, d, out)
      else complete_loop io cs (n + 1) pushed d out)"

definition uring_complete ::
  "'k uring_io \<Rightarrow> 'k uring_driver \<Rightarrow> index_frame frame_batch \<Rightarrow> (transport_error + nat) \<times> 'k uring_driver \<times> index_frame frame_batch" where
  "uring_complete io d out =
     (case kernel_call (ring_completion io) d of
        (cqes, d1) \<Rightarrow>
          (case complete_loop io cqes 0 0 d1 out of
             (res, n, d2, out') \<Rightarrow> (res, d2\<lparr>ud_ring := cq_release io n (ud_ring d2)\<rparr>, out')))"

section \<open>Poll\<close>

definition and_then :: "('d \<Rightarrow> (transport_error + unit) \<times> 'd) \<Rightarrow> ('d \<Rightarrow> (transport_error + unit) \<times> 'd) \<Rightarrow> 'd \<Rightarrow> (transport_error + unit) \<times> 'd" where
  "and_then f g d = (case f d of (Inl e, d1) \<Rightarrow> (Inl e, d1) | (Inr _, d1) \<Rightarrow> g d1)"

definition refill_and_arm :: "'k uring_io \<Rightarrow> 'k uring_driver \<Rightarrow> (transport_error + unit) \<times> 'k uring_driver" where
  "refill_and_arm io = and_then (give_back io) (and_then (arm io) (submit_if_needed io))"

definition uring_poll_frames ::
  "'k uring_io \<Rightarrow> 'k uring_driver \<Rightarrow> index_frame frame_batch \<Rightarrow> (transport_error + polled) \<times> 'k uring_driver \<times> index_frame frame_batch" where
  "uring_poll_frames io d out =
     (case drain_freed (ud_back d) (ud_pool d) of
        (back, pool) \<Rightarrow>
          (case uring_complete io (d\<lparr>ud_back := back, ud_pool := pool\<rparr>) out of
             (completed, d1, out1) \<Rightarrow>
               (case refill_and_arm io d1 of
                  (refilled, d2) \<Rightarrow>
                    (case completed of
                       Inl e \<Rightarrow> (Inl e, d2, out1)
                     | Inr pushed \<Rightarrow>
                         (case refilled of
                            Inl e \<Rightarrow> (Inl e, d2, out1)
                          | Inr _ \<Rightarrow>
                              (Inr (if 0 < pushed then Frames pushed else if fl_starved (ud_fleet d2) then Exhausted else Idle), d2, out1))))))"

definition URING_BACKEND :: string where "URING_BACKEND = ''io-uring''"

definition uring_ops :: "'k uring_io \<Rightarrow> ('k uring_driver, index_frame) driver_ops" where
  "uring_ops io =
     \<lparr>backend_name = URING_BACKEND, poll_frames = uring_poll_frames io, stats_of = ud_stats, pool_stats_of = (\<lambda>d. index_pool_stats (ud_pool d)),
      frame_len = (\<lambda>_ f. unat (if_len f))\<rparr>"

section \<open>Teardown\<close>

definition cancel_entry :: sqe where
  "cancel_entry = \<lparr>sq_op = AsyncCancel UD_RECV, sq_user_data = UD_CANCEL, sq_skip_success = False\<rparr>"

definition count_ended :: "'k uring_io \<Rightarrow> cqe list \<Rightarrow> 'k uring_driver \<Rightarrow> 'k uring_driver" where
  "count_ended io cqes d =
     fold (\<lambda>c d. if cq_user_data c = UD_RECV then d\<lparr>ud_fleet := fleet_complete (classify_cqe io d c) (ud_fleet d)\<rparr> else d) cqes d"

text \<open>\<open>clock\<close> reads the time from the world \<open>'w\<close>; a clock that never reaches the deadline can keep the loop running.\<close>

partial_function (option) cancel_loop ::
  "'k uring_io \<Rightarrow> ('w \<Rightarrow> nat \<times> 'w) \<Rightarrow> nat \<Rightarrow> 'k uring_driver \<Rightarrow> 'w \<Rightarrow> (bool \<times> 'k uring_driver \<times> 'w) option" where
  "cancel_loop io clock deadline d w =
     (if fl_armed (ud_fleet d) = 0 then Some (True, d, w)
      else case clock w of
        (now, w1) \<Rightarrow>
          if deadline - now = 0 then Some (False, d, w1)
          else case push io cancel_entry d of
            (Inl _, d1) \<Rightarrow> Some (False, d1, w1)
          | (Inr _, d1) \<Rightarrow>
              (case kernel_call (ring_submit_wait io (deadline - now)) d1 of
                 (r, d2) \<Rightarrow>
                   if (case r of Inl e \<Rightarrow> raw_os_error e \<noteq> Some ETIME \<and> raw_os_error e \<noteq> Some EINTR | Inr _ \<Rightarrow> False)
                   then Some (False, d2, w1)
                   else case kernel_call (ring_completion io) d2 of
                     (cqes, d3) \<Rightarrow>
                       cancel_loop io clock deadline
                         ((count_ended io cqes d3)\<lparr>ud_ring := cq_release io (length cqes) (ud_ring d3)\<rparr>) w1))"

definition cancel_recvs :: "'k uring_io \<Rightarrow> ('w \<Rightarrow> nat \<times> 'w) \<Rightarrow> 'k uring_driver \<Rightarrow> 'w \<Rightarrow> (bool \<times> 'k uring_driver \<times> 'w) option" where
  "cancel_recvs io clock d w = (case clock w of (now, w1) \<Rightarrow> cancel_loop io clock (now + CANCEL_WAIT) d w1)"

text \<open>Whether dropping the driver frees the memory the kernel was given; otherwise it is leaked.\<close>

definition drop_frees_memory :: "'k uring_io \<Rightarrow> ('w \<Rightarrow> nat \<times> 'w) \<Rightarrow> 'k uring_driver \<Rightarrow> 'w \<Rightarrow> bool option" where
  "drop_frees_memory io clock d w = map_option (\<lambda>(quiet, _, _). quiet) (cancel_recvs io clock d w)"

end
