(* ===== verification/Uring_Setup.thy ===== *)
theory Uring_Setup
  imports Uring_Driver Socket_Setup
begin

text \<open>
  Set-up of the \<^verbatim>\<open>io_uring\<close> transport of \<^verbatim>\<open>crates/transports/io-uring/src\<close>: configuration (\<^verbatim>\<open>config.rs\<close>), feature probe and choice of the
  receive path (\<^verbatim>\<open>probe.rs\<close>), \<^verbatim>\<open>bind\<close> and \<^verbatim>\<open>socket\<close> of \<^verbatim>\<open>driver.rs\<close>, and the public type of \<^verbatim>\<open>lib.rs\<close>. Sockets are the parameter \<open>sock_sys\<close>, ring
  creation and registration \<open>uring_sys\<close>, both over the state \<open>'k\<close> the receive engine runs on. Closing what a failed call had
  opened is left out.
\<close>

section \<open>Configuration\<close>

definition MAX_SLOTS :: u32 where "MAX_SLOTS = 32768"
definition MAX_DEPTH :: u32 where "MAX_DEPTH = 4096"
definition URING_INT_MAX :: u32 where "URING_INT_MAX = 0x7FFFFFFF"

record uring_config =
  ic_bind :: socket_addr
  ic_slots :: u32
  ic_slot_size :: u32
  ic_depth :: u32
  ic_path :: "recv_path option"
  ic_recv_buf :: "u32 option"

definition uring_config_new :: "socket_addr \<Rightarrow> uring_config" where
  "uring_config_new bind = \<lparr>ic_bind = bind, ic_slots = 1024, ic_slot_size = 2048, ic_depth = 64, ic_path = None, ic_recv_buf = None\<rparr>"

text \<open>\<^verbatim>\<open>NonZeroU32\<close> of the fields is a hypothesis of the lemmas that need it.\<close>

definition uring_validate :: "uring_config \<Rightarrow> transport_error + unit" where
  "uring_validate cfg =
     (case at_most ''slots'' (ic_slots cfg) MAX_SLOTS of
        Inl e \<Rightarrow> Inl e
      | Inr _ \<Rightarrow>
     (case at_most ''slot_size'' (ic_slot_size cfg) URING_INT_MAX of
        Inl e \<Rightarrow> Inl e
      | Inr _ \<Rightarrow>
     (case at_most ''depth'' (ic_depth cfg) MAX_DEPTH of
        Inl e \<Rightarrow> Inl e
      | Inr _ \<Rightarrow>
          if ic_slots cfg < ic_depth cfg then Inl (InvalidConfig ''depth'' ''deeper than slots'')
          else case ic_recv_buf cfg of
            None \<Rightarrow> Inr ()
          | Some n \<Rightarrow> at_most ''recv_buf'' n URING_INT_MAX)))"

section \<open>Probe\<close>

definition PROBE_BGID :: u16 where "PROBE_BGID = 1"
definition ENOSYS :: int where "ENOSYS = 38"
definition EINVAL :: int where "EINVAL = 22"

record support =
  su_legacy :: bool
  su_buf_ring :: bool
  su_multishot :: bool

fun has :: "support \<Rightarrow> recv_path \<Rightarrow> bool" where
  "has s Legacy = su_legacy s"
| "has s BufRing = su_buf_ring s"
| "has s Multishot = su_multishot s"

text \<open>\<open>rs_probe\<close> answers which operations the kernel supports; \<open>rs_build\<close> has completion and submission entries as arguments.\<close>

datatype ring_opcode = OpRecv | OpProvideBuffers

record 'k uring_sys =
  rs_build :: "u32 \<Rightarrow> u32 \<Rightarrow> ('k, io_error, unit) call"
  rs_probe :: "('k, io_error, ring_opcode \<Rightarrow> bool) call"
  rs_fast_poll :: "'k \<Rightarrow> bool"
  rs_skip_success :: "'k \<Rightarrow> bool"
  rs_mmap :: "nat \<Rightarrow> ('k, io_error, u64) call"
  rs_munmap :: "u64 \<Rightarrow> nat \<Rightarrow> 'k \<Rightarrow> 'k"
  rs_register_buf_ring :: "u64 \<Rightarrow> u16 \<Rightarrow> u16 \<Rightarrow> ('k, io_error, unit) call"
  rs_unregister_buf_ring :: "u16 \<Rightarrow> ('k, io_error, unit) call"

definition open_ring :: "'k uring_sys \<Rightarrow> u32 \<Rightarrow> u32 \<Rightarrow> ('k, transport_error, unit) call" where
  "open_ring rs sq cq =
     map_err (\<lambda>e. if raw_os_error e \<in> {Some EPERM, Some ENOSYS} then Unavailable URING_BACKEND ''io_uring disabled or absent'' (Some e)
                  else Io ''io_uring_setup'' e) (rs_build rs cq sq)"

definition ring_mem_register :: "'k uring_sys \<Rightarrow> buf_ring \<Rightarrow> u16 \<Rightarrow> ('k, io_error, unit) call" where
  "ring_mem_register rs r bgid = rs_register_buf_ring rs (br_addr r) (br_mask r + 1) bgid"

definition ring_mem_drop :: "'k uring_sys \<Rightarrow> buf_ring \<Rightarrow> 'k \<Rightarrow> 'k" where
  "ring_mem_drop rs r = rs_munmap rs (br_addr r) (br_bytes r)"

definition probe_legacy :: "'k uring_sys \<Rightarrow> 'k \<Rightarrow> bool \<times> 'k" where
  "probe_legacy rs k =
     (case rs_probe rs k of
        (Inl _, k') \<Rightarrow> (False, k')
      | (Inr supported, k') \<Rightarrow> (supported OpRecv \<and> supported OpProvideBuffers \<and> rs_fast_poll rs k', k'))"

definition probe_entry :: "int \<Rightarrow> sqe" where
  "probe_entry fd = \<lparr>sq_op = RecvMulti fd PROBE_BGID, sq_user_data = UD_PROBE, sq_skip_success = False\<rparr>"

definition probe_rejected :: "cqe \<Rightarrow> bool" where
  "probe_rejected c \<longleftrightarrow> cq_user_data c = UD_PROBE \<and> sint (cq_result c) < 0 \<and> cq_result c \<noteq> - of_int ENOBUFS"

text \<open>\<^verbatim>\<open>any\<close> reads completions up to the first that matches.\<close>

definition any_read :: "('a \<Rightarrow> bool) \<Rightarrow> 'a list \<Rightarrow> nat" where
  "any_read P xs = min (length xs) (length (takeWhile (\<lambda>x. \<not> P x) xs) + 1)"

definition probe_multishot :: "'k uring_io \<Rightarrow> int \<Rightarrow> ('k \<times> region, transport_error, bool) call" where
  "probe_multishot io fd st =
     (case sq_push io (probe_entry fd) (fst st) of
        (False, k) \<Rightarrow> (Inl (Io ''io_uring multishot probe'' (IoError WouldBlock None)), k, snd st)
      | (True, k) \<Rightarrow>
          attempt (map_err (Io ''io_uring_enter'') (ring_submit io)) (\<lambda>_ st1.
            case ring_completion io st1 of
              (cqes, k2, rg2) \<Rightarrow> (Inr (\<not> list_ex probe_rejected cqes), cq_release io (any_read probe_rejected cqes) k2, rg2)) (k, snd st))"

text \<open>A call on the ring that leaves the region of the pool alone.\<close>

definition aside :: "('k, 'e, 'a) call \<Rightarrow> ('k \<times> region, 'e, 'a) call" where
  "aside m st = (case m (fst st) of (r, k) \<Rightarrow> (r, k, snd st))"

definition probe :: "'k uring_sys \<Rightarrow> 'k uring_io \<Rightarrow> int \<Rightarrow> ('k \<times> region, transport_error, support) call" where
  "probe rs io fd st =
     (case probe_legacy rs (fst st) of
        (legacy, k) \<Rightarrow>
          attempt (aside (ring_mem_new (rs_mmap rs) 1)) (\<lambda>probe_ring st1.
            case aside (ring_mem_register rs probe_ring PROBE_BGID) st1 of
              (Inl e, k2, rg2) \<Rightarrow>
                if raw_os_error e = Some EINVAL
                then (Inr \<lparr>su_legacy = legacy, su_buf_ring = False, su_multishot = False\<rparr>, ring_mem_drop rs probe_ring k2, rg2)
                else (Inl (Io ''io_uring register buf ring'' e), ring_mem_drop rs probe_ring k2, rg2)
            | (Inr _, st2) \<Rightarrow>
                (case probe_multishot io fd st2 of
                   (multishot, st3) \<Rightarrow>
                     (case aside (rs_unregister_buf_ring rs PROBE_BGID) st3 of
                        (Inl e, st4) \<Rightarrow> (Inl (Io ''io_uring unregister buf ring'' e), st4)
                      | (Inr _, k4, rg4) \<Rightarrow>
                          (case multishot of Inl e \<Rightarrow> Inl e | Inr m \<Rightarrow> Inr \<lparr>su_legacy = legacy, su_buf_ring = True, su_multishot = m\<rparr>,
                           ring_mem_drop rs probe_ring k4, rg4)))) (k, snd st))"

text \<open>The paths in the order of preference; \<^verbatim>\<open>max\<close> takes the last.\<close>

definition select :: "recv_path option \<Rightarrow> support \<Rightarrow> transport_error + recv_path" where
  "select forced support =
     (case forced of
        Some path \<Rightarrow> if has support path then Inr path else Inl (Unsupported URING_BACKEND ''recv path'')
      | None \<Rightarrow>
          (case filter (has support) [Legacy, BufRing, Multishot] of
             [] \<Rightarrow> Inl (Unavailable URING_BACKEND ''kernel supports no recv path'' None)
           | paths \<Rightarrow> Inr (last paths)))"

section \<open>Bind\<close>

definition uring_socket :: "'k sock_sys \<Rightarrow> uring_config \<Rightarrow> ('k, transport_error, int) call" where
  "uring_socket sys cfg =
     attempt (map_err (Io ''socket'') (ss_socket sys (domain_of (ic_bind cfg)) Dgram)) (\<lambda>fd.
     attempt (when_some (ic_recv_buf cfg) (\<lambda>n. set_opt sys fd ''setsockopt(SO_RCVBUF)'' (RecvBuf n))) (\<lambda>_.
     attempt (map_err (Bind (ic_bind cfg)) (ss_bind sys fd (ic_bind cfg))) (\<lambda>_. lift (Inr fd))))"

text \<open>\<^verbatim>\<open>next_power_of_two\<close>, for arguments below \<open>2 ^ 31\<close>.\<close>

fun next_power_of_two_from :: "nat \<Rightarrow> nat \<Rightarrow> nat \<Rightarrow> nat" where
  "next_power_of_two_from 0 p n = p"
| "next_power_of_two_from (Suc fuel) p n = (if n \<le> p then p else next_power_of_two_from fuel (2 * p) n)"

definition next_power_of_two :: "u32 \<Rightarrow> u32" where
  "next_power_of_two n = of_nat (next_power_of_two_from 31 1 (unat n))"

definition driver_new :: "uring_config \<Rightarrow> u64 \<Rightarrow> int \<Rightarrow> recv_path \<Rightarrow> buf_ring option \<Rightarrow> bool \<Rightarrow> index_pool \<Rightarrow> 'k \<Rightarrow> 'k uring_driver" where
  "driver_new cfg base fd path ring skip pool k =
     \<lparr>ud_ring = k, ud_pool = pool, ud_base = base, ud_buf_ring = ring, ud_sock = fd, ud_path = path, ud_slot_size = ic_slot_size cfg,
      ud_skip_success = skip, ud_fleet = fleet_new (if path = Multishot then 1 else ic_depth cfg),
      ud_back = map of_nat [0..<unat (ic_slots cfg)], ud_stats = driver_stats_default\<rparr>"

definition register_path :: "'k uring_sys \<Rightarrow> uring_config \<Rightarrow> recv_path \<Rightarrow> ('k, transport_error, buf_ring option) call" where
  "register_path rs cfg path =
     (case path of
        Legacy \<Rightarrow> lift (Inr None)
      | _ \<Rightarrow>
          attempt (ring_mem_new (rs_mmap rs) (id16 (unat (next_power_of_two (ic_slots cfg))))) (\<lambda>mem.
          attempt (map_err (Io ''io_uring register buf ring'') (ring_mem_register rs mem BGID)) (\<lambda>_. lift (Inr (Some mem)))))"

text \<open>\<open>base\<close> is where the allocator puts the region.\<close>

definition uring_driver_bind ::
  "'k sock_sys \<Rightarrow> 'k uring_sys \<Rightarrow> 'k uring_io \<Rightarrow> (nat \<Rightarrow> nat \<Rightarrow> bool) \<Rightarrow> u64 \<Rightarrow> uring_config \<Rightarrow> 'k \<Rightarrow> transport_error + 'k uring_driver" where
  "uring_driver_bind sys rs io alloc base cfg k =
     (case uring_validate cfg of Inl e \<Rightarrow> Inl e | Inr _ \<Rightarrow>
     (case index_pool_new alloc (ic_slots cfg) (ic_slot_size cfg) of Inl e \<Rightarrow> Inl e | Inr pool \<Rightarrow>
     (case uring_socket sys cfg k of (Inl e, _) \<Rightarrow> Inl e | (Inr fd, k1) \<Rightarrow>
     (case open_ring rs (next_power_of_two (ic_depth cfg + 2)) (next_power_of_two (ic_slots cfg + ic_depth cfg + 2)) k1 of
        (Inl e, _) \<Rightarrow> Inl e | (Inr _, k2) \<Rightarrow>
     (case probe rs io fd (k2, ip_region pool) of (Inl e, _) \<Rightarrow> Inl e | (Inr support, k3, rg) \<Rightarrow>
     (case select (ic_path cfg) support of Inl e \<Rightarrow> Inl e | Inr path \<Rightarrow>
     (case register_path rs cfg path k3 of (Inl e, _) \<Rightarrow> Inl e | (Inr ring, k4) \<Rightarrow>
     (case and_then (give_back io) (and_then (arm io) (enter io))
             (driver_new cfg base fd path ring (rs_skip_success rs k4) (pool\<lparr>ip_region := rg\<rparr>) k4) of
        (Inl e, _) \<Rightarrow> Inl e | (Inr _, d) \<Rightarrow> Inr d))))))))"

section \<open>The public type\<close>

definition uring_bind ::
  "'k sock_sys \<Rightarrow> 'k uring_sys \<Rightarrow> 'k uring_io \<Rightarrow> (nat \<Rightarrow> nat \<Rightarrow> bool) \<Rightarrow> u64 \<Rightarrow> metrics \<Rightarrow> uring_config \<Rightarrow> 'k
     \<Rightarrow> transport_error + 'k uring_driver bypass" where
  "uring_bind sys rs io alloc base m cfg k = map_sum id (bypass_new (uring_ops io) m) (uring_driver_bind sys rs io alloc base cfg k)"

definition uring_recv_burst ::
  "'k uring_io \<Rightarrow> bool \<Rightarrow> 'k uring_driver bypass \<Rightarrow> index_frame frame_batch
     \<Rightarrow> (transport_error + nat) \<times> 'k uring_driver bypass \<times> index_frame frame_batch" where
  "uring_recv_burst io = bypass_recv (uring_ops io)"

definition uring_local_addr :: "'k sock_sys \<Rightarrow> 'k uring_driver bypass \<Rightarrow> ('k, transport_error, socket_addr) call" where
  "uring_local_addr sys t =
     attempt (map_err (Io ''getsockname'') (ss_local_addr sys (ud_sock (bt_driver t)))) (\<lambda>addr.
     lift (case addr of Some a \<Rightarrow> Inr a | None \<Rightarrow> Inl (Io ''getsockname'' (IoError KindUnsupported None))))"

definition uring_join :: "'k sock_sys \<Rightarrow> 'k uring_driver bypass \<Rightarrow> ip_addr \<Rightarrow> multicast_interface \<Rightarrow> ('k, transport_error, unit) call" where
  "uring_join sys t grp iface =
     (let fd = ud_sock (bt_driver t) in
      case grp of
        IpV4 g \<Rightarrow>
          if mi_v6_scope_id iface \<noteq> None then lift (Inl (InvalidConfig ''iface.v6_scope_id'' ''set for IPv4 group''))
          else map_err (Io ''join_multicast'') (ss_join_v4 sys fd g (case mi_v4 iface of None \<Rightarrow> (0, 0, 0, 0) | Some a \<Rightarrow> a))
      | IpV6 g \<Rightarrow>
          if mi_v4 iface \<noteq> None then lift (Inl (InvalidConfig ''iface.v4'' ''set for IPv6 group''))
          else map_err (Io ''join_multicast'') (ss_join_v6 sys fd g (case mi_v6_scope_id iface of None \<Rightarrow> 0 | Some i \<Rightarrow> i)))"

end
