(* ===== verification/Uring_Custody.thy ===== *)
theory Uring_Custody
  imports Uring_Setup
begin

text \<open>
  Custody of pool slots and of armed receives in the \<^verbatim>\<open>io_uring\<close> driver. What is relied on of the \<^verbatim>\<open>io-uring\<close> crate and the kernel is
  \<open>uring_contract\<close>, over an abstract view of the rings: the slots on the kernel's side, the receive requests that have not
  ended, and the buffer-ring tail the kernel has seen.
\<close>

unbundle bit_operations_syntax

section \<open>The kernel's side\<close>

record uring_view =
  vw_held :: "u32 multiset"
  vw_recvs :: nat
  vw_tail :: u16

text \<open>Bytes of the slots outside \<open>S\<close> are left alone.\<close>

definition writes_only :: "u32 \<Rightarrow> u32 multiset \<Rightarrow> region \<Rightarrow> region \<Rightarrow> bool" where
  "writes_only sz S rg rg' \<longleftrightarrow>
     rg_size rg' = rg_size rg
     \<and> (\<forall>s off len. s \<notin># S \<longrightarrow> off + len \<le> unat sz \<longrightarrow> read_at (unat s * unat sz + off) len rg' = read_at (unat s * unat sz + off) len rg)"

definition sqe_slots :: "sqe \<Rightarrow> u32 multiset" where
  "sqe_slots e =
     (case sq_op e of
        ProvideBuffers _ _ nbufs _ bid \<Rightarrow> mset (map (\<lambda>i. ucast bid + of_nat i) [0..<unat nbufs])
      | _ \<Rightarrow> {#})"

definition queued :: "sqe \<Rightarrow> uring_view \<Rightarrow> uring_view" where
  "queued e v = v\<lparr>vw_held := vw_held v + sqe_slots e, vw_recvs := vw_recvs v + (if sq_user_data e = UD_RECV then 1 else 0)\<rparr>"

definition cqe_slots :: "'k uring_io \<Rightarrow> cqe list \<Rightarrow> u32 multiset" where
  "cqe_slots io cs = sum_list (map (\<lambda>c. case cqe_buffer io (cq_flags c) of None \<Rightarrow> {#} | Some s \<Rightarrow> {#ucast s#}) cs)"

definition ends_recv :: "'k uring_io \<Rightarrow> bool \<Rightarrow> cqe \<Rightarrow> bool" where
  "ends_recv io multishot c \<longleftrightarrow> cq_user_data c = UD_RECV \<and> (sint (cq_result c) < 0 \<or> \<not> (multishot \<and> cqe_more io (cq_flags c)))"

definition reaped :: "'k uring_io \<Rightarrow> bool \<Rightarrow> cqe list \<Rightarrow> uring_view \<Rightarrow> uring_view" where
  "reaped io multishot cs v =
     v\<lparr>vw_held := vw_held v + cqe_slots io cs, vw_recvs := vw_recvs v + length (filter (ends_recv io multishot) cs)\<rparr>"

text \<open>A completion carries a buffer only for a receive that succeeded, and a receive with data always does.\<close>

definition cqe_ok :: "'k uring_io \<Rightarrow> cqe \<Rightarrow> bool" where
  "cqe_ok io c \<longleftrightarrow>
     (cqe_buffer io (cq_flags c) \<noteq> None \<longrightarrow> cq_user_data c = UD_RECV \<and> 0 \<le> sint (cq_result c))
     \<and> (cq_user_data c = UD_RECV \<and> 0 < sint (cq_result c) \<longrightarrow> cqe_buffer io (cq_flags c) \<noteq> None)"

text \<open>Buffer ids the ring shows between two tails.\<close>

definition ring_bids :: "buf_ring \<Rightarrow> u16 \<Rightarrow> u16 \<Rightarrow> u32 multiset" where
  "ring_bids r from to =
     mset (map (\<lambda>i. ucast (snd (snd (br_entries r ! ((unat from + i) mod length (br_entries r)))))) [0..<unat (to - from)])"

definition stored :: "buf_ring \<Rightarrow> uring_view \<Rightarrow> uring_view" where
  "stored r v = v\<lparr>vw_held := vw_held v + ring_bids r (vw_tail v) (br_published r), vw_tail := br_published r\<rparr>"

text \<open>
  The contract. Queueing an entry hands over the buffers it provides; entering the kernel and reading completions lets it
  write into the slots it holds and nowhere else; releasing completions returns the buffers they name; a stored tail hands
  over the entries up to it, as long as the ring can hold every buffer handed over.
\<close>

definition uring_contract :: "'k uring_io \<Rightarrow> u32 \<Rightarrow> bool \<Rightarrow> ('k \<Rightarrow> uring_view) \<Rightarrow> bool" where
  "uring_contract io sz multishot view \<longleftrightarrow>
     (\<forall>e k b k'. sq_push io e k = (b, k') \<longrightarrow> view k' = (if b then queued e (view k) else view k))
     \<and> (\<forall>k rg r k' rg'. ring_submit io (k, rg) = (r, k', rg') \<longrightarrow> view k' = view k \<and> writes_only sz (vw_held (view k)) rg rg')
     \<and> (\<forall>t k rg r k' rg'. ring_submit_wait io t (k, rg) = (r, k', rg') \<longrightarrow> view k' = view k \<and> writes_only sz (vw_held (view k)) rg rg')
     \<and> (\<forall>k rg cs k' rg'. ring_completion io (k, rg) = (cs, k', rg') \<longrightarrow>
          view k' = view k \<and> writes_only sz (vw_held (view k)) rg rg' \<and> list_all (cqe_ok io) cs
          \<and> (\<forall>n \<le> length cs. view k' = reaped io multishot (take n cs) (view (cq_release io n k'))))
     \<and> (\<forall>r k. size (vw_held (view k)) + unat (br_published r - vw_tail (view k)) \<le> length (br_entries r) \<longrightarrow>
          view (ring_tail_stored io r k) = stored r (view k))"

lemma uring_contractD:
  assumes "uring_contract io sz multishot view"
  shows "sq_push io e k = (b, k') \<Longrightarrow> view k' = (if b then queued e (view k) else view k)"
    and "ring_submit io (k, rg) = (r, k', rg') \<Longrightarrow> view k' = view k \<and> writes_only sz (vw_held (view k)) rg rg'"
    and "ring_submit_wait io t (k, rg) = (r, k', rg') \<Longrightarrow> view k' = view k \<and> writes_only sz (vw_held (view k)) rg rg'"
    and "ring_completion io (k, rg) = (cs, k', rg') \<Longrightarrow>
      view k' = view k \<and> writes_only sz (vw_held (view k)) rg rg' \<and> list_all (cqe_ok io) cs
      \<and> (\<forall>n \<le> length cs. view k' = reaped io multishot (take n cs) (view (cq_release io n k')))"
    and "size (vw_held (view k)) + unat (br_published r' - vw_tail (view k)) \<le> length (br_entries r') \<Longrightarrow>
      view (ring_tail_stored io r' k) = stored r' (view k)"
proof -
  note c = assms [unfolded uring_contract_def]
  show "sq_push io e k = (b, k') \<Longrightarrow> view k' = (if b then queued e (view k) else view k)"
    by (rule c [THEN conjunct1, rule_format])
  show "ring_submit io (k, rg) = (r, k', rg') \<Longrightarrow> view k' = view k \<and> writes_only sz (vw_held (view k)) rg rg'"
    by (rule c [THEN conjunct2, THEN conjunct1, rule_format])
  show "ring_submit_wait io t (k, rg) = (r, k', rg') \<Longrightarrow> view k' = view k \<and> writes_only sz (vw_held (view k)) rg rg'"
    by (rule c [THEN conjunct2, THEN conjunct2, THEN conjunct1, rule_format])
  show "ring_completion io (k, rg) = (cs, k', rg') \<Longrightarrow>
      view k' = view k \<and> writes_only sz (vw_held (view k)) rg rg' \<and> list_all (cqe_ok io) cs
      \<and> (\<forall>n \<le> length cs. view k' = reaped io multishot (take n cs) (view (cq_release io n k')))"
    using c [THEN conjunct2, THEN conjunct2, THEN conjunct2, THEN conjunct1] by blast
  show "size (vw_held (view k)) + unat (br_published r' - vw_tail (view k)) \<le> length (br_entries r') \<Longrightarrow>
      view (ring_tail_stored io r' k) = stored r' (view k)"
    by (rule c [THEN conjunct2, THEN conjunct2, THEN conjunct2, THEN conjunct2, rule_format])
qed

section \<open>The driver invariant\<close>

definition own_slots :: "'k uring_driver \<Rightarrow> u32 multiset" where
  "own_slots d = mset (ud_back d) + pool_slots (ud_pool d)"

definition buf_ring_ok :: "u32 \<Rightarrow> u16 \<Rightarrow> buf_ring option \<Rightarrow> bool" where
  "buf_ring_ok n tail ring =
     (case ring of
        None \<Rightarrow> True
      | Some r \<Rightarrow>
          (\<exists>j \<le> 15. length (br_entries r) = 2 ^ j \<and> br_mask r = 2 ^ j - 1) \<and> unat n \<le> length (br_entries r)
          \<and> br_tail r = tail \<and> br_published r = tail)"

text \<open>
  In the middle of a step \<open>ex\<close> are the slots in the driver's hands outside its lists, and \<open>pend\<close> the receives queued but not
  yet counted as armed.
\<close>

definition uinv :: "('k \<Rightarrow> uring_view) \<Rightarrow> u32 multiset \<Rightarrow> nat \<Rightarrow> 'k uring_driver \<Rightarrow> bool" where
  "uinv view ex pend d \<longleftrightarrow>
     (let v = view (ud_ring d); p = ud_pool d in
      ex + own_slots d + vw_held v = all_slots (ip_count p) \<and> pool_ok p \<and> ip_stride p = ud_slot_size d
      \<and> unat (ip_count p) \<le> 32768 \<and> unat (fl_armed (ud_fleet d)) + pend = vw_recvs v
      \<and> buf_ring_ok (ip_count p) (vw_tail v) (ud_buf_ring d))"

definition uring_ok :: "('k \<Rightarrow> uring_view) \<Rightarrow> 'k uring_driver \<Rightarrow> bool" where
  "uring_ok view d \<longleftrightarrow> uinv view {#} 0 d"

definition same_setup :: "'k uring_driver \<Rightarrow> 'k uring_driver \<Rightarrow> bool" where
  "same_setup d d' \<longleftrightarrow> ud_slot_size d' = ud_slot_size d \<and> ud_path d' = ud_path d \<and> fl_depth (ud_fleet d') = fl_depth (ud_fleet d)
     \<and> ip_count (ud_pool d') = ip_count (ud_pool d) \<and> ip_stride (ud_pool d') = ip_stride (ud_pool d)
     \<and> (ud_buf_ring d' = None \<longleftrightarrow> ud_buf_ring d = None)"

text \<open>The frames \<open>fs\<close> became live and no byte of a frame that was live before changed.\<close>

definition keeps :: "'k uring_driver \<Rightarrow> index_frame list \<Rightarrow> 'k uring_driver \<Rightarrow> bool" where
  "keeps d fs d' \<longleftrightarrow> same_setup d d' \<and> ip_live (ud_pool d') = rev fs @ ip_live (ud_pool d)
     \<and> (\<forall>f \<in> set (ip_live (ud_pool d)). frame_bytes (ud_pool d') f = frame_bytes (ud_pool d) f)"

lemma keeps_refl: "keeps d [] d"
  by (simp add: keeps_def same_setup_def)

lemma keeps_trans: "keeps d fs d1 \<Longrightarrow> keeps d1 gs d2 \<Longrightarrow> keeps d (fs @ gs) d2"
  by (auto simp: keeps_def same_setup_def)

lemma keeps_setup: "keeps d fs d' \<Longrightarrow> same_setup d d'"
  by (simp add: keeps_def)

lemma live_slot_bounds:
  assumes "uinv view ex pend d" "f \<in> set (ip_live (ud_pool d))"
  shows "if_slot f \<notin># vw_held (view (ud_ring d))" "unat (if_offset f) + unat (if_len f) \<le> unat (ud_slot_size d)"
proof -
  have "if_slot f \<in># ex + own_slots d" using assms(2) by (auto simp: own_slots_def pool_slots_def live_slots_def)
  then show "if_slot f \<notin># vw_held (view (ud_ring d))"
    using slots_disjoint assms(1) by (auto simp: uinv_def Let_def)
  show "unat (if_offset f) + unat (if_len f) \<le> unat (ud_slot_size d)"
    using assms by (auto simp: uinv_def Let_def pool_ok_def frame_fits_def)
qed

section \<open>Kernel calls\<close>

text \<open>A step that changes the ring, the bytes of the region and the counters only.\<close>

definition by_kernel :: "u32 multiset \<Rightarrow> 'k uring_driver \<Rightarrow> 'k uring_driver \<Rightarrow> bool" where
  "by_kernel S d d' \<longleftrightarrow>
     (\<exists>rg st. d' = d\<lparr>ud_ring := ud_ring d', ud_pool := (ud_pool d)\<lparr>ip_region := rg\<rparr>, ud_stats := st\<rparr>
        \<and> writes_only (ud_slot_size d) S (ip_region (ud_pool d)) rg)"

lemma writes_only_refl: "writes_only sz S rg rg"
  by (simp add: writes_only_def)

lemma writes_only_trans: "writes_only sz S rg rg1 \<Longrightarrow> writes_only sz S rg1 rg2 \<Longrightarrow> writes_only sz S rg rg2"
  by (auto simp: writes_only_def)

lemma by_kernel_trans:
  assumes "by_kernel S d d1" "by_kernel S d1 d2"
  shows "by_kernel S d d2"
proof -
  obtain rg st where 1: "d1 = d\<lparr>ud_ring := ud_ring d1, ud_pool := (ud_pool d)\<lparr>ip_region := rg\<rparr>, ud_stats := st\<rparr>"
    "writes_only (ud_slot_size d) S (ip_region (ud_pool d)) rg" using assms(1) by (auto simp: by_kernel_def)
  obtain rg' st' where 2: "d2 = d1\<lparr>ud_ring := ud_ring d2, ud_pool := (ud_pool d1)\<lparr>ip_region := rg'\<rparr>, ud_stats := st'\<rparr>"
    "writes_only (ud_slot_size d1) S (ip_region (ud_pool d1)) rg'" using assms(2) by (auto simp: by_kernel_def)
  have "d2 = d\<lparr>ud_ring := ud_ring d2, ud_pool := (ud_pool d)\<lparr>ip_region := rg'\<rparr>, ud_stats := st'\<rparr>"
    by (subst 2(1), subst (1 2) 1(1)) simp
  moreover have "ud_slot_size d1 = ud_slot_size d" "ip_region (ud_pool d1) = rg" by (subst 1(1), simp)+
  ultimately show ?thesis using 1(2) 2(2) writes_only_trans by (fastforce simp: by_kernel_def)
qed

lemma by_kernel_fields:
  assumes "by_kernel S d d'"
  shows "ud_back d' = ud_back d" "ud_fleet d' = ud_fleet d" "ud_buf_ring d' = ud_buf_ring d" "ud_slot_size d' = ud_slot_size d"
    "ud_path d' = ud_path d" "own_slots d' = own_slots d" "ip_count (ud_pool d') = ip_count (ud_pool d)"
    "ip_stride (ud_pool d') = ip_stride (ud_pool d)" "ip_live (ud_pool d') = ip_live (ud_pool d)" "pool_ok (ud_pool d') = pool_ok (ud_pool d)"
    "ip_freed (ud_pool d') = ip_freed (ud_pool d)" "ud_base d' = ud_base d" "ud_skip_success d' = ud_skip_success d" "ud_sock d' = ud_sock d"
proof -
  obtain rg st where d: "d' = d\<lparr>ud_ring := ud_ring d', ud_pool := (ud_pool d)\<lparr>ip_region := rg\<rparr>, ud_stats := st\<rparr>"
    and w: "rg_size rg = rg_size (ip_region (ud_pool d))" using assms by (auto simp: by_kernel_def writes_only_def)
  show "ud_back d' = ud_back d" "ud_fleet d' = ud_fleet d" "ud_buf_ring d' = ud_buf_ring d" "ud_slot_size d' = ud_slot_size d"
    "ud_path d' = ud_path d" "own_slots d' = own_slots d" "ip_count (ud_pool d') = ip_count (ud_pool d)"
    "ip_stride (ud_pool d') = ip_stride (ud_pool d)" "ip_live (ud_pool d') = ip_live (ud_pool d)" "pool_ok (ud_pool d') = pool_ok (ud_pool d)"
    "ip_freed (ud_pool d') = ip_freed (ud_pool d)" "ud_base d' = ud_base d" "ud_skip_success d' = ud_skip_success d" "ud_sock d' = ud_sock d"
    by (subst d, simp add: own_slots_def pool_slots_def live_slots_def pool_ok_def frame_fits_def w)+
qed

lemma by_kernel_keeps:
  assumes "uinv view ex pend d" "by_kernel (vw_held (view (ud_ring d))) d d'"
  shows "keeps d [] d'"
proof -
  note f = by_kernel_fields [OF assms(2)]
  obtain rg st where d: "d' = d\<lparr>ud_ring := ud_ring d', ud_pool := (ud_pool d)\<lparr>ip_region := rg\<rparr>, ud_stats := st\<rparr>"
    and w: "writes_only (ud_slot_size d) (vw_held (view (ud_ring d))) (ip_region (ud_pool d)) rg"
    using assms(2) by (auto simp: by_kernel_def)
  have pool: "ud_pool d' = (ud_pool d)\<lparr>ip_region := rg\<rparr>" by (subst d) simp
  have stride: "ip_stride (ud_pool d) = ud_slot_size d" using assms(1) by (simp add: uinv_def Let_def)
  have "frame_bytes (ud_pool d') g = frame_bytes (ud_pool d) g" if "g \<in> set (ip_live (ud_pool d))" for g
    using w live_slot_bounds [OF assms(1) that] by (simp add: pool frame_bytes_def slot_start_def writes_only_def stride add.assoc)
  with f show ?thesis by (simp add: keeps_def same_setup_def)
qed

lemma by_kernel_inv:
  assumes "uinv view (A + ex) pend d" "by_kernel S d d'"
    and "view (ud_ring d') = (view (ud_ring d))\<lparr>vw_held := vw_held (view (ud_ring d)) + A, vw_recvs := vw_recvs (view (ud_ring d)) + m\<rparr>"
  shows "uinv view ex (pend + m) d'"
  using assms(1) by (simp add: uinv_def Let_def by_kernel_fields [OF assms(2)] assms(3) ac_simps)

lemma kernel_call_spec:
  assumes "kernel_call f d = (r, d')"
    and "\<And>k' rg'. f (ud_ring d, ip_region (ud_pool d)) = (r, k', rg') \<Longrightarrow> P k' \<and> writes_only (ud_slot_size d) S (ip_region (ud_pool d)) rg'"
  shows "P (ud_ring d')" "by_kernel S d d'"
proof -
  obtain r1 k rg where q: "f (ud_ring d, ip_region (ud_pool d)) = (r1, k, rg)" by (metis prod_cases3)
  then have d': "r1 = r" "d' = d\<lparr>ud_ring := k, ud_pool := (ud_pool d)\<lparr>ip_region := rg\<rparr>\<rparr>" using assms(1) by (simp_all add: kernel_call_def)
  from assms(2) q d'(1) show "P (ud_ring d')" by (simp add: d'(2))
  show "by_kernel S d d'"
    unfolding by_kernel_def by (rule exI [of _ rg], rule exI [of _ "ud_stats d"]) (use assms(2) q d' in simp)
qed

lemma enter_spec:
  assumes c: "uring_contract io sz ms view" and "ud_slot_size d = sz" and e: "enter io d = (r, d')"
  shows "view (ud_ring d') = view (ud_ring d)" "by_kernel (vw_held (view (ud_ring d))) d d'"
proof -
  let ?d1 = "d\<lparr>ud_stats := (ud_stats d)\<lparr>syscalls := syscalls (ud_stats d) + 1\<rparr>\<rparr>" let ?S = "vw_held (view (ud_ring d))"
  obtain q d2 where q: "kernel_call (ring_submit io) ?d1 = (q, d2)" by fastforce
  have d2: "d2 = d'" using e q by (auto simp: enter_def Let_def split: sum.split_asm if_split_asm)
  have "view (ud_ring d2) = view (ud_ring d) \<and> by_kernel ?S ?d1 d2"
    using kernel_call_spec [OF q, of "\<lambda>k. view k = view (ud_ring d)" ?S] uring_contractD(2) [OF c] assms(2) by simp
  moreover have "by_kernel ?S d ?d1"
    unfolding by_kernel_def by (rule exI [of _ "ip_region (ud_pool d)"]) (auto simp: writes_only_refl)
  ultimately show "view (ud_ring d') = view (ud_ring d)" "by_kernel ?S d d'" using by_kernel_trans d2 by blast+
qed

lemma by_kernel_ring: "by_kernel S d (d\<lparr>ud_ring := k\<rparr>)"
  unfolding by_kernel_def by (rule exI [of _ "ip_region (ud_pool d)"], rule exI [of _ "ud_stats d"]) (simp add: writes_only_refl)

text \<open>An entry is queued, or the view of the kernel is as before.\<close>

lemma push_spec:
  assumes c: "uring_contract io sz ms view" and sz: "ud_slot_size d = sz" and p: "push io e d = (r, d')"
  shows "view (ud_ring d') = (case r of Inr _ \<Rightarrow> queued e (view (ud_ring d)) | Inl _ \<Rightarrow> view (ud_ring d))"
    "by_kernel (vw_held (view (ud_ring d))) d d'"
proof -
  let ?S = "vw_held (view (ud_ring d))"
  obtain b k where q: "sq_push io e (ud_ring d) = (b, k)" by fastforce
  note v = uring_contractD(1) [OF c q]
  have "view (ud_ring d') = (case r of Inr _ \<Rightarrow> queued e (view (ud_ring d)) | Inl _ \<Rightarrow> view (ud_ring d)) \<and> by_kernel ?S d d'"
  proof (cases b)
    case True
    then show ?thesis using p q v by_kernel_ring by (auto simp: push_def)
  next
    case False
    obtain r1 d1 where e: "enter io (d\<lparr>ud_ring := k\<rparr>) = (r1, d1)" by fastforce
    have e1: "view (ud_ring d1) = view (ud_ring d)" "by_kernel ?S (d\<lparr>ud_ring := k\<rparr>) d1"
      using enter_spec [OF c _ e] sz v False by simp_all
    note k1 = by_kernel_trans [OF by_kernel_ring e1(2)]
    show ?thesis
    proof (cases r1)
      case (Inl err)
      then show ?thesis using p q False e e1 k1 by (auto simp: push_def)
    next
      case (Inr u)
      obtain b2 k2 where q2: "sq_push io e (ud_ring d1) = (b2, k2)" by fastforce
      note v2 = uring_contractD(1) [OF c q2]
      have "d' = d1\<lparr>ud_ring := k2\<rparr>" "b2 \<longleftrightarrow> (\<exists>u. r = Inr u)" using p q False e Inr q2 by (auto simp: push_def split: bool.split_asm)
      then show ?thesis using v2 e1(1) by_kernel_trans [OF k1 by_kernel_ring] by (auto split: sum.split)
    qed
  qed
  then show "view (ud_ring d') = (case r of Inr _ \<Rightarrow> queued e (view (ud_ring d)) | Inl _ \<Rightarrow> view (ud_ring d))" "by_kernel ?S d d'" by blast+
qed

lemma push_moves:
  assumes c: "uring_contract io sz ms view" and inv: "uinv view (sqe_slots e + ex) pend d" and sz: "ud_slot_size d = sz"
    and p: "push io e d = (r, d')"
  shows "keeps d [] d'" "case r of Inr _ \<Rightarrow> uinv view ex (pend + (if sq_user_data e = UD_RECV then 1 else 0)) d' | Inl _ \<Rightarrow> uinv view (sqe_slots e + ex) pend d'"
    "ud_fleet d' = ud_fleet d" "ud_back d' = ud_back d" "ip_freed (ud_pool d') = ip_freed (ud_pool d)"
proof -
  note q = push_spec [OF c sz p]
  show "keeps d [] d'" by (rule by_kernel_keeps [OF inv q(2)])
  show "ud_fleet d' = ud_fleet d" "ud_back d' = ud_back d" "ip_freed (ud_pool d') = ip_freed (ud_pool d)" using by_kernel_fields [OF q(2)] by simp_all
  show "case r of Inr _ \<Rightarrow> uinv view ex (pend + (if sq_user_data e = UD_RECV then 1 else 0)) d' | Inl _ \<Rightarrow> uinv view (sqe_slots e + ex) pend d'"
  proof (cases r)
    case (Inl err)
    then show ?thesis using by_kernel_inv [of view "{#}" "sqe_slots e + ex" pend d _ d' 0] inv q by simp
  next
    case (Inr u)
    then show ?thesis using by_kernel_inv [OF inv q(2), of "if sq_user_data e = UD_RECV then 1 else 0"] q(1) by (simp add: queued_def)
  qed
qed

section \<open>Refill\<close>

lemma run_length_take: "take (run_length x xs) xs = map (\<lambda>i. x + of_nat i) [0..<run_length x xs]"
proof -
  let ?zs = "map (\<lambda>i. x + of_nat i) [0..<length xs] :: u32 list" let ?n = "run_length x xs"
  have tw: "takeWhile (\<lambda>(s, t). s = t) (zip xs ?zs) = take ?n (zip xs ?zs)"
    by (metis (no_types, lifting) run_length_def takeWhile_eq_take)
  have "map fst (take ?n (zip xs ?zs)) = map snd (take ?n (zip xs ?zs))"
  proof (rule map_cong [OF refl])
    fix p assume "p \<in> set (take ?n (zip xs ?zs))"
    then have "p \<in> set (takeWhile (\<lambda>(s, t). s = t) (zip xs ?zs))" by (simp add: tw)
    then show "fst p = snd p" by (auto dest: set_takeWhileD)
  qed
  moreover have "map fst (take ?n (zip xs ?zs)) = take ?n xs" by (simp add: take_zip [symmetric] take_map [symmetric])
  moreover have "map snd (take ?n (zip xs ?zs)) = take ?n ?zs" by (simp add: take_zip [symmetric] take_map [symmetric])
  ultimately show ?thesis using run_length_le [of x xs] by (simp add: take_map take_upt)
qed

lemma id16_slot: "unat s < 65536 \<Longrightarrow> ucast (id16 (unat s)) = (s :: u32)"
  by (rule word_unat_eq_iff [THEN iffD2]) (simp add: id16_def unsigned_ucast_eq unsigned_take_bit_eq take_bit_nat_eq_self)

text \<open>The entry of a run provides exactly its slots.\<close>

lemma provide_entry_slots:
  assumes "unat x < 65536" "length (x # xs) < 65536"
  shows "sqe_slots (provide_entry d x (run_length x (x # xs))) = mset (take (run_length x (x # xs)) (x # xs))"
proof -
  have "unat (id16 (run_length x (x # xs))) = run_length x (x # xs)"
    using run_length_le [of x "x # xs"] assms(2) by (simp add: id16_def unat_of_nat)
  then show ?thesis by (simp add: sqe_slots_def provide_entry_def id16_slot [OF assms(1)] run_length_take)
qed

lemma inv_slots_bounded: "uinv view ex pend d \<Longrightarrow> s \<in># ex + own_slots d + vw_held (view (ud_ring d)) \<Longrightarrow> unat s < 32768"
  unfolding uinv_def Let_def by (metis in_all_slots le_less_trans less_le_trans not_less word_less_nat_alt)

lemma inv_slots_size: "uinv view ex pend d \<Longrightarrow> size ex + size (own_slots d) + size (vw_held (view (ud_ring d))) = unat (ip_count (ud_pool d))"
  unfolding uinv_def Let_def by (metis (no_types, lifting) all_slots_def length_map length_upt minus_nat.diff_0 size_mset size_union)

lemma provide_loop_moves:
  assumes c: "uring_contract io sz ms view"
  shows "uinv view (mset xs) pend d \<Longrightarrow> ud_slot_size d = sz \<Longrightarrow>
    provide_loop (\<lambda>first run d. push io (provide_entry d first run) d) xs d = (r, rest, d') \<Longrightarrow>
    uinv view (mset rest) pend d' \<and> keeps d [] d' \<and> ud_fleet d' = ud_fleet d \<and> ud_back d' = ud_back d
    \<and> ip_freed (ud_pool d') = ip_freed (ud_pool d) \<and> length rest \<le> length xs \<and> (case r of Inr _ \<Rightarrow> rest = [] | Inl _ \<Rightarrow> True)"
proof (induction "\<lambda>first run d. push io (provide_entry d first run) d" xs d arbitrary: rule: provide_loop.induct)
  case (1 s)
  then show ?case by (auto simp: keeps_refl)
next
  case (2 x xs d)
  let ?n = "run_length x (x # xs)"
  have "unat x < 65536" using inv_slots_bounded [OF 2(2), of x] by simp
  moreover have "length (x # xs) < 65536"
    using inv_slots_size [OF 2(2)] 2(2) by (simp add: uinv_def Let_def)
  ultimately have es: "sqe_slots (provide_entry d x ?n) = mset (take ?n (x # xs))" by (rule provide_entry_slots)
  have split: "mset (x # xs) = mset (take ?n (x # xs)) + mset (drop ?n (x # xs))" by (metis append_take_drop_id mset_append)
  obtain r1 d1 where p: "push io (provide_entry d x ?n) d = (r1, d1)" by fastforce
  have inv: "uinv view (sqe_slots (provide_entry d x ?n) + mset (drop ?n (x # xs))) pend d" using 2(2) split es by simp
  note m = push_moves [OF c inv 2(3) p]
  show ?case
  proof (cases r1)
    case (Inl e)
    then show ?thesis using 2(4) p m split es by auto
  next
    case (Inr u)
    have "uinv view (mset (drop ?n (x # xs))) pend d1" using m(2) Inr by (simp add: provide_entry_def UD_RECV_def UD_PROVIDE_def)
    moreover have "ud_slot_size d1 = sz" using m(1) 2(3) by (simp add: keeps_def same_setup_def)
    moreover have "provide_loop (\<lambda>first run d. push io (provide_entry d first run) d) (drop ?n (x # xs)) d1 = (r, rest, d')"
      using 2(4) p Inr by simp
    ultimately have "uinv view (mset rest) pend d' \<and> keeps d1 [] d' \<and> ud_fleet d' = ud_fleet d1 \<and> ud_back d' = ud_back d1
      \<and> ip_freed (ud_pool d') = ip_freed (ud_pool d1) \<and> length rest \<le> length (drop ?n (x # xs)) \<and> (case r of Inr _ \<Rightarrow> rest = [] | Inl _ \<Rightarrow> True)"
      by (rule 2(1) [OF p [symmetric] Inr])
    then show ?thesis using keeps_trans [OF m(1)] m(3-5) by auto
  qed
qed

lemma mask_mod16: "j \<le> 15 \<Longrightarrow> unat (t AND (2 ^ j - 1 :: u16)) = unat t mod 2 ^ j"
proof -
  assume "j \<le> 15"
  have "t AND (2 ^ j - 1) = take_bit j t" by (simp add: take_bit_eq_mask mask_eq_exp_minus_1)
  then have "unat (t AND (2 ^ j - 1)) = take_bit j (unat t)" by (simp only: unsigned_take_bit_eq)
  then show ?thesis by (simp only: take_bit_eq_mod)
qed

lemma tail_mod16:
  assumes "j \<le> 15"
  shows "unat (t + of_nat n :: u16) mod 2 ^ j = (unat t + n) mod 2 ^ j"
proof -
  have d: "(2 :: nat) ^ j dvd 2 ^ 16" using assms by (intro le_imp_power_dvd) simp
  have "unat (t + of_nat n :: u16) = (unat t + n) mod 2 ^ 16" by (simp add: unat_word_ariths unat_of_nat mod_simps)
  then show ?thesis using mod_mod_cancel [OF d] by simp
qed

text \<open>Entries pushed onto a ring that can hold them all.\<close>

lemma pushed_entries:
  fixes item :: "u32 \<Rightarrow> u64 \<times> u32 \<times> u16"
  assumes r: "length (br_entries r) = 2 ^ j" "br_mask r = 2 ^ j - 1" "j \<le> 15"
    and push: "\<And>s q. psh s q = br_push (fst (item s)) (fst (snd (item s))) (snd (snd (item s))) q"
  shows "length xs \<le> 2 ^ j \<Longrightarrow>
    (let q = fold psh xs r in br_tail q = br_tail r + of_nat (length xs) \<and> length (br_entries q) = 2 ^ j \<and> br_mask q = br_mask r
     \<and> br_published q = br_published r \<and> (\<forall>i < length xs. br_entries q ! ((unat (br_tail r) + i) mod 2 ^ j) = item (xs ! i)))"
proof (induction xs rule: rev_induct)
  case Nil
  then show ?case by (simp add: r)
next
  case (snoc x xs)
  define q where "q = fold psh xs r"
  let ?pos = "\<lambda>i. (unat (br_tail r) + i) mod 2 ^ j"
  have ih: "br_tail q = br_tail r + of_nat (length xs)" "length (br_entries q) = 2 ^ j" "br_mask q = br_mask r"
    "br_published q = br_published r" "\<forall>i < length xs. br_entries q ! ?pos i = item (xs ! i)"
    using snoc by (simp_all add: q_def Let_def)
  have at: "unat (br_tail q AND br_mask q) = ?pos (length xs)"
    using mask_mod16 [OF r(3), of "br_tail q"] tail_mod16 [OF r(3), of "br_tail r" "length xs"] ih(1,3) r(2) by simp
  have apart: "?pos i \<noteq> ?pos (length xs)" if "i < length xs" for i
    using mod_window_inj [of "unat (br_tail r)" "unat (br_tail r) + i" "2 ^ j" "unat (br_tail r) + length xs"] that snoc.prems by auto
  have "fold psh (xs @ [x]) r = br_push (fst (item x)) (fst (snd (item x))) (snd (snd (item x))) q" by (simp add: q_def push)
  then have new: "fold psh (xs @ [x]) r = q\<lparr>br_entries := (br_entries q)[?pos (length xs) := item x], br_tail := br_tail q + 1\<rparr>"
    using at by (simp add: br_push_def)
  have "(br_entries q)[?pos (length xs) := item x] ! ?pos i = item ((xs @ [x]) ! i)" if "i < Suc (length xs)" for i
    using that ih(2,5) apart [of i] by (cases "i = length xs") (auto simp: nth_append)
  then show ?case using ih new by (simp add: Let_def)
qed

text \<open>The slots a step of the refill leaves in hand, and what it keeps.\<close>

definition handed :: "('k \<Rightarrow> uring_view) \<Rightarrow> nat \<Rightarrow> u32 list \<Rightarrow> 'k uring_driver \<Rightarrow> (transport_error + unit) \<Rightarrow> u32 list \<Rightarrow> 'k uring_driver \<Rightarrow> bool" where
  "handed view pend back d r rest d' \<longleftrightarrow>
     uinv view (mset rest) pend d' \<and> keeps d [] d' \<and> ud_fleet d' = ud_fleet d \<and> ud_back d' = ud_back d
     \<and> ip_freed (ud_pool d') = ip_freed (ud_pool d) \<and> length rest \<le> length back \<and> (case r of Inr _ \<Rightarrow> rest = [] | Inl _ \<Rightarrow> True)"

lemma ring_stored:
  assumes c: "uring_contract io sz ms view" and inv: "uinv view (mset back) pend d" and ring: "ud_buf_ring d = Some r"
    and q: "q = br_publish (fold (\<lambda>slot. br_push (slot_addr d slot) (ud_slot_size d) (id16 (unat slot))) back r)"
  shows "view (ring_tail_stored io q (ud_ring d)) =
      (view (ud_ring d))\<lparr>vw_held := vw_held (view (ud_ring d)) + mset back, vw_tail := br_published q\<rparr>"
    "buf_ring_ok (ip_count (ud_pool d)) (br_published q) (Some q)"
proof -
  let ?v = "view (ud_ring d)"
  obtain j where j: "j \<le> 15" "length (br_entries r) = 2 ^ j" "br_mask r = 2 ^ j - 1"
    and t: "br_tail r = vw_tail ?v" "br_published r = vw_tail ?v" and n: "unat (ip_count (ud_pool d)) \<le> 2 ^ j"
    using inv ring by (auto simp: uinv_def Let_def buf_ring_ok_def)
  have room: "size (vw_held ?v) + length back \<le> 2 ^ j" using inv_slots_size [OF inv] n by simp
  have small: "length back < 65536" using inv_slots_size [OF inv] inv by (simp add: uinv_def Let_def)
  define item where "item = (\<lambda>slot. (slot_addr d slot, ud_slot_size d, id16 (unat slot)))"
  define p where "p = fold (\<lambda>slot. br_push (slot_addr d slot) (ud_slot_size d) (id16 (unat slot))) back r"
  have pe: "br_tail p = vw_tail ?v + of_nat (length back)" "length (br_entries p) = 2 ^ j" "br_mask p = 2 ^ j - 1"
    "\<forall>i < length back. br_entries p ! ((unat (vw_tail ?v) + i) mod 2 ^ j) = item (back ! i)"
    using pushed_entries [OF j(2) j(3) j(1), where item = item and xs = "back"
        and psh = "\<lambda>slot. br_push (slot_addr d slot) (ud_slot_size d) (id16 (unat slot))"] room
    by (simp_all add: item_def p_def [symmetric] Let_def t j(3))
  have qp: "br_published q = vw_tail ?v + of_nat (length back)" "br_entries q = br_entries p" "br_tail q = br_published q" "br_mask q = 2 ^ j - 1"
    by (simp_all add: q p_def [symmetric] br_publish_def pe)
  have len: "unat (br_published q - vw_tail ?v) = length back" using small by (simp add: qp unat_of_nat)
  have bid: "ucast (snd (snd (item s))) = s" if "s \<in> set back" for s
    using inv_slots_bounded [OF inv, of s] that by (simp add: item_def id16_slot)
  have "map (\<lambda>i. ucast (snd (snd (br_entries q ! ((unat (vw_tail ?v) + i) mod length (br_entries q)))))) [0..<length back] = back"
    by (rule nth_equalityI) (simp_all add: qp pe bid)
  then have "ring_bids q (vw_tail ?v) (br_published q) = mset back" by (simp add: ring_bids_def len)
  then show "view (ring_tail_stored io q (ud_ring d)) = ?v\<lparr>vw_held := vw_held ?v + mset back, vw_tail := br_published q\<rparr>"
    using uring_contractD(5) [OF c, of "ud_ring d" q] room len by (simp add: stored_def qp pe)
  show "buf_ring_ok (ip_count (ud_pool d)) (br_published q) (Some q)" using j n by (auto simp: buf_ring_ok_def qp pe)
qed

lemma hand_over_moves:
  assumes c: "uring_contract io sz ms view" and inv: "uinv view (mset back) pend d" and sz: "ud_slot_size d = sz"
    and h: "hand_over io back d = (r, rest, d')"
  shows "handed view pend back d r rest d'"
proof (cases "ud_buf_ring d")
  case None
  then have "provide_loop (\<lambda>first run d. push io (provide_entry d first run) d) (sort back) d = (r, rest, d')"
    using h by (simp add: hand_over_def provide_runs_def)
  from provide_loop_moves [OF c _ sz this, of pend] inv show ?thesis by (simp add: handed_def)
next
  case (Some ring)
  define q where "q = br_publish (fold (\<lambda>slot. br_push (slot_addr d slot) (ud_slot_size d) (id16 (unat slot))) back ring)"
  have d': "r = Inr ()" "rest = []" "d' = d\<lparr>ud_buf_ring := Some q, ud_ring := ring_tail_stored io q (ud_ring d)\<rparr>"
    using h Some by (simp_all add: hand_over_def q_def Let_def)
  note s = ring_stored [OF c inv Some q_def]
  have "uinv view {#} pend d'" using inv s by (simp add: d' uinv_def Let_def own_slots_def ac_simps)
  moreover have "keeps d [] d'" using Some by (simp add: keeps_def same_setup_def d')
  ultimately show ?thesis by (simp add: handed_def d')
qed

text \<open>Every step of a poll after the completions keeps the invariant and the frames handed out.\<close>

definition step_ok :: "('k \<Rightarrow> uring_view) \<Rightarrow> 'k uring_driver \<Rightarrow> 'k uring_driver \<Rightarrow> bool" where
  "step_ok view d d' \<longleftrightarrow> uring_ok view d' \<and> keeps d [] d'"

lemma step_ok_trans: "step_ok view d d1 \<Longrightarrow> step_ok view d1 d2 \<Longrightarrow> step_ok view d d2"
  using keeps_trans [of d "[]" d1 "[]" d2] by (simp add: step_ok_def)

lemma step_ok_size: "step_ok view d d' \<Longrightarrow> ud_slot_size d' = ud_slot_size d"
  by (simp add: step_ok_def keeps_def same_setup_def)

lemma give_back_ok:
  assumes c: "uring_contract io sz ms view" and ok: "uring_ok view d" and sz: "ud_slot_size d = sz" and g: "give_back io d = (r, d')"
  shows "step_ok view d d'"
proof (cases "ud_back d = []")
  case True
  then show ?thesis using g ok by (simp add: give_back_def step_ok_def keeps_refl)
next
  case False
  let ?d0 = "d\<lparr>ud_back := []\<rparr>"
  obtain r1 rest d1 where h: "hand_over io (ud_back d) ?d0 = (r1, rest, d1)" by (metis prod_cases3)
  have "uinv view (mset (ud_back d)) 0 ?d0" using ok by (simp add: uring_ok_def uinv_def Let_def own_slots_def ac_simps)
  from hand_over_moves [OF c this _ h] sz have m: "handed view 0 (ud_back d) ?d0 r1 rest d1" by simp
  have d': "d' = d1\<lparr>ud_fleet := fleet_refilled (length (ud_back d) - length rest) (ud_fleet d1), ud_back := rest\<rparr>"
    using g False h by (simp add: give_back_def)
  have "uinv view (mset rest) 0 d1" "ud_back d1 = []" using m by (simp_all add: handed_def)
  then have "uring_ok view d'" by (simp add: d' uring_ok_def uinv_def Let_def own_slots_def fleet_refilled_def ac_simps)
  moreover have "keeps d [] d'" using m by (simp add: handed_def d' keeps_def same_setup_def fleet_refilled_def)
  ultimately show ?thesis by (simp add: step_ok_def)
qed

section \<open>Receives\<close>

lemma arm_loop_ok:
  assumes c: "uring_contract io sz ms view" and e: "sqe_slots e = {#}" "sq_user_data e = UD_RECV"
  shows "uring_ok view d \<Longrightarrow> ud_slot_size d = sz \<Longrightarrow> unat (fl_armed (ud_fleet d)) + n \<le> unat (fl_depth (ud_fleet d)) \<Longrightarrow>
    arm_loop io e n d = (r, d') \<Longrightarrow> step_ok view d d'"
proof (induction n arbitrary: d)
  case 0
  then show ?case by (simp add: step_ok_def keeps_refl)
next
  case (Suc n)
  obtain r1 d1 where p: "push io e d = (r1, d1)" by fastforce
  have "uinv view (sqe_slots e + {#}) 0 d" using Suc.prems(1) e by (simp add: uring_ok_def)
  note m = push_moves [OF c this Suc.prems(2) p]
  show ?case
  proof (cases r1)
    case (Inl err)
    then show ?thesis using Suc.prems(4) p m e by (auto simp: step_ok_def uring_ok_def)
  next
    case (Inr u)
    let ?d2 = "d1\<lparr>ud_fleet := (ud_fleet d1)\<lparr>fl_armed := fl_armed (ud_fleet d1) + 1\<rparr>\<rparr>"
    have "unat (fl_armed (ud_fleet d)) + 1 < 2 ^ 32"
      using Suc.prems(3) unat_less_pow [of "fl_depth (ud_fleet d)"] by simp
    then have a: "unat (fl_armed (ud_fleet d) + 1) = unat (fl_armed (ud_fleet d)) + 1" by (simp add: unat_word_ariths)
    have "uinv view {#} 1 d1" using m(2) Inr e by simp
    then have "uring_ok view ?d2" using m(3) a by (simp add: uring_ok_def uinv_def Let_def own_slots_def)
    then have s: "step_ok view d ?d2" using m(1) by (simp add: step_ok_def keeps_def same_setup_def)
    have "step_ok view ?d2 d'"
    proof (rule Suc.IH)
      show "uring_ok view ?d2" using s by (simp add: step_ok_def)
      show "ud_slot_size ?d2 = sz" using step_ok_size [OF s] Suc.prems(2) by simp
      show "unat (fl_armed (ud_fleet ?d2)) + n \<le> unat (fl_depth (ud_fleet ?d2))" using Suc.prems(3) a m(3) by simp
      show "arm_loop io e n ?d2 = (r, d')" using Suc.prems(4) p Inr by simp
    qed
    with s show ?thesis by (rule step_ok_trans)
  qed
qed

lemma arm_ok:
  assumes c: "uring_contract io sz ms view" and "uring_ok view d" "ud_slot_size d = sz" "arm io d = (r, d')"
  shows "step_ok view d d'"
proof (cases "wanted (ud_fleet d) = 0")
  case True
  then show ?thesis using assms by (simp add: arm_def step_ok_def keeps_refl)
next
  case False
  then have "fl_armed (ud_fleet d) \<le> fl_depth (ud_fleet d)" "wanted (ud_fleet d) = fl_depth (ud_fleet d) - fl_armed (ud_fleet d)"
    by (auto simp: wanted_def sat_sub32_def split: if_split_asm)
  then have "unat (fl_armed (ud_fleet d)) + unat (wanted (ud_fleet d)) \<le> unat (fl_depth (ud_fleet d))"
    by (simp add: unat_sub word_le_nat_alt)
  moreover have "sqe_slots (recv_entry d) = {#}" "sq_user_data (recv_entry d) = UD_RECV"
    by (simp_all add: sqe_slots_def recv_entry_def split: recv_path.split)
  ultimately show ?thesis using arm_loop_ok [OF c] assms(2-4) unfolding arm_def by blast
qed

lemma submit_ok:
  assumes c: "uring_contract io sz ms view" and ok: "uring_ok view d" and sz: "ud_slot_size d = sz" and s: "submit_if_needed io d = (r, d')"
  shows "step_ok view d d'"
proof (cases "sq_is_empty io (ud_ring d) \<and> \<not> cq_overflow io (ud_ring d)")
  case True
  then show ?thesis using s ok by (simp add: submit_if_needed_def step_ok_def keeps_refl)
next
  case False
  then have "enter io d = (r, d')" using s by (auto simp: submit_if_needed_def)
  note e = enter_spec [OF c sz this]
  show ?thesis using by_kernel_keeps [OF ok [unfolded uring_ok_def] e(2)] by_kernel_inv [of view "{#}" "{#}" 0 d _ d' 0] e ok
    by (simp add: step_ok_def uring_ok_def)
qed

lemma refill_and_arm_ok:
  assumes c: "uring_contract io sz ms view" and ok: "uring_ok view d" and sz: "ud_slot_size d = sz" and s: "refill_and_arm io d = (r, d')"
  shows "step_ok view d d'"
proof -
  obtain r1 d1 where g: "give_back io d = (r1, d1)" by fastforce
  note g1 = give_back_ok [OF c ok sz g]
  show ?thesis
  proof (cases r1)
    case (Inl e)
    then show ?thesis using s g g1 by (simp add: refill_and_arm_def and_then_def)
  next
    case (Inr u)
    have 1: "uring_ok view d1" "ud_slot_size d1 = sz" using g1 step_ok_size [OF g1] sz by (simp_all add: step_ok_def)
    obtain r2 d2 where a: "arm io d1 = (r2, d2)" by fastforce
    note a1 = arm_ok [OF c 1 a]
    show ?thesis
    proof (cases r2)
      case (Inl e)
      then show ?thesis using s g Inr a step_ok_trans [OF g1 a1] by (simp add: refill_and_arm_def and_then_def)
    next
      case (Inr u2)
      have 2: "uring_ok view d2" "ud_slot_size d2 = sz" using a1 step_ok_size [OF a1] 1(2) by (simp_all add: step_ok_def)
      have "submit_if_needed io d2 = (r, d')" using s g \<open>r1 = Inr u\<close> a Inr by (simp add: refill_and_arm_def and_then_def)
      from step_ok_trans [OF step_ok_trans [OF g1 a1] submit_ok [OF c 2 this]] show ?thesis .
    qed
  qed
qed

section \<open>Completions\<close>

fun completion_slots :: "completion \<Rightarrow> u32 multiset" where
  "completion_slots (Data slot _ _) = {#ucast slot#}"
| "completion_slots (Truncated slot _) = {#ucast slot#}"
| "completion_slots _ = {#}"

lemma classify_ok:
  assumes "cqe_ok io c" "cq_user_data c = UD_RECV"
  shows "completion_ends (classify_cqe io d c) \<longleftrightarrow> ends_recv io (ud_path d = Multishot) c"
    "completion_slots (classify_cqe io d c) = cqe_slots io [c]"
    "classify_cqe io d c = Data slot len rearm \<Longrightarrow> unat len \<le> unat (ud_slot_size d)"
proof -
  have pos: "\<not> sint (cq_result c) < 0 \<Longrightarrow> cq_result c \<noteq> 0 \<Longrightarrow> 0 < sint (cq_result c)" by (metis linorder_neqE_linordered_idom sint_0 signed_word_eqI)
  show "completion_ends (classify_cqe io d c) \<longleftrightarrow> ends_recv io (ud_path d = Multishot) c"
    "completion_slots (classify_cqe io d c) = cqe_slots io [c]"
    using assms pos by (auto simp: classify_cqe_def classify_def ends_recv_def cqe_slots_def cqe_ok_def Let_def split: option.split)
  show "unat len \<le> unat (ud_slot_size d)" if "classify_cqe io d c = Data slot len rearm"
    using that by (auto simp: classify_cqe_def classify_def Let_def word_le_nat_alt not_less split: option.split_asm if_split_asm)
qed

lemma fleet_complete_armed:
  "(if completion_ends c then 1 else 0) \<le> unat (fl_armed f) \<Longrightarrow>
   unat (fl_armed (fleet_complete c f)) + (if completion_ends c then 1 else 0) = unat (fl_armed f)"
  by (auto simp: fleet_complete_def Let_def sat_sub32_def unat_sub word_le_nat_alt)

lemma fleet_complete_depth: "fl_depth (fleet_complete c f) = fl_depth f"
  by (simp add: fleet_complete_def Let_def)

text \<open>The entries \<open>cs\<close> were read: their slots are the driver's, the frames \<open>fs\<close> are live.\<close>

definition reads :: "'k uring_io \<Rightarrow> 'k uring_driver \<Rightarrow> cqe list \<Rightarrow> index_frame list \<Rightarrow> 'k uring_driver \<Rightarrow> bool" where
  "reads io d cs fs d' \<longleftrightarrow>
     own_slots d' = own_slots d + cqe_slots io cs \<and> same_setup d d' \<and> ud_ring d' = ud_ring d \<and> ud_buf_ring d' = ud_buf_ring d
     \<and> ip_live (ud_pool d') = rev fs @ ip_live (ud_pool d) \<and> ip_region (ud_pool d') = ip_region (ud_pool d)
     \<and> (\<forall>f \<in> set fs. if_slot f \<in># cqe_slots io cs \<and> unat (if_offset f) + unat (if_len f) \<le> unat (ud_slot_size d))
     \<and> (let ended = length (filter (ends_recv io (ud_path d = Multishot)) cs) in
        ended \<le> unat (fl_armed (ud_fleet d)) \<longrightarrow> unat (fl_armed (ud_fleet d')) + ended = unat (fl_armed (ud_fleet d)))"

lemma cqe_slots_append: "cqe_slots io (xs @ ys) = cqe_slots io xs + cqe_slots io ys"
  by (simp add: cqe_slots_def)

lemma reads_refl: "reads io d [] [] d"
  by (simp add: reads_def same_setup_def cqe_slots_def)

lemma reads_trans: "reads io d cs fs d1 \<Longrightarrow> reads io d1 cs' fs' d2 \<Longrightarrow> reads io d (cs @ cs') (fs @ fs') d2"
  by (auto simp: reads_def same_setup_def cqe_slots_append Let_def)

lemma reads_other:
  assumes "cqe_ok io c" "cq_user_data c \<noteq> UD_RECV"
  shows "reads io d [c] [] d"
  using assms by (auto simp: reads_def same_setup_def cqe_slots_def cqe_ok_def ends_recv_def Let_def)

text \<open>One receive completion: its slot becomes a frame, goes back, or there is none.\<close>

lemma reads_recv:
  assumes "cqe_ok io c" "cq_user_data c = UD_RECV" "compl = classify_cqe io d c"
    and d1: "d1 = d\<lparr>ud_fleet := fleet_complete compl (ud_fleet d)\<rparr>"
  shows "compl = Data slot len b \<Longrightarrow> pool_frame (ucast slot) 0 len (ud_pool d1) = (f, pool) \<Longrightarrow> reads io d [c] [f] (d1\<lparr>ud_pool := pool\<rparr>)"
    and "compl = Truncated slot b \<Longrightarrow> reads io d [c] [] (d1\<lparr>ud_stats := st, ud_back := ud_back d1 @ [ucast slot]\<rparr>)"
    and "completion_slots compl = {#} \<Longrightarrow> reads io d [c] [] (d1\<lparr>ud_stats := st\<rparr>)"
proof -
  note k = classify_ok [OF assms(1,2), of d, folded assms(3)]
  have a: "(if ends_recv io (ud_path d = Multishot) c then 1 else 0) \<le> unat (fl_armed (ud_fleet d)) \<Longrightarrow>
    unat (fl_armed (fleet_complete compl (ud_fleet d))) + (if ends_recv io (ud_path d = Multishot) c then 1 else 0) = unat (fl_armed (ud_fleet d))"
    using fleet_complete_armed [of compl "ud_fleet d"] k(1) by simp
  note simps = reads_def d1 same_setup_def fleet_complete_depth own_slots_def pool_slots_def live_slots_def pool_frame_def
  show "reads io d [c] [f] (d1\<lparr>ud_pool := pool\<rparr>)" if "compl = Data slot len b" "pool_frame (ucast slot) 0 len (ud_pool d1) = (f, pool)"
    using that a k(2) [symmetric] k(3) by (auto simp: simps Let_def)
  show "reads io d [c] [] (d1\<lparr>ud_stats := st, ud_back := ud_back d1 @ [ucast slot]\<rparr>)" if "compl = Truncated slot b"
    using that a k(2) [symmetric] by (auto simp: simps Let_def)
  show "reads io d [c] [] (d1\<lparr>ud_stats := st\<rparr>)" if "completion_slots compl = {#}"
    using that a k(2) [symmetric] by (auto simp: simps Let_def)
qed

lemma extends_push: "0 < spare out \<Longrightarrow> extends_batch (batch_push f out) fs out' \<Longrightarrow> extends_batch out (f # fs) out'"
  by (auto simp: extends_batch_def batch_push_def batch_defs)

text \<open>What a pass over the snapshot leaves; \<open>m\<close> entries were read.\<close>

definition passed ::
  "'k uring_io \<Rightarrow> 'k uring_driver \<Rightarrow> cqe list \<Rightarrow> nat \<Rightarrow> index_frame frame_batch \<Rightarrow> (transport_error + nat) \<Rightarrow> nat \<Rightarrow> 'k uring_driver
     \<Rightarrow> index_frame frame_batch \<Rightarrow> bool" where
  "passed io d cs pushed out res m d' out' \<longleftrightarrow>
     (\<exists>fs. m \<le> length cs \<and> reads io d (take m cs) fs d' \<and> extends_batch out fs out'
        \<and> (case res of Inr k \<Rightarrow> k = pushed + length fs | Inl _ \<Rightarrow> True))"

lemma passed_Cons:
  assumes "reads io d [c] fs d1" "extends_batch out fs out1" "passed io d1 cs (pushed + length fs) out1 res m d' out'"
  shows "passed io d (c # cs) pushed out res (Suc m) d' out'"
proof -
  obtain gs where g: "m \<le> length cs" "reads io d1 (take m cs) gs d'" "extends_batch out1 gs out'"
    "case res of Inr k \<Rightarrow> k = pushed + length fs + length gs | Inl _ \<Rightarrow> True" using assms(3) by (auto simp: passed_def)
  have "reads io d (take (Suc m) (c # cs)) (fs @ gs) d'" using reads_trans [OF assms(1) g(2)] by simp
  moreover have "extends_batch out (fs @ gs) out'" using assms(2) g(3) by (auto simp: extends_batch_def batch_defs)
  ultimately show ?thesis unfolding passed_def using g(1,4) by (intro exI [of _ "fs @ gs"]) (auto split: sum.split)
qed

lemma passed_stop: "reads io d [c] [] d1 \<Longrightarrow> passed io d (c # cs) pushed out (Inl e) (Suc 0) d1 out"
  unfolding passed_def by (intro exI [of _ "[]"]) simp

lemma complete_loop_passes:
  "list_all (cqe_ok io) cs \<Longrightarrow> complete_loop io cs n pushed d out = (res, n', d', out') \<Longrightarrow>
   \<exists>m. n' = n + m \<and> passed io d cs pushed out res m d' out'"
proof (induction cs arbitrary: n pushed d out)
  case Nil
  then show ?case unfolding passed_def by (intro exI [of _ 0] exI [of _ "[]"]) (auto simp: reads_refl)
next
  case (Cons c cs)
  have rest: "\<exists>m. n' = n + m \<and> passed io d (c # cs) pushed out res m d' out'"
    if "reads io d [c] fs d1" "extends_batch out fs out1" "complete_loop io cs (n + 1) (pushed + length fs) d1 out1 = (res, n', d', out')"
    for fs d1 out1
    using Cons.IH [OF _ that(3)] Cons.prems(1) passed_Cons [OF that(1,2)] by fastforce
  have ok: "cqe_ok io c" using Cons.prems(1) by simp
  consider (full) "spare out = 0" | (recv) "0 < spare out" "cq_user_data c = UD_RECV" | (other) "0 < spare out" "cq_user_data c \<noteq> UD_RECV" by blast
  then show ?case
  proof cases
    case full
    then show ?thesis using Cons.prems(2) unfolding passed_def by (intro exI [of _ 0] exI [of _ "[]"]) (auto simp: reads_refl)
  next
    case other
    show ?thesis
    proof (cases "cq_user_data c = UD_PROVIDE \<and> sint (cq_result c) < 0")
      case True
      then show ?thesis using Cons.prems(2) other passed_stop [OF reads_other [OF ok other(2)]] by auto
    next
      case False
      then show ?thesis using Cons.prems(2) other rest [OF reads_other [OF ok other(2)] extends_batch_nil] by auto
    qed
  next
    case recv
    define compl where "compl = classify_cqe io d c"
    define d1 where "d1 = d\<lparr>ud_fleet := fleet_complete compl (ud_fleet d)\<rparr>"
    note r = reads_recv [OF ok recv(2) compl_def d1_def]
    show ?thesis
    proof (cases compl)
      case (Data slot len b)
      obtain f pool where f: "pool_frame (ucast slot) 0 len (ud_pool d1) = (f, pool)" by fastforce
      have "extends_batch out [f] (batch_push f out)" using recv(1) by (auto simp: extends_batch_def batch_defs)
      then show ?thesis using rest [OF r(1) [OF Data f]] Cons.prems(2) recv f Data by (simp add: Let_def compl_def [symmetric]) (simp add: d1_def)
    next
      case (Truncated slot b)
      then show ?thesis using rest [OF r(2) [OF Truncated, of "(ud_stats d1)\<lparr>ds_truncated := ds_truncated (ud_stats d1) + 1\<rparr>"] extends_batch_nil] Cons.prems(2) recv
        by (simp add: Let_def compl_def [symmetric]) (simp add: d1_def)
    next
      case (EmptyDatagram b)
      then show ?thesis using rest [OF r(3) [of "ud_stats d1"] extends_batch_nil] Cons.prems(2) recv
        by (simp add: Let_def compl_def [symmetric]) (simp add: d1_def)
    next
      case NoBuffers
      then show ?thesis using rest [OF r(3) [of "(ud_stats d1)\<lparr>no_buffer := no_buffer (ud_stats d1) + 1\<rparr>"] extends_batch_nil] Cons.prems(2) recv
        by (simp add: Let_def compl_def [symmetric]) (simp add: d1_def)
    next
      case (Failed errno)
      then show ?thesis using passed_stop [OF r(3) [of "ud_stats d1"]] Cons.prems(2) recv by (auto simp: Let_def compl_def [symmetric]) (simp add: d1_def)
    qed
  qed
qed

lemma held_reaped: "vw_held (reaped io ms cs v) = vw_held v + cqe_slots io cs"
  by (simp add: reaped_def)

text \<open>The entries read are released: their slots and the receives they ended leave the kernel's side.\<close>

lemma released_ok:
  assumes ok: "uring_ok view d" and r: "reads io d cs fs d'" and ms: "(ud_path d = Multishot) = ms"
    and v: "view (ud_ring d) = reaped io ms cs (view k)"
  shows "uring_ok view (d'\<lparr>ud_ring := k\<rparr>)" "keeps d fs (d'\<lparr>ud_ring := k\<rparr>)"
proof -
  have inv: "own_slots d + vw_held (view k) + cqe_slots io cs = all_slots (ip_count (ud_pool d))" "pool_ok (ud_pool d)"
    "ip_stride (ud_pool d) = ud_slot_size d" "unat (ip_count (ud_pool d)) \<le> 32768"
    "unat (fl_armed (ud_fleet d)) = vw_recvs (view k) + length (filter (ends_recv io ms) cs)"
    "buf_ring_ok (ip_count (ud_pool d)) (vw_tail (view k)) (ud_buf_ring d)"
    using ok by (simp_all add: uring_ok_def uinv_def Let_def v reaped_def ac_simps)
  have r': "own_slots d' = own_slots d + cqe_slots io cs" "same_setup d d'" "ud_buf_ring d' = ud_buf_ring d"
    "ip_live (ud_pool d') = rev fs @ ip_live (ud_pool d)" "ip_region (ud_pool d') = ip_region (ud_pool d)"
    "\<forall>f \<in> set fs. if_slot f \<in># cqe_slots io cs \<and> unat (if_offset f) + unat (if_len f) \<le> unat (ud_slot_size d)"
    "unat (fl_armed (ud_fleet d')) = vw_recvs (view k)" using r inv(5) ms by (simp_all add: reads_def Let_def)
  have "if_slot f < ip_count (ud_pool d)" if "f \<in> set fs" for f
    using slots_bounded [of "cqe_slots io cs" "own_slots d + vw_held (view k)"] inv(1) r'(6) that by (simp add: ac_simps)
  then have "pool_ok (ud_pool d')" using inv(2,3) r' by (auto simp: pool_ok_def frame_fits_def same_setup_def)
  then show "uring_ok view (d'\<lparr>ud_ring := k\<rparr>)"
    using inv r' by (simp add: uring_ok_def uinv_def Let_def own_slots_def same_setup_def ac_simps)
  show "keeps d fs (d'\<lparr>ud_ring := k\<rparr>)"
    using r' by (auto simp: keeps_def same_setup_def frame_bytes_def slot_start_def)
qed

lemma complete_ok:
  assumes c: "uring_contract io sz ms view" and ok: "uring_ok view d" and sz: "ud_slot_size d = sz" and ms: "(ud_path d = Multishot) = ms"
    and run: "uring_complete io d out = (res, d', out')"
  shows "\<exists>fs. extends_batch out fs out' \<and> uring_ok view d' \<and> keeps d fs d' \<and> (case res of Inr k \<Rightarrow> k = length fs | Inl _ \<Rightarrow> True)"
proof -
  let ?S = "vw_held (view (ud_ring d))"
  obtain cs d1 where k: "kernel_call (ring_completion io) d = (cs, d1)" by fastforce
  have q: "view (ud_ring d1) = view (ud_ring d) \<and> list_all (cqe_ok io) cs
      \<and> (\<forall>n \<le> length cs. view (ud_ring d1) = reaped io ms (take n cs) (view (cq_release io n (ud_ring d1))))" "by_kernel ?S d d1"
    using kernel_call_spec [OF k, of "\<lambda>k. view k = view (ud_ring d) \<and> list_all (cqe_ok io) cs
      \<and> (\<forall>n \<le> length cs. view k = reaped io ms (take n cs) (view (cq_release io n k)))" ?S] uring_contractD(4) [OF c] sz by blast+
  have ok1: "uring_ok view d1" using by_kernel_inv [of view "{#}" "{#}" 0 d _ d1 0] q ok by (simp add: uring_ok_def)
  have k1: "keeps d [] d1" by (rule by_kernel_keeps [OF ok [unfolded uring_ok_def] q(2)])
  obtain r n d2 o2 where l: "complete_loop io cs 0 0 d1 out = (r, n, d2, o2)" by (metis prod_cases4)
  have fin: "res = r" "d' = d2\<lparr>ud_ring := cq_release io n (ud_ring d2)\<rparr>" "out' = o2" using run k l by (simp_all add: uring_complete_def)
  obtain fs where p: "n \<le> length cs" "reads io d1 (take n cs) fs d2" "extends_batch out fs out'"
    "case r of Inr k \<Rightarrow> k = 0 + length fs | Inl _ \<Rightarrow> True"
    using complete_loop_passes [OF _ l] q(1) by (auto simp: passed_def fin)
  have "ud_ring d2 = ud_ring d1" using p(2) by (simp add: reads_def)
  moreover have "view (ud_ring d1) = reaped io ms (take n cs) (view (cq_release io n (ud_ring d1)))" using q(1) p(1) by blast
  moreover have "(ud_path d1 = Multishot) = ms" using k1 ms by (simp add: keeps_def same_setup_def)
  ultimately have "uring_ok view d'" "keeps d1 fs d'" using released_ok [OF ok1 p(2)] by (simp_all add: fin)
  moreover have "case res of Inr k \<Rightarrow> k = length fs | Inl _ \<Rightarrow> True" using p(4) by (cases r) (simp_all add: fin)
  ultimately show ?thesis using p(3) keeps_trans [OF k1, of fs d'] by auto
qed

lemma uring_poll_ok:
  assumes c: "uring_contract io sz ms view" and ok: "uring_ok view d" and sz: "ud_slot_size d = sz" and ms: "(ud_path d = Multishot) = ms"
    and run: "uring_poll_frames io d out = (res, d', out')"
  shows "\<exists>fs. extends_batch out fs out' \<and> uring_ok view d' \<and> keeps d fs d' \<and> (case res of Inr p \<Rightarrow> outcome_ok p fs | Inl _ \<Rightarrow> True)"
proof -
  let ?d0 = "d\<lparr>ud_back := ip_freed (ud_pool d), ud_pool := (ud_pool d)\<lparr>ip_freed := ud_back d\<rparr>\<rparr>"
  obtain r1 d1 o1 where cm: "uring_complete io ?d0 out = (r1, d1, o1)" by (metis prod_cases3)
  obtain r2 d2 where rf: "refill_and_arm io d1 = (r2, d2)" by fastforce
  have fin: "d' = d2" "out' = o1" using run cm rf by (auto simp: uring_poll_frames_def drain_freed_def split: sum.split_asm)
  have "pool_ok (ud_pool ?d0) = pool_ok (ud_pool d)" by (simp add: pool_ok_def frame_fits_def)
  then have ok0: "uring_ok view ?d0" using ok by (simp add: uring_ok_def uinv_def Let_def own_slots_def pool_slots_def live_slots_def ac_simps)
  have k0: "keeps d [] ?d0" by (simp add: keeps_def same_setup_def frame_bytes_def slot_start_def)
  obtain fs where f: "extends_batch out fs o1" "uring_ok view d1" "keeps ?d0 fs d1" "case r1 of Inr k \<Rightarrow> k = length fs | Inl _ \<Rightarrow> True"
    using complete_ok [OF c ok0 _ _ cm] sz ms by auto
  note k1 = keeps_trans [OF k0 f(3)]
  have "ud_slot_size d1 = sz" using k1 sz by (simp add: keeps_def same_setup_def)
  note s = refill_and_arm_ok [OF c f(2) this rf]
  have "case res of Inr p \<Rightarrow> outcome_ok p fs | Inl _ \<Rightarrow> True"
    using run cm rf f(4) by (auto simp: uring_poll_frames_def drain_freed_def split: sum.split_asm sum.split)
  then show ?thesis using f(1) s keeps_trans [OF k1, of "[]" d2] fin by (auto simp: step_ok_def)
qed

text \<open>The driver keeps the contract of the shell.\<close>

lemma uring_burst_driver:
  assumes "uring_contract io sz ms view"
  shows "burst_driver (uring_ops io) (\<lambda>d. uring_ok view d \<and> ud_slot_size d = sz \<and> (ud_path d = Multishot) = ms)"
proof
  fix d :: "'a uring_driver" and out res d' out'
  assume ok: "uring_ok view d \<and> ud_slot_size d = sz \<and> (ud_path d = Multishot) = ms"
    and run: "poll_frames (uring_ops io) d out = (res, d', out')"
  obtain fs where fs: "extends_batch out fs out'" "uring_ok view d'" "keeps d fs d'" "case res of Inr p \<Rightarrow> outcome_ok p fs | Inl _ \<Rightarrow> True"
    using uring_poll_ok [OF assms] ok run by (fastforce simp: uring_ops_def)
  show "\<exists>fs. extends_batch out fs out' \<and> (\<forall>p. res = Inr p \<longrightarrow> outcome_ok p fs)"
    by (rule exI [of _ fs]) (use fs(1,4) in auto)
  show "uring_ok view d' \<and> ud_slot_size d' = sz \<and> (ud_path d' = Multishot) = ms"
    using fs(2,3) ok by (simp add: keeps_def same_setup_def)
qed

section \<open>Teardown\<close>

text \<open>
  While receives are cancelled only their number matters: completions are dropped with their slots.
\<close>

definition recvs_counted :: "('k \<Rightarrow> uring_view) \<Rightarrow> u32 \<Rightarrow> bool \<Rightarrow> 'k uring_driver \<Rightarrow> bool" where
  "recvs_counted view sz ms d \<longleftrightarrow> unat (fl_armed (ud_fleet d)) = vw_recvs (view (ud_ring d)) \<and> ud_slot_size d = sz \<and> (ud_path d = Multishot) = ms"

lemma count_ended_armed:
  "list_all (cqe_ok io) cs \<Longrightarrow> length (filter (ends_recv io (ud_path d = Multishot)) cs) \<le> unat (fl_armed (ud_fleet d)) \<Longrightarrow>
   unat (fl_armed (ud_fleet (count_ended io cs d))) + length (filter (ends_recv io (ud_path d = Multishot)) cs) = unat (fl_armed (ud_fleet d))
   \<and> ud_slot_size (count_ended io cs d) = ud_slot_size d \<and> ud_path (count_ended io cs d) = ud_path d"
proof (induction cs arbitrary: d)
  case Nil
  then show ?case by (simp add: count_ended_def)
next
  case (Cons c cs)
  let ?d1 = "if cq_user_data c = UD_RECV then d\<lparr>ud_fleet := fleet_complete (classify_cqe io d c) (ud_fleet d)\<rparr> else d"
  have split: "count_ended io (c # cs) d = count_ended io cs ?d1" by (simp add: count_ended_def)
  have "unat (fl_armed (ud_fleet ?d1)) + (if ends_recv io (ud_path d = Multishot) c then 1 else 0) = unat (fl_armed (ud_fleet d))"
  proof (cases "cq_user_data c = UD_RECV")
    case True
    then show ?thesis
      using classify_ok(1) [of io c d] fleet_complete_armed [of "classify_cqe io d c" "ud_fleet d"] Cons.prems by (auto split: if_split_asm)
  next
    case False
    then show ?thesis by (simp add: ends_recv_def)
  qed
  with Cons.IH [of ?d1] Cons.prems show ?case unfolding split by (auto split: if_split_asm)
qed

lemma push_counted:
  assumes "uring_contract io sz ms view" "recvs_counted view sz ms d" "push io cancel_entry d = (r, d')"
  shows "recvs_counted view sz ms d'"
  using push_spec [OF assms(1) _ assms(3)] by_kernel_fields assms(2)
  by (fastforce simp: recvs_counted_def queued_def cancel_entry_def UD_RECV_def UD_CANCEL_def split: sum.split_asm)

lemma wait_counted:
  assumes "uring_contract io sz ms view" "recvs_counted view sz ms d" "kernel_call (ring_submit_wait io t) d = (r, d')"
  shows "recvs_counted view sz ms d'"
proof -
  have q: "view (ud_ring d') = view (ud_ring d)" "by_kernel (vw_held (view (ud_ring d))) d d'"
    using kernel_call_spec [OF assms(3), of "\<lambda>k. view k = view (ud_ring d)" "vw_held (view (ud_ring d))"] uring_contractD(3) [OF assms(1)] assms(2)
    by (simp_all add: recvs_counted_def)
  show ?thesis using by_kernel_fields [OF q(2)] q(1) assms(2) by (simp add: recvs_counted_def)
qed

lemma reap_counted:
  assumes "uring_contract io sz ms view" "recvs_counted view sz ms d" "kernel_call (ring_completion io) d = (cs, d')"
  shows "recvs_counted view sz ms ((count_ended io cs d')\<lparr>ud_ring := cq_release io (length cs) (ud_ring d')\<rparr>)"
proof -
  let ?k = "cq_release io (length cs)" let ?v = "view (ud_ring d)"
  have q: "view (ud_ring d') = ?v \<and> list_all (cqe_ok io) cs \<and> view (ud_ring d') = reaped io ms cs (view (?k (ud_ring d')))" "by_kernel (vw_held ?v) d d'"
    using kernel_call_spec [OF assms(3), of "\<lambda>k. view k = ?v \<and> list_all (cqe_ok io) cs \<and> view k = reaped io ms cs (view (?k k))" "vw_held ?v"]
      uring_contractD(4) [OF assms(1)] assms(2) by (fastforce simp: recvs_counted_def)+
  have d': "unat (fl_armed (ud_fleet d')) = vw_recvs (view (?k (ud_ring d'))) + length (filter (ends_recv io ms) cs)" "ud_slot_size d' = sz"
    "(ud_path d' = Multishot) = ms"
    using by_kernel_fields [OF q(2)] assms(2) q(1) by (auto simp: recvs_counted_def reaped_def dest: arg_cong [of _ _ vw_recvs])
  then show ?thesis using count_ended_armed [of io cs d'] q(1) by (simp add: recvs_counted_def)
qed

lemmas cancel_loop_induct = cancel_loop.raw_induct [rotated]

lemma cancel_loop_counted:
  assumes run: "cancel_loop io clock deadline d w = Some (q, d', w')" and c: "uring_contract io sz ms view" and d: "recvs_counted view sz ms d"
  shows "recvs_counted view sz ms d' \<and> (q \<longrightarrow> fl_armed (ud_fleet d') = 0)"
proof -
  let ?P = "\<lambda>i d (q, d', w'). i = io \<and> recvs_counted view sz ms d \<longrightarrow> recvs_counted view sz ms d' \<and> (q \<longrightarrow> fl_armed (ud_fleet d') = 0)"
  have "?P io d (q, d', w')"
  proof (rule cancel_loop_induct [where P = "\<lambda>i _ _ d _. ?P i d", OF run])
    fix loop i clock deadline d w y
    assume ih: "\<And>i clock deadline d w y. loop i clock deadline d w = Some y \<Longrightarrow> ?P i d y"
      and step: "(if fl_armed (ud_fleet d) = 0 then Some (True, d, w)
      else case clock w of
        (now, w1) \<Rightarrow>
          if deadline - now = 0 then Some (False, d, w1)
          else case push i cancel_entry d of
            (Inl _, d1) \<Rightarrow> Some (False, d1, w1)
          | (Inr _, d1) \<Rightarrow>
              (case kernel_call (ring_submit_wait i (deadline - now)) d1 of
                 (r, d2) \<Rightarrow>
                   if (case r of Inl e \<Rightarrow> raw_os_error e \<noteq> Some ETIME \<and> raw_os_error e \<noteq> Some EINTR | Inr _ \<Rightarrow> False)
                   then Some (False, d2, w1)
                   else case kernel_call (ring_completion i) d2 of
                     (cqes, d3) \<Rightarrow>
                       loop i clock deadline
                         ((count_ended i cqes d3)\<lparr>ud_ring := cq_release i (length cqes) (ud_ring d3)\<rparr>) w1)) = Some y"
    show "?P i d y"
    proof (cases "i = io \<and> recvs_counted view sz ms d \<and> fl_armed (ud_fleet d) \<noteq> 0")
      case False
      then show ?thesis using step by auto
    next
      case True
      obtain now w1 where w1: "clock w = (now, w1)" by fastforce
      obtain r1 d1 where p: "push io cancel_entry d = (r1, d1)" by fastforce
      obtain r2 d2 where k: "kernel_call (ring_submit_wait io (deadline - now)) d1 = (r2, d2)" by fastforce
      obtain cs d3 where cs: "kernel_call (ring_completion io) d2 = (cs, d3)" by fastforce
      have 1: "recvs_counted view sz ms d1" using push_counted [OF c _ p] True by simp
      note 2 = wait_counted [OF c 1 k]
      from step True w1 p k cs 1 2 ih [of io clock deadline _ w1 y] reap_counted [OF c 2 cs] show ?thesis
        by (auto split: if_split_asm sum.split_asm)
    qed
  qed
  with d show ?thesis by simp
qed

text \<open>Memory is freed only when no receive is outstanding.\<close>

lemma cancel_recvs_quiet:
  assumes c: "uring_contract io sz ms view" and ok: "uring_ok view d" "ud_slot_size d = sz" "(ud_path d = Multishot) = ms"
    and run: "cancel_recvs io clock d w = Some (True, d', w')"
  shows "vw_recvs (view (ud_ring d')) = 0"
proof -
  have "recvs_counted view sz ms d" using ok by (simp add: recvs_counted_def uring_ok_def uinv_def Let_def)
  then show ?thesis using run cancel_loop_counted [OF _ c] by (fastforce simp: cancel_recvs_def recvs_counted_def split: prod.split_asm)
qed

end
