(* ===== verification/Uring_Lifetime.thy ===== *)
theory Uring_Lifetime
  imports Uring_Custody
begin

text \<open>
  The life of an \<^verbatim>\<open>io_uring\<close> receiver from \<^verbatim>\<open>bind\<close> on: what set-up leaves, a run of a client, and the custody theorem.
\<close>

section \<open>Set-up\<close>

text \<open>Creating a ring gives an empty one; the registration calls move no slot and start no receive.\<close>

definition setup_contract :: "'k uring_sys \<Rightarrow> ('k \<Rightarrow> uring_view) \<Rightarrow> bool" where
  "setup_contract rs view \<longleftrightarrow>
     (\<forall>cq sq k u k'. rs_build rs cq sq k = (Inr u, k') \<longrightarrow> view k' = \<lparr>vw_held = {#}, vw_recvs = 0, vw_tail = 0\<rparr>)
     \<and> (\<forall>k r k'. rs_probe rs k = (r, k') \<longrightarrow> view k' = view k)
     \<and> (\<forall>n k r k'. rs_mmap rs n k = (r, k') \<longrightarrow> view k' = view k)
     \<and> (\<forall>a n k. view (rs_munmap rs a n k) = view k)
     \<and> (\<forall>a n b k r k'. rs_register_buf_ring rs a n b k = (r, k') \<longrightarrow> view k' = view k)
     \<and> (\<forall>b k r k'. rs_unregister_buf_ring rs b k = (r, k') \<longrightarrow> view k' = view k)"

definition fresh :: "uring_view \<Rightarrow> bool" where
  "fresh v \<longleftrightarrow> v = \<lparr>vw_held = {#}, vw_recvs = 0, vw_tail = 0\<rparr>"

lemma next_power_from:
  "n \<le> 2 ^ (i + m) \<Longrightarrow> m \<le> fuel \<Longrightarrow> \<exists>j. j \<le> i + m \<and> next_power_of_two_from fuel (2 ^ i) n = 2 ^ j \<and> n \<le> 2 ^ j"
proof (induction fuel arbitrary: i m)
  case 0
  then show ?case by auto
next
  case (Suc fuel)
  show ?case
  proof (cases "n \<le> 2 ^ i")
    case True
    then show ?thesis by (intro exI [of _ i]) simp
  next
    case False
    with Suc.prems obtain m' where m: "m = Suc m'" by (cases m) auto
    with Suc.IH [of "Suc i" m'] Suc.prems False show ?thesis by auto
  qed
qed

lemma next_power_of_two_slots:
  assumes "unat n \<le> 32768"
  obtains j where "j \<le> 15" "unat (next_power_of_two n) = 2 ^ j" "unat n \<le> 2 ^ j"
proof -
  obtain j where j: "j \<le> 15" "next_power_of_two_from 31 1 (unat n) = 2 ^ j" "unat n \<le> 2 ^ j"
    using next_power_from [of "unat n" 0 15 31] assms by auto
  have "(2 :: nat) ^ j \<le> 2 ^ 15" by (rule power_increasing) (use j(1) in simp_all)
  then have "unat (next_power_of_two n) = 2 ^ j" unfolding next_power_of_two_def j(2) unat_of_nat by simp
  with j that show thesis by blast
qed

lemma ring_mem_new_ok:
  assumes "ring_mem_new mmap cnt k = (Inr r, k')" "unat cnt = 2 ^ j" "j \<le> 15" "unat n \<le> 2 ^ j"
  shows "buf_ring_ok n 0 (Some r)" "\<exists>q. mmap (unat cnt * 16) k = (q, k')"
proof -
  have "of_nat (unat cnt) = cnt" by simp
  then have "cnt = 2 ^ j" by (simp only: assms(2) of_nat_power of_nat_numeral)
  then show "buf_ring_ok n 0 (Some r)"
    using assms by (auto simp: ring_mem_new_def call_simps buf_ring_ok_def split: if_split_asm)
  show "\<exists>q. mmap (unat cnt * 16) k = (q, k')" using assms(1) by (auto simp: ring_mem_new_def call_simps split: if_split_asm)
qed

lemma queued_probe: "queued (probe_entry fd) v = v"
  by (simp add: queued_def probe_entry_def sqe_slots_def UD_PROBE_def UD_RECV_def)

lemma reaped_fresh: "fresh (reaped io ms cs v) \<Longrightarrow> fresh v"
  by (cases v) (simp add: fresh_def reaped_def)

text \<open>No call of the probe touches more than the ring it was given.\<close>

definition ring_quiet :: "('k \<Rightarrow> uring_view) \<Rightarrow> 'k \<times> region \<Rightarrow> 'k \<times> region \<Rightarrow> bool" where
  "ring_quiet view st st' \<longleftrightarrow> (fresh (view (fst st)) \<longrightarrow> fresh (view (fst st'))) \<and> rg_size (snd st') = rg_size (snd st)"

lemma ring_quiet_trans: "ring_quiet view st st1 \<Longrightarrow> ring_quiet view st1 st2 \<Longrightarrow> ring_quiet view st st2"
  by (simp add: ring_quiet_def)

lemma aside_ring_quiet:
  assumes "aside m st = (r, st')" "\<And>q k'. m (fst st) = (q, k') \<Longrightarrow> view k' = view (fst st)"
  shows "ring_quiet view st st'"
  using assms by (cases "m (fst st)") (auto simp: aside_def ring_quiet_def)

lemma probe_multishot_quiet:
  assumes c: "uring_contract io sz ms view" and p: "probe_multishot io fd st = (r, st')"
  shows "ring_quiet view st st'"
proof -
  obtain b k where b: "sq_push io (probe_entry fd) (fst st) = (b, k)" by fastforce
  have k: "view k = view (fst st)" using uring_contractD(1) [OF c b] by (simp add: queued_probe)
  obtain q k1 rg1 where s: "ring_submit io (k, snd st) = (q, k1, rg1)" by (metis prod_cases3)
  have 1: "view k1 = view (fst st)" "rg_size rg1 = rg_size (snd st)" using uring_contractD(2) [OF c s] k by (simp_all add: writes_only_def)
  obtain cs k2 rg2 where cs: "ring_completion io (k1, rg1) = (cs, k2, rg2)" by (metis prod_cases3)
  let ?n = "any_read probe_rejected cs"
  have "?n \<le> length cs" by (simp add: any_read_def)
  then have 2: "view k2 = view (fst st)" "rg_size rg2 = rg_size (snd st)" "view k2 = reaped io ms (take ?n cs) (view (cq_release io ?n k2))"
    using uring_contractD(4) [OF c cs] 1 unfolding writes_only_def by (auto simp del: min_less_iff_conj)
  then have "fresh (view (fst st)) \<Longrightarrow> fresh (view (cq_release io ?n k2))" using reaped_fresh by metis
  with p b k s 1 cs 2 show ?thesis
    by (auto simp: probe_multishot_def attempt_def map_err_def ring_quiet_def split: bool.split_asm sum.split_asm)
qed

lemma setup_contractD:
  assumes "setup_contract rs view"
  shows "rs_build rs cq sq k = (Inr u, k') \<Longrightarrow> fresh (view k')" "rs_probe rs k = (r1, k') \<Longrightarrow> view k' = view k"
    "rs_mmap rs n k = (r2, k') \<Longrightarrow> view k' = view k" "view (rs_munmap rs a n k) = view k"
    "rs_register_buf_ring rs a e b k = (r3, k') \<Longrightarrow> view k' = view k" "rs_unregister_buf_ring rs b k = (r3, k') \<Longrightarrow> view k' = view k"
  using assms by (auto simp: setup_contract_def fresh_def)

lemma ring_mem_new_view:
  assumes "setup_contract rs view" "ring_mem_new (rs_mmap rs) n k = (r, k')"
  shows "view k' = view k"
  using assms(2) setup_contractD(3) [OF assms(1)]
  by (auto simp: ring_mem_new_def attempt_def map_err_def lift_def split: sum.split_asm prod.split_asm if_split_asm)

lemma probe_quiet:
  assumes c: "uring_contract io sz ms view" and s: "setup_contract rs view" and p: "probe rs io fd st = (r, st')"
  shows "ring_quiet view st st'"
proof -
  note sc = setup_contractD [OF s]
  obtain legacy k where l: "probe_legacy rs (fst st) = (legacy, k)" by fastforce
  have "view k = view (fst st)" using l sc(2) by (auto simp: probe_legacy_def split: sum.split_asm prod.split_asm)
  then have q0: "ring_quiet view st (k, snd st)" by (simp add: ring_quiet_def)
  obtain q st1 where m: "aside (ring_mem_new (rs_mmap rs) 1) (k, snd st) = (q, st1)" by (metis surj_pair)
  have q1: "ring_quiet view st st1" using ring_quiet_trans [OF q0 aside_ring_quiet [OF m]] ring_mem_new_view [OF s] by simp
  show ?thesis
  proof (cases q)
    case (Inl e)
    then show ?thesis using p l m q1 by (simp add: probe_def attempt_def)
  next
    case (Inr ring)
    obtain g st2 where g: "aside (ring_mem_register rs ring PROBE_BGID) st1 = (g, st2)" by (metis surj_pair)
    have q2: "ring_quiet view st st2" using ring_quiet_trans [OF q1 aside_ring_quiet [OF g]] sc(5) by (simp add: ring_mem_register_def)
    obtain ms st3 where t: "probe_multishot io fd st2 = (ms, st3)" by (metis surj_pair)
    note q3 = ring_quiet_trans [OF q2 probe_multishot_quiet [OF c t]]
    obtain u st4 where u: "aside (rs_unregister_buf_ring rs PROBE_BGID) st3 = (u, st4)" by (metis surj_pair)
    have q4: "ring_quiet view st st4" using ring_quiet_trans [OF q3 aside_ring_quiet [OF u]] sc(6) by simp
    have dropped: "ring_quiet view st (ring_mem_drop rs ring k, rg)" if "ring_quiet view st (k, rg)" for k rg
      using that sc(4) by (simp add: ring_quiet_def ring_mem_drop_def)
    show ?thesis using p l m Inr g t u q2 q4 dropped
      by (auto simp: probe_def attempt_def split: sum.split_asm prod.split_asm if_split_asm)
  qed
qed

text \<open>What a successful refill and a successful arming leave.\<close>

lemma give_back_all:
  assumes c: "uring_contract io sz ms view" and ok: "uring_ok view d" and sz: "ud_slot_size d = sz" and g: "give_back io d = (Inr u, d')"
  shows "ud_back d' = []" "ip_freed (ud_pool d') = ip_freed (ud_pool d)" "fl_armed (ud_fleet d') = fl_armed (ud_fleet d)"
    "\<not> fl_starved (ud_fleet d) \<Longrightarrow> \<not> fl_starved (ud_fleet d')"
proof -
  let ?d0 = "d\<lparr>ud_back := []\<rparr>"
  have "ud_back d' = [] \<and> ip_freed (ud_pool d') = ip_freed (ud_pool d) \<and> fl_armed (ud_fleet d') = fl_armed (ud_fleet d)
    \<and> (\<not> fl_starved (ud_fleet d) \<longrightarrow> \<not> fl_starved (ud_fleet d'))"
  proof (cases "ud_back d = []")
    case True
    then show ?thesis using g by (simp add: give_back_def)
  next
    case False
    obtain r1 rest d1 where h: "hand_over io (ud_back d) ?d0 = (r1, rest, d1)" by (metis prod_cases3)
    have "uinv view (mset (ud_back d)) 0 ?d0" using ok by (simp add: uring_ok_def uinv_def Let_def own_slots_def ac_simps)
    from hand_over_moves [OF c this _ h] sz have m: "handed view 0 (ud_back d) ?d0 r1 rest d1" by simp
    have d': "r1 = Inr u" "d' = d1\<lparr>ud_fleet := fleet_refilled (length (ud_back d) - length rest) (ud_fleet d1), ud_back := rest\<rparr>"
      using g False h by (simp_all add: give_back_def)
    then show ?thesis using m by (simp add: handed_def fleet_refilled_def)
  qed
  then show "ud_back d' = []" "ip_freed (ud_pool d') = ip_freed (ud_pool d)" "fl_armed (ud_fleet d') = fl_armed (ud_fleet d)"
    "\<not> fl_starved (ud_fleet d) \<Longrightarrow> \<not> fl_starved (ud_fleet d')" by blast+
qed

lemma arm_loop_all:
  assumes c: "uring_contract io sz ms view"
  shows "arm_loop io e n d = (Inr u, d') \<Longrightarrow> ud_slot_size d = sz \<Longrightarrow>
    ud_back d' = ud_back d \<and> ip_freed (ud_pool d') = ip_freed (ud_pool d) \<and> fl_armed (ud_fleet d') = fl_armed (ud_fleet d) + of_nat n"
proof (induction n arbitrary: d)
  case 0
  then show ?case by simp
next
  case (Suc n)
  obtain r1 d1 where p: "push io e d = (r1, d1)" by fastforce
  note f = by_kernel_fields [OF push_spec(2) [OF c Suc.prems(2) p]]
  let ?d2 = "d1\<lparr>ud_fleet := (ud_fleet d1)\<lparr>fl_armed := fl_armed (ud_fleet d1) + 1\<rparr>\<rparr>"
  have "arm_loop io e n ?d2 = (Inr u, d')" using Suc.prems(1) p by (auto split: sum.split_asm)
  from Suc.IH [OF this] f Suc.prems(2) show ?case by simp
qed

lemma arm_all:
  assumes c: "uring_contract io sz ms view" and sz: "ud_slot_size d = sz" and a: "arm io d = (Inr u, d')"
    and f: "\<not> fl_starved (ud_fleet d)" "fl_armed (ud_fleet d) \<le> fl_depth (ud_fleet d)"
  shows "ud_back d' = ud_back d \<and> ip_freed (ud_pool d') = ip_freed (ud_pool d) \<and> fl_armed (ud_fleet d') = fl_depth (ud_fleet d)"
  using arm_loop_all [OF c a [unfolded arm_def] sz] f by (simp add: wanted_def sat_sub32_def)

text \<open>After a successful bind the kernel has every slot and the whole fleet is armed.\<close>

lemma start_ready:
  assumes c: "uring_contract io sz ms view" and ok: "uring_ok view d" and sz: "ud_slot_size d = sz"
    and d: "ip_freed (ud_pool d) = []" "ip_live (ud_pool d) = []" "ud_fleet d = fleet_new n"
    and run: "and_then (give_back io) (and_then (arm io) (enter io)) d = (Inr u, d')"
  shows "step_ok view d d'" "vw_held (view (ud_ring d')) = all_slots (ip_count (ud_pool d))" "vw_recvs (view (ud_ring d')) = unat n"
proof -
  obtain u1 d1 where g: "give_back io d = (Inr u1, d1)" using run by (auto simp: and_then_def split: sum.split_asm prod.split_asm)
  obtain u2 d2 where a: "arm io d1 = (Inr u2, d2)" using run g by (auto simp: and_then_def split: sum.split_asm prod.split_asm)
  have e: "enter io d2 = (Inr u, d')" using run g a by (simp add: and_then_def)
  note g1 = give_back_ok [OF c ok sz g] and ga = give_back_all [OF c ok sz g]
  have 1: "uring_ok view d1" "ud_slot_size d1 = sz" "fl_depth (ud_fleet d1) = n"
    using g1 step_ok_size [OF g1] sz d(3) by (simp_all add: step_ok_def keeps_def same_setup_def fleet_new_def)
  note a1 = step_ok_trans [OF g1 arm_ok [OF c 1(1,2) a]]
  have aa: "ud_back d2 = []" "ip_freed (ud_pool d2) = []" "fl_armed (ud_fleet d2) = n"
    using arm_all [OF c 1(2) a] ga d 1(3) by (simp_all add: fleet_new_def)
  have 2: "uring_ok view d2" "ud_slot_size d2 = sz" using a1 step_ok_size [OF a1] sz by (simp_all add: step_ok_def)
  note en = enter_spec [OF c 2(2) e]
  have "keeps d2 [] d'" by (rule by_kernel_keeps [OF 2(1) [unfolded uring_ok_def] en(2)])
  moreover have "uring_ok view d'" using by_kernel_inv [of view "{#}" "{#}" 0 d2 _ d' 0] en 2(1) by (simp add: uring_ok_def)
  ultimately have s: "step_ok view d d'" using step_ok_trans [OF a1] by (simp add: step_ok_def)
  have live: "ip_live (ud_pool d') = []" "ip_count (ud_pool d') = ip_count (ud_pool d)" using s d(2) by (simp_all add: step_ok_def keeps_def same_setup_def)
  have "own_slots d' = {#}" using by_kernel_fields [OF en(2)] aa live(1) by (simp add: own_slots_def pool_slots_def live_slots_def)
  with s aa(3) live(2) by_kernel_fields(2) [OF en(2)] show "vw_held (view (ud_ring d')) = all_slots (ip_count (ud_pool d))" "vw_recvs (view (ud_ring d')) = unat n"
    by (auto simp: step_ok_def uring_ok_def uinv_def Let_def)
  show "step_ok view d d'" by (rule s)
qed

lemma register_path_ok:
  assumes s: "setup_contract rs view" and r: "register_path rs cfg path k = (Inr ring, k')" and n: "unat (ic_slots cfg) \<le> 32768"
  shows "view k' = view k" "buf_ring_ok (ic_slots cfg) 0 ring" "ring = None \<longleftrightarrow> path = Legacy"
proof -
  note sc = setup_contractD [OF s]
  have "view k' = view k \<and> buf_ring_ok (ic_slots cfg) 0 ring \<and> (ring = None \<longleftrightarrow> path = Legacy)"
  proof (cases "path = Legacy")
    case True
    then show ?thesis using r by (simp add: register_path_def call_simps buf_ring_ok_def)
  next
    case False
    let ?n = "next_power_of_two (ic_slots cfg)"
    obtain j where j: "j \<le> 15" "unat ?n = 2 ^ j" "unat (ic_slots cfg) \<le> 2 ^ j" using next_power_of_two_slots [OF n] .
    have "(2 :: nat) ^ j \<le> 2 ^ 15" by (rule power_increasing) (use j(1) in simp_all)
    then have u: "unat (id16 (unat ?n)) = 2 ^ j" unfolding id16_def j(2) unat_of_nat by simp
    obtain mem k1 where m: "ring_mem_new (rs_mmap rs) (id16 (unat ?n)) k = (Inr mem, k1)" and g: "ring_mem_register rs mem BGID k1 = (Inr (), k')"
      and ring: "ring = Some mem"
      using r False by (cases path) (auto simp: register_path_def call_simps)
    show ?thesis using ring_mem_new_ok(1) [OF m u j(1,3)] ring_mem_new_view [OF s m] sc(5) g ring False
      by (auto simp: ring_mem_register_def)
  qed
  then show "view k' = view k" "buf_ring_ok (ic_slots cfg) 0 ring" "ring = None \<longleftrightarrow> path = Legacy" by blast+
qed

lemma uring_validate_slots: "uring_validate cfg = Inr u \<Longrightarrow> unat (ic_slots cfg) \<le> 32768"
  by (auto simp: uring_validate_def at_most_def MAX_SLOTS_def word_le_nat_alt not_less split: if_split_asm)

definition fleet_depth :: "uring_config \<Rightarrow> recv_path \<Rightarrow> u32" where
  "fleet_depth cfg path = (if path = Multishot then 1 else ic_depth cfg)"

lemma bind_ok:
  assumes s: "setup_contract rs view" and b: "uring_driver_bind sys rs io alloc base cfg k = Inr d"
    and c: "uring_contract io (ic_slot_size cfg) (ud_path d = Multishot) view"
  shows "uring_ok view d" "ud_slot_size d = ic_slot_size cfg" "ip_count (ud_pool d) = ic_slots cfg" "ip_live (ud_pool d) = []"
    "vw_held (view (ud_ring d)) = all_slots (ic_slots cfg)" "vw_recvs (view (ud_ring d)) = unat (fleet_depth cfg (ud_path d))"
proof -
  obtain pool fd k1 k2 sp k3 rg path ring k4 u where v: "uring_validate cfg = Inr ()"
    and p: "index_pool_new alloc (ic_slots cfg) (ic_slot_size cfg) = Inr pool"
    and o2: "open_ring rs (next_power_of_two (ic_depth cfg + 2)) (next_power_of_two (ic_slots cfg + ic_depth cfg + 2)) k1 = (Inr (), k2)"
    and pr: "probe rs io fd (k2, ip_region pool) = (Inr sp, k3, rg)" and rp: "register_path rs cfg path k3 = (Inr ring, k4)"
    and run: "and_then (give_back io) (and_then (arm io) (enter io))
      (driver_new cfg base fd path ring (rs_skip_success rs k4) (pool\<lparr>ip_region := rg\<rparr>) k4) = (Inr u, d)"
    using b by (auto simp: uring_driver_bind_def split: sum.split_asm prod.split_asm)
  let ?d0 = "driver_new cfg base fd path ring (rs_skip_success rs k4) (pool\<lparr>ip_region := rg\<rparr>) k4"
  note n = uring_validate_slots [OF v] and pn = index_pool_new_ok [OF p]
  have "fresh (view k2)" using o2 setup_contractD(1) [OF s] by (auto simp: open_ring_def call_simps)
  then have f: "fresh (view k4)" "rg_size rg = rg_size (ip_region pool)"
    using probe_quiet [OF c s pr] register_path_ok(1) [OF s rp n] by (simp_all add: ring_quiet_def)
  have po: "pool_ok (pool\<lparr>ip_region := rg\<rparr>)" using pn(1) f(2) by (auto simp: pool_ok_def frame_fits_def)
  have ps: "pool_slots (pool\<lparr>ip_region := rg\<rparr>) = {#}" "ip_freed pool = []" "ip_live pool = []"
    using pn(2) by (simp_all add: pool_slots_def live_slots_def)
  have ok0: "uring_ok view ?d0"
    using f(1) po ps(1) pn(3,4) n register_path_ok(2) [OF s rp n]
    by (simp add: uring_ok_def uinv_def Let_def own_slots_def driver_new_def fresh_def fleet_new_def all_slots_def)
  note r = start_ready [OF c ok0 _ _ _ _ run, of "fleet_depth cfg path"]
  have st: "step_ok view ?d0 d" "vw_held (view (ud_ring d)) = all_slots (ic_slots cfg)" "vw_recvs (view (ud_ring d)) = unat (fleet_depth cfg path)"
    using r ps pn(3) by (simp_all add: driver_new_def fleet_depth_def)
  then show "uring_ok view d" "ud_slot_size d = ic_slot_size cfg" "ip_count (ud_pool d) = ic_slots cfg" "ip_live (ud_pool d) = []"
    "vw_held (view (ud_ring d)) = all_slots (ic_slots cfg)" "vw_recvs (view (ud_ring d)) = unat (fleet_depth cfg (ud_path d))"
    using pn(3) ps(3) by (simp_all add: step_ok_def keeps_def same_setup_def driver_new_def)
qed

section \<open>A run of a client\<close>

text \<open>
  The client polls and drops frames in any order; in between the kernel may write into slots it holds. \<open>held\<close> are the frames
  the client holds, each with the bytes it had when it was handed out.
\<close>

inductive uring_trace :: "'k uring_io \<Rightarrow> ('k \<Rightarrow> uring_view) \<Rightarrow> 'k uring_driver \<Rightarrow> 'k uring_driver \<Rightarrow> (index_frame \<times> bytes) list \<Rightarrow> bool"
  for io view d0 where
  bound: "uring_trace io view d0 d0 []"
| polled: "uring_trace io view d0 d held \<Longrightarrow> 0 < cap \<Longrightarrow> uring_poll_frames io d (batch_with_capacity cap) = (res, d', out) \<Longrightarrow>
    uring_trace io view d0 d' (map (\<lambda>f. (f, frame_bytes (ud_pool d') f)) (fb_frames out) @ held)"
| dropped: "uring_trace io view d0 d held \<Longrightarrow> f \<in> set (ip_live (ud_pool d)) \<Longrightarrow>
    uring_trace io view d0 (d\<lparr>ud_pool := drop_frame f (ud_pool d)\<rparr>) (filter (\<lambda>(g, _). g \<noteq> f) held)"
| kernel: "uring_trace io view d0 d held \<Longrightarrow> view k = view (ud_ring d) \<Longrightarrow>
    writes_only (ud_slot_size d) (vw_held (view k)) (ip_region (ud_pool d)) rg \<Longrightarrow>
    uring_trace io view d0 (d\<lparr>ud_ring := k, ud_pool := (ud_pool d)\<lparr>ip_region := rg\<rparr>\<rparr>) held"

definition frames_intact :: "'k uring_driver \<Rightarrow> (index_frame \<times> bytes) list \<Rightarrow> bool" where
  "frames_intact d held \<longleftrightarrow> (\<forall>(f, bs) \<in> set held. f \<in> set (ip_live (ud_pool d)) \<and> frame_bytes (ud_pool d) f = bs)"

lemma frames_intact_keeps: "keeps d fs d' \<Longrightarrow> frames_intact d held \<Longrightarrow> frames_intact d' (map (\<lambda>f. (f, frame_bytes (ud_pool d') f)) fs @ held)"
  by (auto simp: frames_intact_def keeps_def)

lemma drop_step_ok:
  assumes "uring_ok view d" "f \<in> set (ip_live (ud_pool d))"
  shows "uring_ok view (d\<lparr>ud_pool := drop_frame f (ud_pool d)\<rparr>)"
proof -
  have "pool_ok (drop_frame f (ud_pool d))" using assms(1) by (intro drop_frame_ok) (simp add: uring_ok_def uinv_def Let_def)
  with assms drop_frame_slots [OF assms(2)] show ?thesis
    by (simp add: uring_ok_def uinv_def Let_def own_slots_def) (simp add: drop_frame_def)
qed

lemma uring_trace_ok:
  assumes "uring_trace io view d0 d held" "uring_contract io sz ms view" "uring_ok view d0" "ud_slot_size d0 = sz" "(ud_path d0 = Multishot) = ms"
  shows "uring_ok view d \<and> frames_intact d held \<and> same_setup d0 d"
  using assms(1)
proof induction
  case bound
  then show ?case using assms by (simp add: frames_intact_def same_setup_def)
next
  case (polled d held cap res d' out)
  obtain fs where fs: "extends_batch (batch_with_capacity cap) fs out" "uring_ok view d'" "keeps d fs d'"
    using uring_poll_ok [OF assms(2) _ _ _ polled.hyps(3)] polled.IH assms(4,5) by (auto simp: same_setup_def)
  moreover from fs(1) have "fb_frames out = fs" by (simp add: extends_batch_def batch_with_capacity_def)
  ultimately show ?case using frames_intact_keeps [OF fs(3)] polled.IH by (auto simp: keeps_def same_setup_def)
next
  case (dropped d held f)
  have "frame_bytes (drop_frame f (ud_pool d)) g = frame_bytes (ud_pool d) g" for g
    by (simp add: drop_frame_def frame_bytes_def slot_start_def)
  then have "frames_intact (d\<lparr>ud_pool := drop_frame f (ud_pool d)\<rparr>) (filter (\<lambda>(g, _). g \<noteq> f) held)"
    using dropped.IH by (auto simp: frames_intact_def) (auto simp: drop_frame_def in_set_remove1)
  then show ?case using dropped drop_step_ok [of view d f] by (simp add: same_setup_def drop_frame_def)
next
  case (kernel d held k rg)
  let ?d' = "d\<lparr>ud_ring := k, ud_pool := (ud_pool d)\<lparr>ip_region := rg\<rparr>\<rparr>"
  have b: "by_kernel (vw_held (view (ud_ring d))) d ?d'"
    unfolding by_kernel_def by (rule exI [of _ rg], rule exI [of _ "ud_stats d"]) (use kernel.hyps in simp)
  have "keeps d [] ?d'" using by_kernel_keeps [of view "{#}" 0 d ?d'] b kernel.IH by (simp add: uring_ok_def)
  moreover have "uring_ok view ?d'" using by_kernel_inv [of view "{#}" "{#}" 0 d _ ?d' 0] b kernel by (simp add: uring_ok_def)
  ultimately show ?case using frames_intact_keeps [of d "[]" ?d' held] kernel.IH by (simp add: keeps_def same_setup_def)
qed


section \<open>A concrete kernel\<close>

text \<open>
  On each submission this kernel writes queued datagrams into the buffers it holds, one receive each;
  \<open>dk_cq\<close> has slot and length of the completions to come.
\<close>

record kdemo_kernel =
  dk_held :: "u32 list"
  dk_recvs :: nat
  dk_tail :: u16
  dk_cq :: "(u16 \<times> u32) list"
  dk_net :: "bytes list"

definition kdemo_cqe :: "u16 \<times> u32 \<Rightarrow> cqe" where
  "kdemo_cqe c = \<lparr>cq_user_data = UD_RECV, cq_result = (if 0 \<le> sint (snd c) then snd c else 0), cq_flags = ucast (fst c)\<rparr>"

definition kdemo_deliver :: "kdemo_kernel \<times> region \<Rightarrow> kdemo_kernel \<times> region" where
  "kdemo_deliver st =
     (case st of (k, rg) \<Rightarrow>
        (case (dk_held k, dk_net k) of
           (s # ss, p # ps) \<Rightarrow>
             if unat s < 65536 \<and> 0 < dk_recvs k
             then (k\<lparr>dk_held := ss, dk_recvs := dk_recvs k - 1, dk_cq := dk_cq k @ [(ucast s, of_nat (length p))], dk_net := ps\<rparr>,
                   write_at (unat s * 8) (take 8 p) rg)
             else st
         | _ \<Rightarrow> st))"

definition kdemo_io :: "kdemo_kernel uring_io" where
  "kdemo_io =
     \<lparr>sq_push = (\<lambda>e k. (True, k\<lparr>dk_held := dk_held k @ sorted_list_of_multiset (sqe_slots e),
        dk_recvs := dk_recvs k + (if sq_user_data e = UD_RECV then 1 else 0)\<rparr>)),
      sq_is_empty = (\<lambda>_. False), cq_overflow = (\<lambda>_. False), ring_submit = (\<lambda>st. (Inr (), kdemo_deliver st)),
      ring_submit_wait = (\<lambda>_ st. (Inr (), st)), ring_completion = (\<lambda>st. (map kdemo_cqe (dk_cq (fst st)), st)),
      cq_release = (\<lambda>n k. k\<lparr>dk_cq := drop n (dk_cq k)\<rparr>), 
      ring_tail_stored = (\<lambda>r k. k\<lparr>dk_held := dk_held k @ sorted_list_of_multiset (ring_bids r (dk_tail k) (br_published r)), dk_tail := br_published r\<rparr>), cqe_more = (\<lambda>_. False),
      cqe_buffer = (\<lambda>flags. Some (ucast flags))\<rparr>"

definition kdemo_view :: "kdemo_kernel \<Rightarrow> uring_view" where
  "kdemo_view k = \<lparr>vw_held = mset (dk_held k) + mset (map (\<lambda>c. ucast (fst c)) (dk_cq k)), vw_recvs = dk_recvs k + length (dk_cq k), vw_tail = dk_tail k\<rparr>"

lemma widen_narrow: "ucast (ucast (x :: u16) :: u32) = x"
proof -
  have "unat x < 2 ^ 32" by (rule less_trans [OF unat_less_pow]) simp
  then show ?thesis by (simp add: word_unat_eq_iff unsigned_ucast_eq unsigned_take_bit_eq take_bit_nat_eq_self)
qed

lemma kdemo_slots: "cqe_slots kdemo_io (map kdemo_cqe cs) = mset (map (\<lambda>c. ucast (fst c)) cs)"
  by (induction cs) (simp_all add: cqe_slots_def kdemo_io_def kdemo_cqe_def widen_narrow)

lemma kdemo_ends: "filter (ends_recv kdemo_io False) (map kdemo_cqe cs) = map kdemo_cqe cs"
  by (induction cs) (simp_all add: ends_recv_def kdemo_cqe_def)

lemma kdemo_deliver_ok:
  assumes "kdemo_deliver (k, rg) = (k', rg')"
  shows "kdemo_view k' = kdemo_view k" "writes_only 8 (vw_held (kdemo_view k)) rg rg'"
proof -
  have "kdemo_view k' = kdemo_view k \<and> writes_only 8 (vw_held (kdemo_view k)) rg rg'"
  proof (cases "\<exists>s ss p ps. dk_held k = s # ss \<and> dk_net k = p # ps \<and> unat s < 65536 \<and> 0 < dk_recvs k")
    case True
    then obtain s ss p ps where t: "dk_held k = s # ss" "dk_net k = p # ps" "unat s < 65536" "0 < dk_recvs k" by blast
    have k': "k' = k\<lparr>dk_held := ss, dk_recvs := dk_recvs k - 1, dk_cq := dk_cq k @ [(ucast s, of_nat (length p))], dk_net := ps\<rparr>"
      and rg': "rg' = write_at (unat s * 8) (take 8 p) rg" using assms t by (simp_all add: kdemo_deliver_def)
    have "ucast (ucast s :: u16) = s" using id16_slot [OF t(3)] by (simp add: id16_def)
    then have "kdemo_view k' = kdemo_view k" using t by (simp add: k' kdemo_view_def)
    moreover have "read_at (unat x * unat (8 :: u32) + off) len rg' = read_at (unat x * unat (8 :: u32) + off) len rg"
      if "x \<noteq> s" "off + len \<le> unat (8 :: u32)" for x off len
      unfolding rg' using slot_ranges_apart [OF that(1) that(2), of 0 "length (take 8 p)"] by (intro read_write_apart) auto
    ultimately show ?thesis using t(1) by (auto simp: writes_only_def kdemo_view_def rg' write_at_def)
  next
    case False
    then have "k' = k" "rg' = rg" using assms by (auto simp: kdemo_deliver_def split: list.split_asm if_split_asm)
    then show ?thesis by (simp add: writes_only_refl)
  qed
  then show "kdemo_view k' = kdemo_view k" "writes_only 8 (vw_held (kdemo_view k)) rg rg'" by blast+
qed

lemma kdemo_contract: "uring_contract kdemo_io 8 False kdemo_view"
  unfolding uring_contract_def
proof (intro conjI allI impI)
  fix e k b k' assume "sq_push kdemo_io e k = (b, k')"
  then show "kdemo_view k' = (if b then queued e (kdemo_view k) else kdemo_view k)"
    by (auto simp: kdemo_io_def kdemo_view_def queued_def)
next
  fix k rg r k' rg' assume a: "ring_submit kdemo_io (k, rg) = (r, k', rg')"
  then have "kdemo_deliver (k, rg) = (k', rg')" by (simp add: kdemo_io_def)
  from kdemo_deliver_ok [OF this] show "kdemo_view k' = kdemo_view k" "writes_only 8 (vw_held (kdemo_view k)) rg rg'" .
next
  fix k rg cs k' rg' assume "ring_completion kdemo_io (k, rg) = (cs, k', rg')"
  then have a: "cs = map kdemo_cqe (dk_cq k)" "k' = k" "rg' = rg" by (auto simp: kdemo_io_def)
  show "kdemo_view k' = kdemo_view k" "writes_only 8 (vw_held (kdemo_view k)) rg rg'" by (simp_all add: a writes_only_refl)
  show "list_all (cqe_ok kdemo_io) cs" by (auto simp: a list_all_iff cqe_ok_def kdemo_cqe_def kdemo_io_def)
  fix n assume "n \<le> length cs"
  have rel: "cq_release kdemo_io n k = k\<lparr>dk_cq := drop n (dk_cq k)\<rparr>" by (simp add: kdemo_io_def)
  have split: "mset (map (\<lambda>c. ucast (fst c) :: u32) (dk_cq k)) = mset (map (\<lambda>c. ucast (fst c)) (take n (dk_cq k))) + mset (map (\<lambda>c. ucast (fst c)) (drop n (dk_cq k)))"
    by (metis append_take_drop_id map_append mset_append)
  show "kdemo_view k' = reaped kdemo_io False (take n cs) (kdemo_view (cq_release kdemo_io n k'))"
    using \<open>n \<le> length cs\<close> split by (simp add: a rel take_map kdemo_slots kdemo_ends reaped_def kdemo_view_def ac_simps)
next
  fix r :: buf_ring and k assume "size (vw_held (kdemo_view k)) + unat (br_published r - vw_tail (kdemo_view k)) \<le> length (br_entries r)"
  show "kdemo_view (ring_tail_stored kdemo_io r k) = stored r (kdemo_view k)" by (simp add: kdemo_io_def kdemo_view_def stored_def)
qed (auto simp: kdemo_io_def writes_only_refl)

definition kdemo_sys :: "kdemo_kernel sock_sys" where
  "kdemo_sys =
     \<lparr>ss_socket = (\<lambda>_ _ k. (Inr 5, k)), ss_set = (\<lambda>_ _ k. (Inr (), k)), ss_bind = (\<lambda>_ _ k. (Inr (), k)), ss_connect = (\<lambda>_ _ _ k. (Inr (), k)),
      ss_local_addr = (\<lambda>_ k. (Inr None, k)), ss_join_v4 = (\<lambda>_ _ _ k. (Inr (), k)), ss_join_v6 = (\<lambda>_ _ _ k. (Inr (), k))\<rparr>"

definition kdemo_rs :: "kdemo_kernel uring_sys" where
  "kdemo_rs =
     \<lparr>rs_build = (\<lambda>_ _ k. (Inr (), k\<lparr>dk_held := [], dk_recvs := 0, dk_tail := 0, dk_cq := []\<rparr>)), rs_probe = (\<lambda>k. (Inr (\<lambda>_. True), k)), rs_fast_poll = (\<lambda>_. True),
      rs_skip_success = (\<lambda>_. True), rs_mmap = (\<lambda>_ k. (Inr 4096, k)), rs_munmap = (\<lambda>_ _ k. k),
      rs_register_buf_ring = (\<lambda>_ _ _ k. (Inr (), k)), rs_unregister_buf_ring = (\<lambda>_ k. (Inr (), k))\<rparr>"

lemma kdemo_setup: "setup_contract kdemo_rs kdemo_view"
  by (simp add: setup_contract_def kdemo_rs_def kdemo_view_def)

definition kdemo_config :: uring_config where
  "kdemo_config = (uring_config_new (AddrV4 127 0 0 1 0))\<lparr>ic_slots := 3, ic_slot_size := 8, ic_depth := 2, ic_path := Some BufRing\<rparr>"

definition kdemo_kernel0 :: kdemo_kernel where
  "kdemo_kernel0 = \<lparr>dk_held = [], dk_recvs = 0, dk_tail = 0, dk_cq = [], dk_net = [[1, 2, 3]]\<rparr>"

definition kdemo_bind :: "transport_error + kdemo_kernel uring_driver" where
  "kdemo_bind = uring_driver_bind kdemo_sys kdemo_rs kdemo_io (\<lambda>_ _. True) 65536 kdemo_config kdemo_kernel0"

lemma kdemo_v: "uring_validate kdemo_config = Inr ()"
  by code_simp

definition kdemo_pool :: index_pool where
  "kdemo_pool = \<lparr>ip_region = \<lparr>rg_bytes = (\<lambda>_. 0), rg_size = 65536\<rparr>, ip_stride = 8, ip_count = 3, ip_freed = [], ip_live = []\<rparr>"

lemma kdemo_pool_new: "index_pool_new (\<lambda>_ _. True) (ic_slots kdemo_config) (ic_slot_size kdemo_config) = Inr kdemo_pool"
  by (simp add: kdemo_config_def kdemo_pool_def index_pool_new_def checked_product_def zeroed_def checked_next_multiple_of_def layout_ok_def
      usize_max_def isize_max_def ALIGN_def)

lemma kdemo_probe: "probe kdemo_rs kdemo_io 5 (kdemo_kernel0, ip_region kdemo_pool) = (Inr \<lparr>su_legacy = True, su_buf_ring = True, su_multishot = True\<rparr>, kdemo_kernel0, ip_region kdemo_pool)"
  by (simp add: probe_def probe_legacy_def kdemo_rs_def aside_def ring_mem_new_def attempt_def map_err_def lift_def ring_mem_register_def
      probe_multishot_def kdemo_io_def kdemo_kernel0_def kdemo_deliver_def probe_entry_def sqe_slots_def UD_PROBE_def UD_RECV_def any_read_def ring_mem_drop_def)

definition kdemo_ring :: buf_ring where
  "kdemo_ring = \<lparr>br_addr = 4096, br_bytes = 64, br_entries = replicate 4 (0, 0, 0), br_mask = 3, br_tail = 0, br_published = 0\<rparr>"

lemma kdemo_register: "register_path kdemo_rs kdemo_config BufRing kdemo_kernel0 = (Inr (Some kdemo_ring), kdemo_kernel0)"
  by code_simp

definition kdemo_start :: "(transport_error + unit) \<times> kdemo_kernel uring_driver" where
  "kdemo_start = and_then (give_back kdemo_io) (and_then (arm kdemo_io) (enter kdemo_io))
     (driver_new kdemo_config 65536 5 BufRing (Some kdemo_ring) True kdemo_pool kdemo_kernel0)"

definition kdemo_filled :: buf_ring where
  "kdemo_filled =
     \<lparr>br_addr = 4096, br_bytes = 64, br_entries = [(65536, 8, 0), (65544, 8, 1), (65552, 8, 2), (0, 0, 0)], br_mask = 3, br_tail = 3,
      br_published = 3\<rparr>"

lemma kdemo_pushes: "br_publish (br_push 65552 8 (id16 2) (br_push 65544 8 (id16 (Suc 0)) (br_push 65536 8 (id16 0) kdemo_ring))) = kdemo_filled"
  by code_simp

lemma kdemo_stored: "ring_tail_stored kdemo_io kdemo_filled kdemo_kernel0 = kdemo_kernel0\<lparr>dk_held := [0, 1, 2], dk_tail := 3\<rparr>"
  by code_simp

lemma kdemo_given:
  "give_back kdemo_io (driver_new kdemo_config 65536 5 BufRing (Some kdemo_ring) True kdemo_pool kdemo_kernel0) =
   (Inr (), (driver_new kdemo_config 65536 5 BufRing (Some kdemo_filled) True kdemo_pool (kdemo_kernel0\<lparr>dk_held := [0, 1, 2], dk_tail := 3\<rparr>))\<lparr>ud_back := []\<rparr>)"
  by (simp add: give_back_def hand_over_def driver_new_def slot_addr_def Let_def kdemo_config_def upt_rec kdemo_pool_def kdemo_pushes kdemo_stored
      fleet_refilled_def fleet_new_def)

definition kdemo_driver :: "kdemo_kernel uring_driver" where
  "kdemo_driver =
     \<lparr>ud_ring = \<lparr>dk_held = [1, 2], dk_recvs = 1, dk_tail = 3, dk_cq = [(0, 3)], dk_net = []\<rparr>,
      ud_pool = kdemo_pool\<lparr>ip_region := write_at 0 [1, 2, 3] (ip_region kdemo_pool)\<rparr>, ud_base = 65536, ud_buf_ring = Some kdemo_filled, ud_sock = 5,
      ud_path = BufRing, ud_slot_size = 8, ud_skip_success = True, ud_fleet = \<lparr>fl_depth = 2, fl_armed = 2, fl_starved = False\<rparr>, ud_back = [],
      ud_stats = \<lparr>no_buffer = 0, nic_missed = 0, ds_truncated = 0, syscalls = 1\<rparr>\<rparr>"

lemma kdemo_io_simps:
  "sqe_slots e = {#} \<Longrightarrow> sq_push kdemo_io e k = (True, k\<lparr>dk_recvs := dk_recvs k + (if sq_user_data e = UD_RECV then 1 else 0)\<rparr>)"
  "sq_is_empty kdemo_io k = False" "ring_submit kdemo_io st = (Inr (), kdemo_deliver st)"
  "ring_completion kdemo_io st = (map kdemo_cqe (dk_cq (fst st)), st)" "cq_release kdemo_io n k = k\<lparr>dk_cq := drop n (dk_cq k)\<rparr>"
  "cqe_more kdemo_io flags = False" "cqe_buffer kdemo_io flags = Some (ucast flags)"
  by (simp_all add: kdemo_io_def)

lemma kdemo_recv_entry: "sqe_slots (recv_entry d) = {#}" "sq_user_data (recv_entry d) = UD_RECV"
  by (simp_all add: sqe_slots_def recv_entry_def split: recv_path.split)

lemma kdemo_armed:
  "arm kdemo_io ((driver_new kdemo_config 65536 5 BufRing (Some kdemo_filled) True kdemo_pool (kdemo_kernel0\<lparr>dk_held := [0, 1, 2], dk_tail := 3\<rparr>))\<lparr>ud_back := []\<rparr>) =
   (Inr (), (driver_new kdemo_config 65536 5 BufRing (Some kdemo_filled) True kdemo_pool
      (kdemo_kernel0\<lparr>dk_held := [0, 1, 2], dk_tail := 3, dk_recvs := 2\<rparr>))\<lparr>ud_back := [], ud_fleet := \<lparr>fl_depth = 2, fl_armed = 2, fl_starved = False\<rparr>\<rparr>)"
proof -
  have "wanted (fleet_new 2) = 2" by code_simp
  then have "unat (wanted (fleet_new 2)) = Suc (Suc 0)" by simp
  then show ?thesis
    by (simp add: arm_def driver_new_def kdemo_config_def push_def kdemo_io_simps kdemo_recv_entry kdemo_kernel0_def) (simp add: fleet_new_def)
qed

lemma kdemo_started: "kdemo_start = (Inr (), kdemo_driver)"
  unfolding kdemo_start_def and_then_def kdemo_given prod.case sum.case kdemo_armed
  by (simp add: enter_def Let_def kernel_call_def kdemo_io_simps driver_new_def kdemo_config_def uring_config_new_def kdemo_deliver_def
      kdemo_kernel0_def kdemo_driver_def driver_stats_default_def kdemo_pool_def)

lemma kdemo_bound: "kdemo_bind = Inr kdemo_driver"
proof -
  have "uring_socket kdemo_sys kdemo_config kdemo_kernel0 = (Inr 5, kdemo_kernel0)" by code_simp
  moreover have "open_ring kdemo_rs a b kdemo_kernel0 = (Inr (), kdemo_kernel0)" for a b
    by (simp add: open_ring_def map_err_def kdemo_rs_def kdemo_kernel0_def)
  moreover have "select (ic_path kdemo_config) \<lparr>su_legacy = True, su_buf_ring = True, su_multishot = True\<rparr> = Inr BufRing" by code_simp
  moreover have "rs_skip_success kdemo_rs k" for k by (simp add: kdemo_rs_def)
  moreover have "kdemo_pool\<lparr>ip_region := ip_region kdemo_pool\<rparr> = kdemo_pool" by simp
  ultimately show ?thesis
    using kdemo_started by (simp add: kdemo_bind_def uring_driver_bind_def kdemo_v kdemo_pool_new kdemo_probe kdemo_register kdemo_start_def)
qed

definition kdemo_poll :: "(transport_error + polled) \<times> kdemo_kernel uring_driver \<times> index_frame frame_batch" where
  "kdemo_poll = uring_poll_frames kdemo_io kdemo_driver (batch_with_capacity 4)"

definition kdemo_frame :: index_frame where
  "kdemo_frame = \<lparr>if_slot = 0, if_offset = 0, if_len = 3\<rparr>"

definition kdemo_after :: "kdemo_kernel uring_driver" where
  "kdemo_after = kdemo_driver\<lparr>ud_ring := (ud_ring kdemo_driver)\<lparr>dk_cq := []\<rparr>, ud_fleet := \<lparr>fl_depth = 2, fl_armed = 1, fl_starved = False\<rparr>,
     ud_pool := (ud_pool kdemo_driver)\<lparr>ip_live := [kdemo_frame]\<rparr>\<rparr>"

lemma kdemo_completed:
  "uring_complete kdemo_io kdemo_driver (batch_with_capacity 4) = (Inr 1, kdemo_after, (batch_with_capacity 4)\<lparr>fb_frames := [kdemo_frame]\<rparr>)"
proof -
  have c: "classify_cqe kdemo_io kdemo_driver (kdemo_cqe (0, 3)) = Data 0 3 True"
    by (simp add: classify_cqe_def classify_def kdemo_cqe_def kdemo_io_simps kdemo_driver_def)
  have q: "dk_cq (ud_ring kdemo_driver) = [(0, 3)]" "cq_user_data (kdemo_cqe (0, 3)) = UD_RECV" "ip_live (ud_pool kdemo_driver) = []"
    "ud_fleet kdemo_driver = \<lparr>fl_depth = 2, fl_armed = 2, fl_starved = False\<rparr>"
    by (simp_all add: kdemo_driver_def kdemo_cqe_def kdemo_pool_def)
  show ?thesis
    by (simp add: uring_complete_def kernel_call_def kdemo_io_simps q c Let_def pool_frame_def fleet_complete_def sat_sub32_def batch_defs kdemo_after_def
        kdemo_frame_def)
qed

lemma kdemo_arm_loop:
  "arm_loop kdemo_io e n d = (r, d') \<Longrightarrow> sqe_slots e = {#} \<Longrightarrow>
   r = Inr () \<and> ud_pool d' = ud_pool d \<and> dk_net (ud_ring d') = dk_net (ud_ring d)"
  by (induction n arbitrary: d) (fastforce simp: push_def kdemo_io_simps)+

lemma kdemo_refilled: "\<exists>d. refill_and_arm kdemo_io kdemo_after = (Inr (), d) \<and> ud_pool d = ud_pool kdemo_after"
proof -
  have b: "ud_back kdemo_after = []" "dk_net (ud_ring kdemo_after) = []" by (simp_all add: kdemo_after_def kdemo_driver_def)
  obtain d1 where d1: "arm kdemo_io kdemo_after = (Inr (), d1)" "ud_pool d1 = ud_pool kdemo_after" "dk_net (ud_ring d1) = []"
    using kdemo_arm_loop [OF _ kdemo_recv_entry(1)] b(2) by (metis arm_def surj_pair)
  have "kdemo_deliver (ud_ring d1, rg) = (ud_ring d1, rg)" for rg by (simp add: kdemo_deliver_def d1(3) split: list.split)
  then show ?thesis
    by (simp add: refill_and_arm_def and_then_def give_back_def b(1) d1(1) submit_if_needed_def kdemo_io_simps enter_def Let_def kernel_call_def d1(2))
qed

lemma kdemo_polled: "map (frame_bytes (ud_pool (fst (snd kdemo_poll)))) (fb_frames (snd (snd kdemo_poll))) = [[1, 2, 3]]"
proof -
  have "kdemo_driver\<lparr>ud_back := ip_freed (ud_pool kdemo_driver), ud_pool := (ud_pool kdemo_driver)\<lparr>ip_freed := ud_back kdemo_driver\<rparr>\<rparr> = kdemo_driver"
    by (simp add: kdemo_driver_def kdemo_pool_def)
  moreover have "frame_bytes (ud_pool kdemo_after) kdemo_frame = [1, 2, 3]"
    by (simp add: kdemo_after_def kdemo_frame_def kdemo_driver_def kdemo_pool_def frame_bytes_def slot_start_def read_at_def write_at_def upt_rec)
  ultimately show ?thesis
    using kdemo_refilled by (auto simp: kdemo_poll_def uring_poll_frames_def drain_freed_def kdemo_completed)
qed


end
